(* ===== verification/Stomp_Prelude.thy ===== *)
theory Stomp_Prelude
  imports Main "HOL-Library.Word"
begin

section \<open>Shared vocabulary of the development\<close>

text \<open>
  The values every component works on, and the fragments of the Go language and of its
  standard library that the sources call:
  \<^item> Go strings and byte slices are byte sequences, so both are \<open>string\<close> (lists of
    8-bit characters);
  \<^item> a call that may panic returns \<open>'a go\<close>, an \<open>error\<close> result is a value of
    \<open>go_error\<close>;
  \<^item> \<open>strconv.FormatUint\<close>, \<open>strconv.ParseUint\<close> and \<open>strconv.ParseInt\<close> in base
    ten, \<open>strings.Split\<close>, \<open>strings.Join\<close> and \<open>strings.HasPrefix\<close>.
  The lemmas on decimal numerals and on splitting are the ones the codec, the heart-beat
  and the acknowledgement proofs share.
\<close>

named_theorems go_simps "evaluation rules of the panic monad and of the error sums"
named_theorems header_simps "lookups in a header after the operations that change it"

type_synonym bytes = string
type_synonym duration = int

abbreviation Millisecond :: duration where
  "Millisecond \<equiv> 1000000"

abbreviation Second :: duration where
  "Second \<equiv> 1000000000"

abbreviation Minute :: duration where
  "Minute \<equiv> 60000000000"

subsection \<open>Panics\<close>

text \<open>
  A Go function either returns or panics. A panic that nothing recovers from (the
  repository never calls \<open>recover\<close>) ends the process, so no state survives it.
\<close>

datatype 'a go = Ret 'a | Panic string

definition go_bind :: "'a go \<Rightarrow> ('a \<Rightarrow> 'b go) \<Rightarrow> 'b go" where
  "go_bind m k = (case m of Ret x \<Rightarrow> k x | Panic msg \<Rightarrow> Panic msg)"

definition panics :: "'a go \<Rightarrow> bool" where
  "panics m \<longleftrightarrow> (case m of Ret x \<Rightarrow> False | Panic msg \<Rightarrow> True)"

lemma go_bind_Ret [simp, go_simps]: "go_bind (Ret x) k = k x"
  by (simp add: go_bind_def)

lemma go_bind_Panic [simp, go_simps]: "go_bind (Panic msg) k = Panic msg"
  by (simp add: go_bind_def)

lemma panics_simps [simp, go_simps]: "\<not> panics (Ret x)" "panics (Panic msg)"
  by (simp_all add: panics_def)

lemma go_bind_eq_Ret: "go_bind m k = Ret y \<longleftrightarrow> (\<exists>x. m = Ret x \<and> k x = Ret y)"
  by (cases m) auto

lemma go_bind_eq_Panic:
  "go_bind m k = Panic msg \<longleftrightarrow> m = Panic msg \<or> (\<exists>x. m = Ret x \<and> k x = Panic msg)"
  by (cases m) auto

subsection \<open>Errors\<close>

text \<open>The two kinds of \<open>strconv.NumError\<close>.\<close>

datatype num_error = ErrSyntax | ErrRange

text \<open>
  The error values of the packages \<open>frame\<close> and \<open>server/client\<close>, and those the standard
  library returns to them. \<open>errorMessage\<close> is the string type of
  \<open>server/client/errors.go\<close>. A \<open>NumError\<close> keeps the text it failed on.
\<close>

datatype go_error =
    ErrEOF
  | ErrIO string
  | NumError string num_error
  | ErrInvalidCommand
  | ErrInvalidFrameFormat
  | ErrInvalidHeartBeat
  | errorMessage string

subsection \<open>Decimal numerals: strconv\<close>

definition is_digit :: "char \<Rightarrow> bool" where
  "is_digit c \<longleftrightarrow> 48 \<le> (of_char c :: nat) \<and> (of_char c :: nat) \<le> 57"

definition digit_val :: "char \<Rightarrow> nat" where
  "digit_val c = of_char c - 48"

definition digit_char :: "nat \<Rightarrow> char" where
  "digit_char d = char_of (48 + d)"

fun FormatUint :: "nat \<Rightarrow> string" where
  "FormatUint n =
     (if n < 10 then [digit_char n] else FormatUint (n div 10) @ [digit_char (n mod 10)])"

declare FormatUint.simps [simp del]

text \<open>The verb \<open>%d\<close> of \<open>fmt.Sprintf\<close> on an \<open>int\<close>.\<close>

definition FormatInt :: "int \<Rightarrow> string" where
  "FormatInt x = (if x < 0 then CHR ''-'' # FormatUint (nat (- x)) else FormatUint (nat x))"

text \<open>
  \<open>ParseUint(s, 10, bitSize)\<close> reads digit by digit; it reports the first character that is
  not a digit, or the first digit that takes the value past the width, whichever comes first.
\<close>

fun parse_uint_loop :: "nat \<Rightarrow> nat \<Rightarrow> string \<Rightarrow> num_error + nat" where
  "parse_uint_loop maxVal n [] = Inr n"
| "parse_uint_loop maxVal n (c # cs) =
     (if \<not> is_digit c then Inl ErrSyntax
      else if maxVal < n * 10 + digit_val c then Inl ErrRange
      else parse_uint_loop maxVal (n * 10 + digit_val c) cs)"

definition ParseUint :: "string \<Rightarrow> nat \<Rightarrow> num_error + nat" where
  "ParseUint s bitSize =
     (if s = [] then Inl ErrSyntax else parse_uint_loop (2 ^ bitSize - 1) 0 s)"

text \<open>
  \<open>ParseInt(s, 10, 64)\<close>: an optional sign, the magnitude as an unsigned 64-bit number, and
  the range of \<open>int64\<close>.
\<close>

definition ParseInt64 :: "string \<Rightarrow> num_error + int" where
  "ParseInt64 s =
     (if s = [] then Inl ErrSyntax
      else
        let neg = (hd s = CHR ''-'');
            t = (if hd s = CHR ''+'' \<or> neg then tl s else s)
        in case ParseUint t 64 of
             Inl e \<Rightarrow> Inl e
           | Inr un \<Rightarrow>
               if \<not> neg \<and> 2 ^ 63 \<le> un then Inl ErrRange
               else if neg \<and> 2 ^ 63 < un then Inl ErrRange
               else Inr (if neg then - int un else int un))"

definition dec_val :: "string \<Rightarrow> nat" where
  "dec_val s = foldl (\<lambda>n c. n * 10 + digit_val c) 0 s"

lemma digit_char_props [simp]:
  assumes "d < 10"
  shows "is_digit (digit_char d)" "digit_val (digit_char d) = d"
  using assms by (simp_all add: is_digit_def digit_char_def digit_val_def)

lemma digit_char_numerals [simp]:
  "digit_char 0 = CHR ''0''" "digit_char 1 = CHR ''1''" "digit_char (Suc 0) = CHR ''1''"
  "digit_char 2 = CHR ''2''" "digit_char 3 = CHR ''3''" "digit_char 4 = CHR ''4''"
  "digit_char 5 = CHR ''5''" "digit_char 6 = CHR ''6''" "digit_char 7 = CHR ''7''"
  "digit_char 8 = CHR ''8''" "digit_char 9 = CHR ''9''"
  by (simp_all add: digit_char_def char_of_def bit_0)

lemma FormatUint_digits: "\<forall>c \<in> set (FormatUint n). is_digit c"
proof (induction n rule: FormatUint.induct)
  case (1 n)
  then show ?case by (subst FormatUint.simps) auto
qed

lemma FormatUint_nonempty [simp]: "FormatUint n \<noteq> []"
  by (subst FormatUint.simps) simp

lemma dec_val_snoc [simp]: "dec_val (s @ [c]) = dec_val s * 10 + digit_val c"
  by (simp add: dec_val_def)

lemma dec_val_FormatUint [simp]: "dec_val (FormatUint n) = n"
proof (induction n rule: FormatUint.induct)
  case (1 n)
  show ?case
  proof (cases "n < 10")
    case True
    then show ?thesis
      by (subst FormatUint.simps) (simp add: dec_val_def)
  next
    case False
    with 1 show ?thesis
      by (subst FormatUint.simps) simp
  qed
qed

lemma length_FormatUint: "n < 10 ^ k \<Longrightarrow> 1 \<le> k \<Longrightarrow> length (FormatUint n) \<le> k"
proof (induction k arbitrary: n)
  case 0
  then show ?case by simp
next
  case (Suc k)
  show ?case
  proof (cases "n < 10")
    case True
    then show ?thesis by (subst FormatUint.simps) simp
  next
    case False
    with Suc.prems have "1 \<le> k" by (cases k) auto
    moreover have "n div 10 < 10 ^ k" using Suc.prems(1) by (simp add: less_mult_imp_div_less mult.commute)
    ultimately have "length (FormatUint (n div 10)) \<le> k" by (intro Suc.IH)
    with False show ?thesis by (subst FormatUint.simps) simp
  qed
qed

lemma FormatUint_inj: "FormatUint m = FormatUint n \<Longrightarrow> m = n"
  by (metis dec_val_FormatUint)

lemma dec_fold_ge: "n \<le> foldl (\<lambda>n c. n * 10 + digit_val c) n s"
proof (induction s arbitrary: n)
  case Nil
  show ?case by simp
next
  case (Cons c s)
  have "n \<le> n * 10 + digit_val c" by simp
  also have "\<dots> \<le> foldl (\<lambda>n c. n * 10 + digit_val c) (n * 10 + digit_val c) s" by (rule Cons)
  finally show ?case by simp
qed

lemma parse_uint_loop_Inr:
  "n \<le> maxVal \<Longrightarrow> parse_uint_loop maxVal n s = Inr v \<longleftrightarrow>
     (\<forall>c \<in> set s. is_digit c) \<and> v = foldl (\<lambda>n c. n * 10 + digit_val c) n s \<and> v \<le> maxVal"
proof (induction s arbitrary: n)
  case Nil
  then show ?case by auto
next
  case (Cons c s)
  have "n * 10 + digit_val c \<le> foldl (\<lambda>n c. n * 10 + digit_val c) (n * 10 + digit_val c) s"
    by (rule dec_fold_ge)
  with Cons show ?case by auto
qed

lemma ParseUint_Inr:
  "ParseUint s b = Inr v \<longleftrightarrow>
     s \<noteq> [] \<and> (\<forall>c \<in> set s. is_digit c) \<and> v = dec_val s \<and> v < 2 ^ b"
proof -
  have "(v \<le> 2 ^ b - 1) = (v < (2::nat) ^ b)"
    using zero_less_power [of "2::nat" b] by linarith
  then show ?thesis
    by (auto simp: ParseUint_def parse_uint_loop_Inr dec_val_def)
qed

lemma ParseUint_FormatUint [simp]: "n < 2 ^ b \<Longrightarrow> ParseUint (FormatUint n) b = Inr n"
  by (simp add: ParseUint_Inr FormatUint_digits)

lemma digit_not_sign: "is_digit c \<Longrightarrow> c \<noteq> CHR ''-'' \<and> c \<noteq> CHR ''+''"
  by (auto simp: is_digit_def)

lemma ParseInt64_digits:
  assumes "s \<noteq> []" and "\<forall>c \<in> set s. is_digit c"
  shows "ParseInt64 s = (if dec_val s < 2 ^ 63 then Inr (int (dec_val s)) else Inl ErrRange)"
proof -
  from assms have sign: "hd s \<noteq> CHR ''-''" "hd s \<noteq> CHR ''+''"
    using digit_not_sign [of "hd s"] by auto
  show ?thesis
  proof (cases "dec_val s < 2 ^ 64")
    case True
    with assms have "ParseUint s 64 = Inr (dec_val s)"
      by (simp add: ParseUint_Inr)
    with assms sign show ?thesis
      by (simp add: ParseInt64_def Let_def)
  next
    case False
    have no: "ParseUint s 64 \<noteq> Inr v" for v
      using False by (auto simp: ParseUint_Inr)
    have "parse_uint_loop m n t \<noteq> Inl ErrSyntax" if "\<forall>c \<in> set t. is_digit c" for m n t
      using that by (induction t arbitrary: n) auto
    with assms have "ParseUint s 64 \<noteq> Inl ErrSyntax"
      by (simp add: ParseUint_def)
    with no have "ParseUint s 64 = Inl ErrRange"
      by (cases "ParseUint s 64"; cases "projl (ParseUint s 64)") auto
    with assms sign False show ?thesis
      by (simp add: ParseInt64_def Let_def)
  qed
qed

subsection \<open>Splitting and joining: strings\<close>

fun Split :: "string \<Rightarrow> char \<Rightarrow> string list" where
  "Split [] sep = [[]]"
| "Split (c # s) sep =
     (if c = sep then [] # Split s sep
      else (case Split s sep of [] \<Rightarrow> [[c]] | t # ts \<Rightarrow> (c # t) # ts))"

fun Join :: "string list \<Rightarrow> char \<Rightarrow> string" where
  "Join [] sep = []"
| "Join [s] sep = s"
| "Join (s # t # ts) sep = s @ sep # Join (t # ts) sep"

fun HasPrefix :: "string \<Rightarrow> string \<Rightarrow> bool" where
  "HasPrefix s [] = True"
| "HasPrefix [] (p # ps) = False"
| "HasPrefix (c # s) (p # ps) = (c = p \<and> HasPrefix s ps)"

lemma Split_nonempty [simp]: "Split s sep \<noteq> []"
  by (induction s) (auto split: list.splits)

lemma Split_no_sep: "sep \<notin> set s \<Longrightarrow> Split s sep = [s]"
  by (induction s) auto

lemma Split_append_sep: "sep \<notin> set s \<Longrightarrow> Split (s @ sep # t) sep = s # Split t sep"
  by (induction s) auto

lemma Split_Join:
  "ss \<noteq> [] \<Longrightarrow> \<forall>s \<in> set ss. sep \<notin> set s \<Longrightarrow> Split (Join ss sep) sep = ss"
  by (induction ss sep rule: Join.induct) (auto simp: Split_no_sep Split_append_sep)

lemma HasPrefix_iff: "HasPrefix s p \<longleftrightarrow> (\<exists>r. s = p @ r)"
  by (induction s p rule: HasPrefix.induct) auto

subsection \<open>Two numbers and a comma\<close>

text \<open>
  The regular expressions \<open>^[0-9]+,[0-9]+$\<close> and \<open>^[0-9]{1,9},[0-9]{1,9}$\<close> of the heart-beat
  parsers; the argument says how many digits a number may have.
\<close>

definition match_two_numbers :: "(nat \<Rightarrow> bool) \<Rightarrow> string \<Rightarrow> bool" where
  "match_two_numbers len s =
     (let a = takeWhile is_digit s; r = dropWhile is_digit s
      in a \<noteq> [] \<and> len (length a) \<and> r \<noteq> [] \<and> hd r = CHR '','' \<and> tl r \<noteq> [] \<and>
         list_all is_digit (tl r) \<and> len (length (tl r)))"

definition two_numbers :: "(nat \<Rightarrow> bool) \<Rightarrow> string \<Rightarrow> string \<Rightarrow> string \<Rightarrow> bool" where
  "two_numbers len s a b \<longleftrightarrow>
     s = a @ CHR '','' # b \<and> a \<noteq> [] \<and> b \<noteq> [] \<and> list_all is_digit a \<and> list_all is_digit b \<and>
     len (length a) \<and> len (length b)"

lemma comma_no_digit [simp]: "\<not> is_digit (CHR '','')"
  by (simp add: is_digit_def)

lemma two_numbers_Split:
  "two_numbers len s a b \<Longrightarrow> Split s (CHR '','') = [a, b]"
proof -
  assume t: "two_numbers len s a b"
  then have "CHR '','' \<notin> set a" "CHR '','' \<notin> set b"
    using comma_no_digit by (auto simp: two_numbers_def list_all_iff simp del: comma_no_digit)
  with t show ?thesis by (simp add: two_numbers_def Split_append_sep Split_no_sep)
qed

lemma match_two_numbers_iff: "match_two_numbers len s \<longleftrightarrow> (\<exists>a b. two_numbers len s a b)"
proof
  assume m: "match_two_numbers len s"
  have "s = takeWhile is_digit s @ dropWhile is_digit s" by simp
  with m have "s = takeWhile is_digit s @ CHR '','' # tl (dropWhile is_digit s)"
    by (metis list.collapse match_two_numbers_def)
  moreover have "list_all is_digit (takeWhile is_digit s)"
    using set_takeWhileD by (fastforce simp: list_all_iff)
  ultimately have "two_numbers len s (takeWhile is_digit s) (tl (dropWhile is_digit s))"
    using m unfolding two_numbers_def match_two_numbers_def Let_def by blast
  then show "\<exists>a b. two_numbers len s a b" by blast
next
  assume "\<exists>a b. two_numbers len s a b"
  then obtain a b where t: "two_numbers len s a b" by blast
  then have "takeWhile is_digit s = a" "dropWhile is_digit s = CHR '','' # b"
    by (auto simp: two_numbers_def list_all_iff takeWhile_append dropWhile_append)
  with t show "match_two_numbers len s"
    by (simp add: match_two_numbers_def two_numbers_def)
qed

subsection \<open>Signed 64-bit arithmetic\<close>

text \<open>Go's \<open>int\<close>, \<open>int64\<close> and \<open>time.Duration\<close> (64-bit platforms): two's complement wrap-around.\<close>

definition int64 :: "int \<Rightarrow> int" where
  "int64 x = (x + 2 ^ 63) mod 2 ^ 64 - 2 ^ 63"

lemma int64_id: "- (2 ^ 63) \<le> x \<Longrightarrow> x < 2 ^ 63 \<Longrightarrow> int64 x = x"
  by (simp add: int64_def)

lemma int64_range: "- (2 ^ 63) \<le> int64 x \<and> int64 x < 2 ^ 63"
  by (simp add: int64_def)

text \<open>Go's division truncates towards zero.\<close>

definition quot :: "int \<Rightarrow> int \<Rightarrow> int" where
  "quot a b = sgn a * sgn b * (\<bar>a\<bar> div \<bar>b\<bar>)"

subsection \<open>Ranging over a map\<close>

text \<open>Go visits the entries of a map in an arbitrary order, each once; these are the values it meets.\<close>

definition map_range :: "('k \<rightharpoonup> 'v) \<Rightarrow> 'v list \<Rightarrow> bool" where
  "map_range m vs \<longleftrightarrow> (\<exists>ks. distinct ks \<and> set ks = dom m \<and> vs = map (\<lambda>k. the (m k)) ks)"

lemma map_range_set: "map_range m vs \<Longrightarrow> set vs = ran m"
  by (fastforce simp: map_range_def ran_def image_iff dom_def)

end
