(* ===== verification/Frame_Header.thy ===== *)
theory Frame_Header
  imports Stomp_Prelude
begin

section \<open>Headers: frame/header.go\<close>

text \<open>
  A \<open>Header\<close> keeps its entries in one flat slice, keys at the even and values at the odd
  positions. Every operation of \<open>frame/header.go\<close> is one definition below, on that slice.
  The abstraction \<open>entries\<close> reads the slice as a list of key/value pairs; the lemmas show
  that the operations are the ones of a multimap in which the first entry of a key counts,
  and the locale \<open>header_map\<close> is the contract the rest of the program relies on.
  Index expressions such as \<open>h.slice[i+1]\<close> panic on a slice of odd length; \<open>header_ok\<close>
  is the invariant that excludes it, and \<open>index_in_range\<close> shows that it does.
\<close>

subsection \<open>Header names\<close>

abbreviation ContentLength :: string where "ContentLength \<equiv> ''content-length''"
abbreviation ContentType :: string where "ContentType \<equiv> ''content-type''"
abbreviation Receipt :: string where "Receipt \<equiv> ''receipt''"
abbreviation AcceptVersion :: string where "AcceptVersion \<equiv> ''accept-version''"
abbreviation Host :: string where "Host \<equiv> ''host''"
abbreviation VersionHdr :: string where "VersionHdr \<equiv> ''version''"
abbreviation Login :: string where "Login \<equiv> ''login''"
abbreviation Passcode :: string where "Passcode \<equiv> ''passcode''"
abbreviation HeartBeat :: string where "HeartBeat \<equiv> ''heart-beat''"
abbreviation Session :: string where "Session \<equiv> ''session''"
abbreviation ServerHdr :: string where "ServerHdr \<equiv> ''server''"
abbreviation Destination :: string where "Destination \<equiv> ''destination''"
abbreviation IdHdr :: string where "IdHdr \<equiv> ''id''"
abbreviation AckHdr :: string where "AckHdr \<equiv> ''ack''"
abbreviation Transaction :: string where "Transaction \<equiv> ''transaction''"
abbreviation ReceiptId :: string where "ReceiptId \<equiv> ''receipt-id''"
abbreviation SubscriptionHdr :: string where "SubscriptionHdr \<equiv> ''subscription''"
abbreviation MessageId :: string where "MessageId \<equiv> ''message-id''"
abbreviation MessageHdr :: string where "MessageHdr \<equiv> ''message''"

subsection \<open>The type and its operations\<close>

record Header =
  slice :: "string list"

definition empty_header :: Header where
  "empty_header = \<lparr>slice = []\<rparr>"

definition NewHeader :: "string list \<Rightarrow> Header" where
  "NewHeader headerEntries =
     (if length headerEntries mod 2 \<noteq> 0 then \<lparr>slice = headerEntries @ [[]]\<rparr>
      else \<lparr>slice = headerEntries\<rparr>)"

definition Header_Add :: "Header \<Rightarrow> string \<Rightarrow> string \<Rightarrow> Header" where
  "Header_Add h key val = h\<lparr>slice := slice h @ [key, val]\<rparr>"

text \<open>The loop of \<open>index\<close>: the slice from position \<open>i\<close> on, two at a time.\<close>

fun index_loop :: "string list \<Rightarrow> string \<Rightarrow> nat \<Rightarrow> nat option" where
  "index_loop [] key i = None"
| "index_loop [k] key i = (if k = key then Some i else None)"
| "index_loop (k # v # rest) key i =
     (if k = key then Some i else index_loop rest key (i + 2))"

definition Header_index :: "Header \<Rightarrow> string \<Rightarrow> nat option" where
  "Header_index h key = index_loop (slice h) key 0"

definition Header_Set :: "Header \<Rightarrow> string \<Rightarrow> string \<Rightarrow> Header" where
  "Header_Set h key val =
     (case Header_index h key of
        Some i \<Rightarrow> h\<lparr>slice := (slice h)[i + 1 := val]\<rparr>
      | None \<Rightarrow> h\<lparr>slice := slice h @ [key, val]\<rparr>)"

text \<open>\<open>Contains\<close> returns \<open>(value, ok)\<close>; the pair is an option here.\<close>

definition Header_Contains :: "Header \<Rightarrow> string \<Rightarrow> string option" where
  "Header_Contains h key =
     (case Header_index h key of
        Some i \<Rightarrow> Some (slice h ! (i + 1))
      | None \<Rightarrow> None)"

definition Header_Get :: "Header \<Rightarrow> string \<Rightarrow> string" where
  "Header_Get h key = (case Header_Contains h key of Some v \<Rightarrow> v | None \<Rightarrow> [])"

fun get_all_loop :: "string list \<Rightarrow> string \<Rightarrow> string list" where
  "get_all_loop [] key = []"
| "get_all_loop [k] key = []"
| "get_all_loop (k # v # rest) key =
     (if k = key then v # get_all_loop rest key else get_all_loop rest key)"

definition Header_GetAll :: "Header \<Rightarrow> string \<Rightarrow> string list" where
  "Header_GetAll h key = get_all_loop (slice h) key"

definition Header_Len :: "Header \<Rightarrow> nat" where
  "Header_Len h = length (slice h) div 2"

text \<open>\<open>GetAt\<close> panics outside the range \<open>0 \<le> index < Len()\<close>.\<close>

definition Header_GetAt :: "Header \<Rightarrow> nat \<Rightarrow> (string \<times> string) go" where
  "Header_GetAt h index =
     (if index * 2 + 1 < length (slice h) then Ret (slice h ! (index * 2), slice h ! (index * 2 + 1))
      else Panic ''index out of range'')"

definition Header_Clone :: "Header \<Rightarrow> Header" where
  "Header_Clone h = \<lparr>slice = slice h\<rparr>"

lemma index_loop_bound:
  "index_loop xs key i = Some j \<Longrightarrow> i \<le> j \<and> j < i + length xs"
  by (induction xs key i rule: index_loop.induct) (auto split: if_splits)

text \<open>
  \<open>Del\<close> removes the first entry of the key and looks again, until none is left.
\<close>

function del_loop :: "string list \<Rightarrow> string \<Rightarrow> string list" where
  "del_loop xs key =
     (case index_loop xs key 0 of
        Some i \<Rightarrow> del_loop (take i xs @ drop (i + 2) xs) key
      | None \<Rightarrow> xs)"
  by pat_completeness auto
termination
  by (relation "measure (\<lambda>(xs, key). length xs)") (auto dest: index_loop_bound)

declare del_loop.simps [simp del]

definition Header_Del :: "Header \<Rightarrow> string \<Rightarrow> Header" where
  "Header_Del h key = h\<lparr>slice := del_loop (slice h) key\<rparr>"

text \<open>The loop of \<open>AddHeader\<close>: entries \<open>i, i+1, \<dots>, Len()-1\<close> of the other header.\<close>

function add_header_loop :: "Header \<Rightarrow> Header \<Rightarrow> nat \<Rightarrow> Header go" where
  "add_header_loop h header i =
     (if i < Header_Len header
      then (case Header_GetAt header i of
              Panic msg \<Rightarrow> Panic msg
            | Ret (key, val) \<Rightarrow> add_header_loop (Header_Add h key val) header (i + 1))
      else Ret h)"
  by pat_completeness auto
termination
  by (relation "measure (\<lambda>(h, header, i). Header_Len header - i)") auto

declare add_header_loop.simps [simp del]

definition Header_AddHeader :: "Header \<Rightarrow> Header option \<Rightarrow> Header go" where
  "Header_AddHeader h header =
     (case header of None \<Rightarrow> Ret h | Some other \<Rightarrow> add_header_loop h other 0)"

text \<open>
  \<open>ContentLength\<close> returns \<open>(value, ok, err)\<close>: \<open>Inr None\<close> when the entry is missing,
  \<open>Inl\<close> the \<open>strconv\<close> error when it is malformed.
\<close>

definition Header_ContentLength :: "Header \<Rightarrow> go_error + nat option" where
  "Header_ContentLength h =
     (case Header_Contains h ContentLength of
        None \<Rightarrow> Inr None
      | Some text \<Rightarrow>
          (case ParseUint text 32 of
             Inl e \<Rightarrow> Inl (NumError text e)
           | Inr n \<Rightarrow> Inr (Some n)))"

subsection \<open>The invariant and the list of entries\<close>

definition header_ok :: "Header \<Rightarrow> bool" where
  "header_ok h \<longleftrightarrow> even (length (slice h))"

fun pairs :: "'a list \<Rightarrow> ('a \<times> 'a) list" where
  "pairs (k # v # rest) = (k, v) # pairs rest"
| "pairs _ = []"

fun unpairs :: "('a \<times> 'a) list \<Rightarrow> 'a list" where
  "unpairs [] = []"
| "unpairs ((k, v) # rest) = k # v # unpairs rest"

definition entries :: "Header \<Rightarrow> (string \<times> string) list" where
  "entries h = pairs (slice h)"

lemma pairs_unpairs [simp]: "pairs (unpairs kvs) = kvs"
  by (induction kvs rule: unpairs.induct) auto

lemma even_unpairs [simp]: "even (length (unpairs kvs))"
  by (induction kvs rule: unpairs.induct) auto

lemma unpairs_pairs: "even (length xs) \<Longrightarrow> unpairs (pairs xs) = xs"
  by (induction xs rule: pairs.induct) auto

lemma unpairs_append [simp]: "unpairs (a @ b) = unpairs a @ unpairs b"
  by (induction a rule: unpairs.induct) auto

lemma header_as_entries:
  assumes "header_ok h"
  obtains kvs where "h = \<lparr>slice = unpairs kvs\<rparr>" and "entries h = kvs"
proof
  show "h = \<lparr>slice = unpairs (pairs (slice h))\<rparr>"
    using assms by (simp add: header_ok_def unpairs_pairs)
  show "entries h = pairs (slice h)"
    by (simp add: entries_def)
qed

lemma header_okI: "slice h = unpairs kvs \<Longrightarrow> header_ok h"
  by (simp add: header_ok_def)

lemma entries_unpairs [simp]: "slice h = unpairs kvs \<Longrightarrow> entries h = kvs"
  by (simp add: entries_def)

text \<open>Reading by position: \<open>index\<close> finds the first entry of the key.\<close>

fun first_pos :: "('k \<times> 'v) list \<Rightarrow> 'k \<Rightarrow> nat option" where
  "first_pos [] key = None"
| "first_pos ((k, v) # rest) key = (if k = key then Some 0 else map_option Suc (first_pos rest key))"

lemma index_loop_unpairs:
  "index_loop (unpairs kvs) key i = map_option (\<lambda>p. i + 2 * p) (first_pos kvs key)"
  by (induction kvs arbitrary: i rule: unpairs.induct)
     (auto simp: option.map_comp comp_def intro!: option.map_cong)

lemma first_pos_bound: "first_pos kvs key = Some p \<Longrightarrow> p < length kvs"
  by (induction kvs key arbitrary: p rule: first_pos.induct) (auto split: if_splits)

lemma first_pos_None: "first_pos kvs key = None \<longleftrightarrow> key \<notin> fst ` set kvs"
  by (induction kvs key rule: first_pos.induct) auto

lemma length_unpairs [simp]: "length (unpairs kvs) = 2 * length kvs"
  by (induction kvs rule: unpairs.induct) auto

lemma nth_unpairs:
  "p < length kvs \<Longrightarrow> unpairs kvs ! (2 * p) = fst (kvs ! p) \<and> unpairs kvs ! Suc (2 * p) = snd (kvs ! p)"
proof (induction kvs arbitrary: p rule: unpairs.induct)
  case 1
  then show ?case by simp
next
  case (2 k v rest)
  then show ?case by (cases p) auto
qed

lemma first_pos_nth:
  "first_pos kvs key = Some p \<Longrightarrow> kvs ! p = (key, the (map_of kvs key)) \<and> map_of kvs key \<noteq> None"
  by (induction kvs key arbitrary: p rule: first_pos.induct) (auto split: if_splits)

text \<open>The meaning of the lookups.\<close>

lemma Contains_entries:
  assumes "header_ok h"
  shows "Header_Contains h key = map_of (entries h) key"
proof -
  from assms obtain kvs where h: "h = \<lparr>slice = unpairs kvs\<rparr>" and e: "entries h = kvs"
    by (rule header_as_entries)
  show ?thesis
  proof (cases "first_pos kvs key")
    case None
    then have "key \<notin> fst ` set kvs" by (simp add: first_pos_None)
    then have "map_of kvs key = None" by (simp add: map_of_eq_None_iff)
    with None show ?thesis
      by (simp add: Header_Contains_def Header_index_def h index_loop_unpairs)
  next
    case (Some p)
    with first_pos_nth [OF Some] first_pos_bound [OF Some] nth_unpairs [of p kvs] show ?thesis
      by (auto simp: Header_Contains_def Header_index_def h index_loop_unpairs)
  qed
qed

lemma GetAll_entries:
  "header_ok h \<Longrightarrow> Header_GetAll h key = map snd (filter (\<lambda>(k, v). k = key) (entries h))"
proof -
  have "get_all_loop xs key = map snd (filter (\<lambda>(k, v). k = key) (pairs xs))" for xs
    by (induction xs key rule: get_all_loop.induct) auto
  then show ?thesis by (simp add: Header_GetAll_def entries_def)
qed

text \<open>The meaning of the updates.\<close>

lemma Add_entries:
  assumes "header_ok h"
  shows "header_ok (Header_Add h k v)" "entries (Header_Add h k v) = entries h @ [(k, v)]"
proof -
  from assms obtain kvs where h: "h = \<lparr>slice = unpairs kvs\<rparr>" and e: "entries h = kvs"
    by (rule header_as_entries)
  have s: "slice (Header_Add h k v) = unpairs (kvs @ [(k, v)])"
    by (simp add: Header_Add_def h)
  from s show "header_ok (Header_Add h k v)" by (rule header_okI)
  from s show "entries (Header_Add h k v) = entries h @ [(k, v)]"
    unfolding e by (rule entries_unpairs)
qed

fun set_first :: "('k \<times> 'v) list \<Rightarrow> 'k \<Rightarrow> 'v \<Rightarrow> ('k \<times> 'v) list" where
  "set_first [] key val = [(key, val)]"
| "set_first ((k, v) # rest) key val =
     (if k = key then (k, val) # rest else (k, v) # set_first rest key val)"

lemma set_first_new: "first_pos kvs key = None \<Longrightarrow> set_first kvs key val = kvs @ [(key, val)]"
  by (induction kvs key val rule: set_first.induct) (auto split: if_splits)

lemma set_first_update:
  "first_pos kvs key = Some p \<Longrightarrow>
     (unpairs kvs)[Suc (2 * p) := val] = unpairs (set_first kvs key val)"
  by (induction kvs key val arbitrary: p rule: set_first.induct) (auto split: if_splits)

lemma Set_entries:
  assumes "header_ok h"
  shows "header_ok (Header_Set h k v)" "entries (Header_Set h k v) = set_first (entries h) k v"
proof -
  from assms obtain kvs where h: "h = \<lparr>slice = unpairs kvs\<rparr>" and e: "entries h = kvs"
    by (rule header_as_entries)
  have s: "slice (Header_Set h k v) = unpairs (set_first kvs k v)"
  proof (cases "first_pos kvs k")
    case None
    then show ?thesis
      by (simp add: Header_Set_def Header_index_def h index_loop_unpairs set_first_new)
  next
    case (Some p)
    then show ?thesis
      by (simp add: Header_Set_def Header_index_def h index_loop_unpairs set_first_update)
  qed
  from s show "header_ok (Header_Set h k v)" by (rule header_okI)
  from s show "entries (Header_Set h k v) = set_first (entries h) k v"
    unfolding e by (rule entries_unpairs)
qed

fun del_first :: "('k \<times> 'v) list \<Rightarrow> 'k \<Rightarrow> ('k \<times> 'v) list" where
  "del_first [] key = []"
| "del_first ((k, v) # rest) key = (if k = key then rest else (k, v) # del_first rest key)"

lemma del_first_unpairs:
  "first_pos kvs key = Some p \<Longrightarrow>
     take (2 * p) (unpairs kvs) @ drop (Suc (Suc (2 * p))) (unpairs kvs) = unpairs (del_first kvs key)"
  by (induction kvs key arbitrary: p rule: del_first.induct) (auto split: if_splits)

lemma length_del_first: "first_pos kvs key = Some p \<Longrightarrow> length (del_first kvs key) < length kvs"
  by (induction kvs key arbitrary: p rule: del_first.induct) (auto split: if_splits)

lemma filter_del_first:
  "filter (\<lambda>(k, v). k \<noteq> key) (del_first kvs key) = filter (\<lambda>(k, v). k \<noteq> key) kvs"
  by (induction kvs key rule: del_first.induct) auto

lemma del_loop_unpairs: "del_loop (unpairs kvs) key = unpairs (filter (\<lambda>(k, v). k \<noteq> key) kvs)"
proof (induction "length kvs" arbitrary: kvs rule: less_induct)
  case less
  show ?case
  proof (cases "first_pos kvs key")
    case None
    then have "filter (\<lambda>(k, v). k \<noteq> key) kvs = kvs"
      by (force simp: first_pos_None intro!: filter_True)
    with None show ?thesis
      by (subst del_loop.simps) (simp add: index_loop_unpairs)
  next
    case (Some p)
    then have "del_loop (unpairs kvs) key = del_loop (unpairs (del_first kvs key)) key"
      by (subst del_loop.simps) (simp add: index_loop_unpairs del_first_unpairs)
    also have "\<dots> = unpairs (filter (\<lambda>(k, v). k \<noteq> key) (del_first kvs key))"
      using less [of "del_first kvs key"] length_del_first [OF Some] by simp
    finally show ?thesis by (simp add: filter_del_first)
  qed
qed

lemma Del_entries:
  assumes "header_ok h"
  shows "header_ok (Header_Del h k)" "entries (Header_Del h k) = filter (\<lambda>(k', v). k' \<noteq> k) (entries h)"
proof -
  from assms obtain kvs where h: "h = \<lparr>slice = unpairs kvs\<rparr>" and e: "entries h = kvs"
    by (rule header_as_entries)
  have s: "slice (Header_Del h k) = unpairs (filter (\<lambda>(k', v). k' \<noteq> k) kvs)"
    by (simp add: Header_Del_def h del_loop_unpairs)
  from s show "header_ok (Header_Del h k)" by (rule header_okI)
  from s show "entries (Header_Del h k) = filter (\<lambda>(k', v). k' \<noteq> k) (entries h)"
    unfolding e by (rule entries_unpairs)
qed

lemma Del_absent: "header_ok h \<Longrightarrow> Header_Contains h key = None \<Longrightarrow> Header_Del h key = h"
  by (auto simp: Header_Del_def Header_Contains_def Header_index_def del_loop.simps [of "slice h"] split: option.splits)

lemma NewHeader_ok: "header_ok (NewHeader xs)"
  by (auto simp: NewHeader_def header_ok_def even_iff_mod_2_eq_zero mod_Suc)

lemma empty_header_entries [simp]: "header_ok empty_header" "entries empty_header = []"
  by (simp_all add: empty_header_def header_ok_def entries_def)

lemma Clone_id [simp]: "Header_Clone h = h"
  by (simp add: Header_Clone_def)

lemma GetAt_entries:
  assumes "header_ok h" and "i < Header_Len h"
  shows "Header_GetAt h i = Ret (entries h ! i)"
proof -
  from assms(1) obtain kvs where h: "h = \<lparr>slice = unpairs kvs\<rparr>" and e: "entries h = kvs"
    by (rule header_as_entries)
  from assms(2) have "i < length kvs" by (simp add: Header_Len_def h)
  with nth_unpairs [of i kvs] show ?thesis
    by (simp add: Header_GetAt_def h e mult.commute)
qed

lemma Len_entries: "header_ok h \<Longrightarrow> Header_Len h = length (entries h)"
  by (erule header_as_entries) (simp add: Header_Len_def)

lemma add_header_loop_entries:
  "header_ok h \<Longrightarrow> header_ok other \<Longrightarrow>
     \<exists>h'. add_header_loop h other i = Ret h' \<and> header_ok h' \<and> entries h' = entries h @ drop i (entries other)"
proof (induction h other i rule: add_header_loop.induct)
  case (1 h other i)
  show ?case
  proof (cases "i < Header_Len other")
    case True
    obtain k v where kv: "entries other ! i = (k, v)" by fastforce
    with "1.prems" True have get: "Header_GetAt other i = Ret (k, v)"
      by (simp add: GetAt_entries)
    from True "1.prems"(2) have "i < length (entries other)" by (simp add: Len_entries)
    then have "drop i (entries other) = (k, v) # drop (Suc i) (entries other)"
      by (simp add: kv Cons_nth_drop_Suc [symmetric])
    moreover obtain h' where "add_header_loop (Header_Add h k v) other (i + 1) = Ret h'" "header_ok h'"
      "entries h' = entries (Header_Add h k v) @ drop (i + 1) (entries other)"
      using "1.IH" [OF True get] "1.prems" Add_entries(1) [of h k v] by auto
    ultimately show ?thesis
      using True get Add_entries(2) [OF "1.prems"(1), of k v]
      by (simp add: add_header_loop.simps [of h])
  next
    case False
    with "1.prems" show ?thesis
      by (simp add: add_header_loop.simps [of h] Len_entries)
  qed
qed

lemma AddHeader_entries:
  assumes "header_ok h" and "header_ok other"
  obtains h' where "Header_AddHeader h (Some other) = Ret h'" "header_ok h'"
    "entries h' = entries h @ entries other"
  using add_header_loop_entries [OF assms, of 0] by (auto simp: Header_AddHeader_def)

subsection \<open>The contract of a header\<close>

text \<open>
  What the callers of the package rely on, without the slice: a header maps a key to the
  value of its first entry; \<open>put\<close> changes one key, \<open>add\<close> never changes a key that is
  present, \<open>del\<close> removes a key altogether.
\<close>

locale header_map =
  fixes lookup :: "'h \<Rightarrow> string \<Rightarrow> string option"
    and put :: "'h \<Rightarrow> string \<Rightarrow> string \<Rightarrow> 'h"
    and add :: "'h \<Rightarrow> string \<Rightarrow> string \<Rightarrow> 'h"
    and del :: "'h \<Rightarrow> string \<Rightarrow> 'h"
    and invar :: "'h \<Rightarrow> bool"
  assumes lookup_put: "invar h \<Longrightarrow> lookup (put h k v) = (lookup h)(k \<mapsto> v)"
    and lookup_add: "invar h \<Longrightarrow> lookup (add h k v) = [k \<mapsto> v] ++ lookup h"
    and lookup_del: "invar h \<Longrightarrow> lookup (del h k) = (lookup h)(k := None)"
    and invar_put: "invar h \<Longrightarrow> invar (put h k v)"
    and invar_add: "invar h \<Longrightarrow> invar (add h k v)"
    and invar_del: "invar h \<Longrightarrow> invar (del h k)"
begin

lemma put_same: "invar h \<Longrightarrow> lookup (put h k v) k = Some v"
  by (simp add: lookup_put)

lemma put_other: "invar h \<Longrightarrow> k' \<noteq> k \<Longrightarrow> lookup (put h k v) k' = lookup h k'"
  by (simp add: lookup_put)

lemma add_present: "invar h \<Longrightarrow> lookup h k' = Some w \<Longrightarrow> lookup (add h k v) k' = Some w"
  by (simp add: lookup_add)

lemma add_absent: "invar h \<Longrightarrow> lookup h k = None \<Longrightarrow> lookup (add h k v) k = Some v"
  by (simp add: lookup_add map_add_def)

lemma add_other: "invar h \<Longrightarrow> k' \<noteq> k \<Longrightarrow> lookup (add h k v) k' = lookup h k'"
  by (auto simp: lookup_add map_add_def split: option.splits)

lemma del_same: "invar h \<Longrightarrow> lookup (del h k) k = None"
  by (simp add: lookup_del)

lemma del_other: "invar h \<Longrightarrow> k' \<noteq> k \<Longrightarrow> lookup (del h k) k' = lookup h k'"
  by (simp add: lookup_del)

lemma puts: "invar h \<Longrightarrow> invar (foldl (\<lambda>h (k, v). put h k v) h kvs) \<and>
     lookup (foldl (\<lambda>h (k, v). put h k v) h kvs) = lookup h ++ map_of (rev kvs)"
proof (induction kvs arbitrary: h)
  case Nil
  then show ?case by simp
next
  case (Cons kv kvs)
  then show ?case
    by (cases kv) (auto simp: lookup_put invar_put map_add_upd_left fun_eq_iff map_add_def
        split: option.splits)
qed

end

lemma map_of_set_first: "map_of (set_first kvs k v) = (map_of kvs)(k \<mapsto> v)"
  by (induction kvs k v rule: set_first.induct) auto

lemma map_of_del: "map_of (filter (\<lambda>(k', v). k' \<noteq> k) kvs) = (map_of kvs)(k := None)"
  by (induction kvs) auto

interpretation hm: header_map Header_Contains Header_Set Header_Add Header_Del header_ok
  by unfold_locales
     (auto simp: fun_eq_iff Contains_entries Add_entries Set_entries Del_entries map_of_set_first
        map_of_del map_add_def split: option.splits)

lemmas header_ok_intros [simp, intro] = hm.invar_put hm.invar_add hm.invar_del

lemmas header_lookups [header_simps] =
  hm.put_same hm.put_other hm.add_other hm.add_absent hm.add_present hm.del_same hm.del_other

subsection \<open>Headers the program can build\<close>

text \<open>
  The slice is private to the package, so every header comes from \<open>NewHeader\<close>, from an
  empty literal, and from the methods.
\<close>

inductive header_built :: "Header \<Rightarrow> bool" where
  built_empty: "header_built empty_header"
| built_new: "header_built (NewHeader xs)"
| built_add: "header_built h \<Longrightarrow> header_built (Header_Add h k v)"
| built_set: "header_built h \<Longrightarrow> header_built (Header_Set h k v)"
| built_del: "header_built h \<Longrightarrow> header_built (Header_Del h k)"
| built_clone: "header_built h \<Longrightarrow> header_built (Header_Clone h)"
| built_add_header: "header_built h \<Longrightarrow> header_built other \<Longrightarrow>
    Header_AddHeader h (Some other) = Ret h' \<Longrightarrow> header_built h'"

lemma header_built_ok: "header_built h \<Longrightarrow> header_ok h"
proof (induction rule: header_built.induct)
  case (built_add_header h other h')
  then show ?case by (metis AddHeader_entries go.inject(1))
qed (simp_all add: NewHeader_ok hm.invar_add hm.invar_put hm.invar_del)

text \<open>
  No header operation indexes its slice out of range: in every header the package
  can build, a position that \<open>index\<close> returns is that of the first entry of the key and has
  a value slot after it, and \<open>GetAt\<close> returns an entry at every index below \<open>Len()\<close>.
\<close>

theorem header_index_safe:
  assumes "header_built h"
  shows "(Header_index h key = Some i \<longrightarrow> i + 1 < length (slice h) \<and> slice h ! i = key \<and> even i) \<and>
         (n < Header_Len h \<longrightarrow> \<not> panics (Header_GetAt h n)) \<and>
         (\<not> n < Header_Len h \<longrightarrow> panics (Header_GetAt h n))"
proof -
  from assms have ok: "header_ok h" by (rule header_built_ok)
  then obtain kvs where h: "h = \<lparr>slice = unpairs kvs\<rparr>" and e: "entries h = kvs"
    by (rule header_as_entries)
  have "i + 1 < length (slice h) \<and> slice h ! i = key \<and> even i" if "Header_index h key = Some i"
  proof -
    from that obtain p where p: "first_pos kvs key = Some p" "i = 2 * p"
      by (auto simp: Header_index_def h index_loop_unpairs)
    with first_pos_bound [OF p(1)] first_pos_nth [OF p(1)] nth_unpairs [of p kvs] show ?thesis
      by (auto simp: h)
  qed
  moreover have "\<not> n < Header_Len h \<longrightarrow> panics (Header_GetAt h n)"
    using ok by (auto simp: Header_GetAt_def Header_Len_def header_ok_def)
  ultimately show ?thesis using ok by (simp add: GetAt_entries)
qed

theorem header_index_safe_witness:
  "header_built (Header_Set (NewHeader [''login'', ''scott'']) ''host'' ''h'') \<and>
   3 < length (slice (Header_Set (NewHeader [''login'', ''scott'']) ''host'' ''h''))"
proof -
  have b: "header_built (Header_Set (NewHeader [''login'', ''scott'']) ''host'' ''h'')"
    by (intro header_built.intros)
  have "Header_index (Header_Set (NewHeader [''login'', ''scott'']) ''host'' ''h'') ''host'' = Some 2"
    by code_simp
  with header_index_safe [OF b, of "''host''" 2 0] b show ?thesis by simp
qed



text \<open>
  \<open>ContentLength\<close>: a missing entry is no error; a value is returned exactly
  when the first \<open>content-length\<close> entry is a non-empty string of decimal digits below
  \<open>2^32\<close>, and it is that number; every other text is an error, so the result is always in
  the range of \<open>uint32\<close>.
\<close>

theorem content_length_spec:
  "(Header_ContentLength h = Inr None \<longleftrightarrow> Header_Contains h ContentLength = None) \<and>
   (Header_ContentLength h = Inr (Some n) \<longleftrightarrow>
      (\<exists>text. Header_Contains h ContentLength = Some text \<and> text \<noteq> [] \<and>
        list_all is_digit text \<and> n = dec_val text \<and> n < 2 ^ 32))"
proof (cases "Header_Contains h ContentLength")
  case None
  then show ?thesis by (simp add: Header_ContentLength_def)
next
  case (Some t)
  then have "Header_ContentLength h = Inr (Some n) \<longleftrightarrow> ParseUint t 32 = Inr n"
    by (simp add: Header_ContentLength_def split: sum.splits)
  moreover have "Header_ContentLength h \<noteq> Inr None"
    using Some by (simp add: Header_ContentLength_def split: sum.splits)
  ultimately show ?thesis
    using Some unfolding ParseUint_Inr list_all_iff by simp
qed

end
