(* ===== verification/Frame_Codec.thy ===== *)
theory Frame_Codec
  imports Frame_Header
begin

section \<open>Frames on the wire: frame/frame.go, encode.go, writer.go, reader.go\<close>

text \<open>
  A frame as the package holds it, the value encoding of header names and values, the
  \<open>Writer\<close> over a \<open>bufio.Writer\<close> and the \<open>Reader\<close> over a \<open>bufio.Reader\<close>.
  \<^item> The writer's connection accepts a number of bytes and then fails (\<open>w_room\<close>); the
    buffer of \<open>bufio.Writer\<close> is modelled with its size, so the theorems cover every
    buffer size and every point of failure.
  \<^item> The reader's input is the list of byte runs that successive reads of the connection
    deliver, and the error it reports after the last one; the theorems hold for every way
    the network cuts the stream.
  A nil \<open>Header\<close>, which only a literal outside the package can make, behaves in \<open>Write\<close>
  and \<open>Clone\<close> like the empty one, and is identified with it; so are nil and empty bodies.
\<close>

subsection \<open>Commands\<close>

abbreviation CONNECT :: string where "CONNECT \<equiv> ''CONNECT''"
abbreviation STOMP :: string where "STOMP \<equiv> ''STOMP''"
abbreviation CONNECTED :: string where "CONNECTED \<equiv> ''CONNECTED''"
abbreviation SEND :: string where "SEND \<equiv> ''SEND''"
abbreviation SUBSCRIBE :: string where "SUBSCRIBE \<equiv> ''SUBSCRIBE''"
abbreviation UNSUBSCRIBE :: string where "UNSUBSCRIBE \<equiv> ''UNSUBSCRIBE''"
abbreviation ACK :: string where "ACK \<equiv> ''ACK''"
abbreviation NACK :: string where "NACK \<equiv> ''NACK''"
abbreviation BEGIN :: string where "BEGIN \<equiv> ''BEGIN''"
abbreviation COMMIT :: string where "COMMIT \<equiv> ''COMMIT''"
abbreviation ABORT :: string where "ABORT \<equiv> ''ABORT''"
abbreviation DISCONNECT :: string where "DISCONNECT \<equiv> ''DISCONNECT''"
abbreviation MESSAGE :: string where "MESSAGE \<equiv> ''MESSAGE''"
abbreviation RECEIPT :: string where "RECEIPT \<equiv> ''RECEIPT''"
abbreviation ERROR :: string where "ERROR \<equiv> ''ERROR''"

definition valid_command :: "string \<Rightarrow> bool" where
  "valid_command c \<longleftrightarrow> c \<in> {CONNECT, STOMP, SEND, SUBSCRIBE, UNSUBSCRIBE, ACK, NACK, BEGIN,
     COMMIT, ABORT, DISCONNECT, CONNECTED, MESSAGE, RECEIPT, ERROR}"

subsection \<open>Frames\<close>

record Frame =
  Command :: string
  Hdr :: Header
  Body :: bytes

fun new_loop :: "Header \<Rightarrow> string list \<Rightarrow> Header go" where
  "new_loop h [] = Ret h"
| "new_loop h [k] = Panic ''index out of range''"
| "new_loop h (k # v # rest) = new_loop (Header_Add h k v) rest"

definition New :: "string \<Rightarrow> string list \<Rightarrow> Frame go" where
  "New command headers =
     go_bind (new_loop empty_header headers)
       (\<lambda>h. Ret \<lparr>Command = command, Hdr = h, Body = []\<rparr>)"

definition Frame_Clone :: "Frame \<Rightarrow> Frame" where
  "Frame_Clone f = \<lparr>Command = Command f, Hdr = Header_Clone (Hdr f), Body = Body f\<rparr>"

text \<open>
  Every call of \<open>New\<close> in the repository passes an even number of strings; \<open>mk_frame\<close> is
  the frame it then makes (\<open>New_even\<close>).
\<close>

definition mk_frame :: "string \<Rightarrow> (string \<times> string) list \<Rightarrow> Frame" where
  "mk_frame command kvs = \<lparr>Command = command, Hdr = \<lparr>slice = unpairs kvs\<rparr>, Body = []\<rparr>"

lemma new_loop_unpairs:
  "new_loop h (unpairs kvs) = Ret (h\<lparr>slice := slice h @ unpairs kvs\<rparr>)"
  by (induction kvs arbitrary: h rule: unpairs.induct) (auto simp: Header_Add_def)

lemma New_even: "New command (unpairs kvs) = Ret (mk_frame command kvs)"
  by (simp add: New_def new_loop_unpairs mk_frame_def empty_header_def)

lemma mk_frame_sel [simp]:
  "Command (mk_frame c kvs) = c" "entries (Hdr (mk_frame c kvs)) = kvs"
  "header_ok (Hdr (mk_frame c kvs))" "Body (mk_frame c kvs) = []"
  by (simp_all add: mk_frame_def entries_def header_ok_def)

lemma mk_frame_Contains [simp]: "Header_Contains (Hdr (mk_frame c kvs)) = map_of kvs"
  by (rule ext) (simp add: Contains_entries)

lemma Frame_Clone_id [simp]: "Frame_Clone f = f"
  by (simp add: Frame_Clone_def)

subsection \<open>Value encoding\<close>

abbreviation (input) backslash :: char where "backslash \<equiv> CHR 0x5C"
abbreviation (input) newline :: char where "newline \<equiv> CHR 0x0A"
abbreviation (input) cr :: char where "cr \<equiv> CHR 0x0D"
abbreviation (input) colon :: char where "colon \<equiv> CHR 0x3A"
abbreviation (input) nullByte :: char where "nullByte \<equiv> CHR 0x00"

text \<open>\<open>replacerForEncodeValue\<close> replaces single bytes.\<close>

definition encode_byte :: "char \<Rightarrow> string" where
  "encode_byte c =
     (if c = backslash then [backslash, backslash]
      else if c = cr then [backslash, CHR ''r'']
      else if c = newline then [backslash, CHR ''n'']
      else if c = colon then [backslash, CHR ''c'']
      else [c])"

definition encodeValue :: "string \<Rightarrow> string" where
  "encodeValue s = concat (map encode_byte s)"

text \<open>
  \<open>replacerForUnencodeValue\<close> replaces the four two-byte sequences, left to right, and
  leaves every other byte alone.
\<close>

fun unencode_loop :: "bytes \<Rightarrow> string" where
  "unencode_loop [] = []"
| "unencode_loop [c] = [c]"
| "unencode_loop (c # d # rest) =
     (if c = backslash \<and> d = CHR ''r'' then cr # unencode_loop rest
      else if c = backslash \<and> d = CHR ''n'' then newline # unencode_loop rest
      else if c = backslash \<and> d = CHR ''c'' then colon # unencode_loop rest
      else if c = backslash \<and> d = backslash then backslash # unencode_loop rest
      else c # unencode_loop (d # rest))"

definition unencodeValue :: "bytes \<Rightarrow> go_error + string" where
  "unencodeValue b = Inr (unencode_loop b)"

lemma encodeValue_simps [simp]:
  "encodeValue [] = []" "encodeValue (c # s) = encode_byte c @ encodeValue s"
  by (simp_all add: encodeValue_def)

lemma unencode_loop_plain: "c \<noteq> backslash \<Longrightarrow> unencode_loop (c # s) = c # unencode_loop s"
  by (cases s) auto

lemma unencode_encode [simp]: "unencode_loop (encodeValue s) = s"
  by (induction s) (auto simp: encode_byte_def unencode_loop_plain)

lemma encode_reserved: "set (encodeValue s) \<inter> {cr, newline, colon} = {}"
  by (induction s) (auto simp: encode_byte_def)

lemma encode_reserved_simps [simp]:
  "cr \<notin> set (encodeValue s)" "newline \<notin> set (encodeValue s)" "colon \<notin> set (encodeValue s)"
  using encode_reserved [of s] by auto

lemma encodeValue_Nil [simp]: "encodeValue s = [] \<longleftrightarrow> s = []"
  by (cases s) (auto simp: encode_byte_def)

subsection \<open>Writing\<close>

text \<open>The buffered writer and the connection under it.\<close>

record bufio_writer =
  w_buf :: bytes
  w_size :: nat
  w_err :: "go_error option"
  w_out :: bytes
  w_room :: "nat option"
  w_fault :: go_error

text \<open>One \<open>Write\<close> of the connection: it takes what it has room for, and fails if that is not all.\<close>

definition conn_Write :: "bytes \<Rightarrow> bufio_writer \<Rightarrow> nat \<times> bufio_writer" where
  "conn_Write p w =
     (case w_room w of
        None \<Rightarrow> (length p, w\<lparr>w_out := w_out w @ p\<rparr>)
      | Some r \<Rightarrow>
          if length p \<le> r then (length p, w\<lparr>w_out := w_out w @ p, w_room := Some (r - length p)\<rparr>)
          else (r, w\<lparr>w_out := w_out w @ take r p, w_room := Some 0, w_err := Some (w_fault w)\<rparr>))"

definition bufio_Flush :: "bufio_writer \<Rightarrow> go_error option \<times> bufio_writer" where
  "bufio_Flush w =
     (if w_err w \<noteq> None then (w_err w, w)
      else if w_buf w = [] then (None, w)
      else let (n, w') = conn_Write (w_buf w) w
           in (w_err w', w'\<lparr>w_buf := drop n (w_buf w)\<rparr>))"

text \<open>The loop of \<open>bufio.Writer.Write\<close>: it runs while the text does not fit the free space.\<close>

function bufio_Write_loop :: "bytes \<Rightarrow> bufio_writer \<Rightarrow> bytes \<times> bufio_writer" where
  "bufio_Write_loop p w =
     (if length p > w_size w - length (w_buf w) \<and> w_err w = None
      then if w_buf w = []
           then (let (n, w') = conn_Write p w in bufio_Write_loop (drop n p) w')
           else (let n = w_size w - length (w_buf w);
                     w' = snd (bufio_Flush (w\<lparr>w_buf := w_buf w @ take n p\<rparr>))
                 in bufio_Write_loop (drop n p) w')
      else (p, w))"
  by pat_completeness auto
termination
  by (relation "measure (\<lambda>(p, w). if w_err w \<noteq> None then 0
                 else Suc (2 * length p + (if w_buf w = [] then 0 else 1)))")
     (auto simp: conn_Write_def bufio_Flush_def split: option.splits if_splits)

declare bufio_Write_loop.simps [simp del]

definition bufio_Write :: "bytes \<Rightarrow> bufio_writer \<Rightarrow> go_error option \<times> bufio_writer" where
  "bufio_Write p w =
     (let (q, w') = bufio_Write_loop p w
      in if w_err w' \<noteq> None then (w_err w', w') else (None, w'\<lparr>w_buf := w_buf w' @ q\<rparr>))"

text \<open>
  The body of \<open>Writer.Write\<close>: the pieces in the order the code writes them, each followed
  by its error check, then \<open>Flush\<close>.
\<close>

fun write_pieces :: "bytes list \<Rightarrow> bufio_writer \<Rightarrow> go_error option \<times> bufio_writer" where
  "write_pieces [] w = bufio_Flush w"
| "write_pieces (p # ps) w =
     (case bufio_Write p w of
        (Some e, w') \<Rightarrow> (Some e, w')
      | (None, w') \<Rightarrow> write_pieces ps w')"

definition header_pieces :: "(string \<times> string) list \<Rightarrow> bytes list" where
  "header_pieces kvs =
     concat (map (\<lambda>(key, val). [encodeValue key, [colon], encodeValue val, [newline]]) kvs)"

definition frame_pieces :: "Frame option \<Rightarrow> bytes list" where
  "frame_pieces fo =
     (case fo of
        None \<Rightarrow> [[newline]]
      | Some f \<Rightarrow>
          [Command f, [newline]] @ header_pieces (entries (Hdr f)) @ [[newline]] @
          (if Body f \<noteq> [] then [Body f] else []) @ [[nullByte]])"

definition Writer_Write :: "Frame option \<Rightarrow> bufio_writer \<Rightarrow> go_error option \<times> bufio_writer" where
  "Writer_Write fo w = write_pieces (frame_pieces fo) w"

definition NewWriterSize :: "nat \<Rightarrow> nat option \<Rightarrow> go_error \<Rightarrow> bufio_writer" where
  "NewWriterSize bufferSize room fault =
     \<lparr>w_buf = [], w_size = (if bufferSize = 0 then 4096 else bufferSize), w_err = None,
      w_out = [], w_room = room, w_fault = fault\<rparr>"

definition NewWriter :: "nat option \<Rightarrow> go_error \<Rightarrow> bufio_writer" where
  "NewWriter room fault = NewWriterSize 4096 room fault"

text \<open>The text of a frame.\<close>

definition frame_bytes :: "Frame option \<Rightarrow> bytes" where
  "frame_bytes fo = concat (frame_pieces fo)"

text \<open>
  What a writing step may do with a text: \<open>accepts w w' t\<close> says that \<open>w'\<close> comes from \<open>w\<close>
  by taking the text \<open>t\<close>. Without an error nothing is lost or reordered; with one, the
  connection has a proper prefix of the text and its room is used up.
\<close>

definition room_used :: "bufio_writer \<Rightarrow> bufio_writer \<Rightarrow> bool" where
  "room_used w w' \<longleftrightarrow>
     (case w_room w of
        None \<Rightarrow> w_room w' = None
      | Some r \<Rightarrow> (\<exists>r'. w_room w' = Some r' \<and> length (w_out w') + r' = length (w_out w) + r))"

definition accepts :: "bufio_writer \<Rightarrow> bufio_writer \<Rightarrow> bytes \<Rightarrow> bool" where
  "accepts w w' t \<longleftrightarrow>
     room_used w w' \<and>
     (if w_err w' = None then w_out w' @ w_buf w' = w_out w @ w_buf w @ t
      else w_room w' = Some 0 \<and> (\<exists>x. x \<noteq> [] \<and> w_out w' @ x = w_out w @ w_buf w @ t))"

lemma room_used_buf [simp]:
  "room_used (w\<lparr>w_buf := b\<rparr>) w' = room_used w w'" "room_used w (w'\<lparr>w_buf := b\<rparr>) = room_used w w'"
  by (simp_all add: room_used_def split: option.split)

lemma accepts_refl: "w_err w = None \<Longrightarrow> accepts w w []"
  by (auto simp: accepts_def room_used_def split: option.splits)

lemma room_used_trans: "room_used w1 w2 \<Longrightarrow> room_used w2 w3 \<Longrightarrow> room_used w1 w3"
  by (auto simp: room_used_def split: option.splits)

lemma accepts_trans:
  "accepts w1 w2 s \<Longrightarrow> w_err w2 = None \<Longrightarrow> accepts w2 w3 t \<Longrightarrow> accepts w1 w3 (s @ t)"
  by (auto simp: accepts_def intro: room_used_trans) (metis append.assoc)

lemma accepts_more:
  "accepts w1 w2 s \<Longrightarrow> w_err w2 \<noteq> None \<Longrightarrow> accepts w1 w2 (s @ t)"
  by (auto simp: accepts_def) (metis append.assoc append_is_Nil_conv)

lemma conn_Write_accepts:
  assumes "w_err w = None" and "conn_Write p w = (n, w')"
  shows "accepts (w\<lparr>w_buf := []\<rparr>) (w'\<lparr>w_buf := []\<rparr>) p"
    and "w_buf w' = w_buf w" "w_size w' = w_size w" "w_err w' = None \<Longrightarrow> n = length p"
  using assms
  by (auto simp: conn_Write_def accepts_def room_used_def split: option.splits if_splits
      intro!: exI [of _ "drop n p"])

lemma Flush_accepts:
  assumes "w_err w = None" and "bufio_Flush w = (e, w')"
  shows "accepts w w' []" "w_err w' = e" "w_size w' = w_size w" "e = None \<Longrightarrow> w_buf w' = []"
  using assms
  by (auto simp: bufio_Flush_def conn_Write_def accepts_def room_used_def
      split: option.splits if_splits prod.splits intro!: exI [of _ "drop r (w_buf w)" for r])

lemma accepts_shift:
  "accepts (w\<lparr>w_buf := w_buf w @ s\<rparr>) w' t \<longleftrightarrow> accepts w w' (s @ t)"
  by (simp add: accepts_def)

lemma Write_loop_accepts:
  "w_err w = None \<Longrightarrow> bufio_Write_loop p w = (q, w') \<Longrightarrow>
     (if w_err w' = None then \<exists>s. p = s @ q \<and> accepts w w' s else accepts w w' p)"
proof (induction p w rule: bufio_Write_loop.induct)
  case (1 p w)
  show ?case
  proof (cases "length p > w_size w - length (w_buf w)")
    case False
    with "1.prems" show ?thesis
      by (auto simp: bufio_Write_loop.simps [of p w] accepts_refl)
  next
    case big: True
    show ?thesis
    proof (cases "w_buf w = []")
      case True
      obtain n w1 where cw: "conn_Write p w = (n, w1)" by fastforce
      note c = conn_Write_accepts [OF "1.prems"(1) cw]
      have a: "accepts w w1 p"
        using c(1,2) True by (cases w; cases w1) simp
      from big True cw "1.prems" have loop: "bufio_Write_loop (drop n p) w1 = (q, w')"
        by (simp add: bufio_Write_loop.simps [of p w])
      have "w' = w1 \<and> (w_err w1 = None \<longrightarrow> q = [])"
        using loop c(4) by (cases "w_err w1") (simp_all add: bufio_Write_loop.simps [of _ w1])
      with a show ?thesis by auto
    next
      case False
      define n where "n = w_size w - length (w_buf w)"
      obtain e w1 where fl: "bufio_Flush (w\<lparr>w_buf := w_buf w @ take n p\<rparr>) = (e, w1)" by fastforce
      from "1.prems"(1) have err: "w_err (w\<lparr>w_buf := w_buf w @ take n p\<rparr>) = None" by simp
      note c = Flush_accepts [OF err fl]
      have a: "accepts w w1 (take n p)" using c(1) by (simp add: accepts_shift)
      from big False fl "1.prems" have loop: "bufio_Write_loop (drop n p) w1 = (q, w')"
        by (simp add: bufio_Write_loop.simps [of p w] n_def [symmetric])
      show ?thesis
      proof (cases "w_err w1 = None")
        case True
        have IH: "if w_err w' = None then \<exists>s. drop n p = s @ q \<and> accepts w1 w' s
            else accepts w1 w' (drop n p)"
          using "1.IH"(2) [OF _ False n_def _ True loop] big "1.prems"(1) fl by (simp add: n_def)
        show ?thesis
        proof (cases "w_err w' = None")
          case no_err: True
          with IH obtain s where s: "drop n p = s @ q" "accepts w1 w' s" by auto
          have "p = (take n p @ s) @ q"
            using s(1) append_take_drop_id [of n p] by simp
          moreover have "accepts w w' (take n p @ s)"
            using accepts_trans [OF a True s(2)] .
          ultimately have "\<exists>s. p = s @ q \<and> accepts w w' s" by blast
          with no_err show ?thesis by simp
        next
          case False
          with IH accepts_trans [OF a True, of w' "drop n p"] show ?thesis by auto
        qed
      next
        case False
        with loop have "w' = w1" by (simp add: bufio_Write_loop.simps [of _ w1])
        with accepts_more [OF a False, of "drop n p"] False show ?thesis by auto
      qed
    qed
  qed
qed

lemma Write_accepts:
  assumes "w_err w = None" and "bufio_Write p w = (e, w')"
  shows "accepts w w' p" "w_err w' = e"
proof -
  obtain q w1 where loop: "bufio_Write_loop p w = (q, w1)" by fastforce
  note a = Write_loop_accepts [OF assms(1) loop]
  show "accepts w w' p"
  proof (cases "w_err w1 = None")
    case True
    with a obtain s where "p = s @ q" "accepts w w1 s" by auto
    moreover from True assms loop have "w' = w1\<lparr>w_buf := w_buf w1 @ q\<rparr>"
      by (simp add: bufio_Write_def)
    ultimately show ?thesis using True by (simp add: accepts_def)
  next
    case False
    with assms loop a show ?thesis by (simp add: bufio_Write_def)
  qed
  show "w_err w' = e"
    using assms loop by (auto simp: bufio_Write_def split: if_splits)
qed

lemma write_pieces_accepts:
  "w_err w = None \<Longrightarrow> write_pieces ps w = (e, w') \<Longrightarrow>
     accepts w w' (concat ps) \<and> w_err w' = e \<and> (e = None \<longrightarrow> w_buf w' = [])"
proof (induction ps arbitrary: w)
  case Nil
  then show ?case using Flush_accepts [of w e w'] by simp
next
  case (Cons p ps)
  obtain e1 w1 where bw: "bufio_Write p w = (e1, w1)" by fastforce
  note a = Write_accepts [OF Cons.prems(1) bw]
  show ?case
  proof (cases e1)
    case None
    with Cons.prems bw a have "accepts w1 w' (concat ps) \<and> w_err w' = e \<and> (e = None \<longrightarrow> w_buf w' = [])"
      by (intro Cons.IH) auto
    with a None accepts_trans [of w w1 p w' "concat ps"] show ?thesis by simp
  next
    case (Some x)
    with a(2) have err: "w_err w1 \<noteq> None" by simp
    from Some Cons.prems bw have "w' = w1" "e = Some x" by simp_all
    with a Some err accepts_more [of w w1 p "concat ps"] show ?thesis by simp
  qed
qed

text \<open>A writer that is ready, over a connection that does not fail, takes every frame.\<close>

definition ready :: "bufio_writer \<Rightarrow> bool" where
  "ready w \<longleftrightarrow> w_err w = None \<and> w_buf w = [] \<and> w_room w = None"

lemma ready_New [simp]: "ready (NewWriterSize n None e)" "ready (NewWriter None e)"
  by (simp_all add: ready_def NewWriter_def NewWriterSize_def)

lemma Writer_Write_ready:
  assumes "ready w"
  obtains w' where "Writer_Write fo w = (None, w')" "ready w'" "w_out w' = w_out w @ frame_bytes fo"
proof -
  obtain e w' where w: "Writer_Write fo w = (e, w')" by fastforce
  from write_pieces_accepts [of w "frame_pieces fo" e w'] w assms
  have "accepts w w' (frame_bytes fo)" "w_err w' = e" "e = None \<longrightarrow> w_buf w' = []"
    by (auto simp: Writer_Write_def frame_bytes_def ready_def)
  with assms have "e = None" "ready w'" "w_out w' = w_out w @ frame_bytes fo"
    by (auto simp: accepts_def room_used_def ready_def split: if_splits)
  with w that show thesis by blast
qed

subsection \<open>Reading\<close>

text \<open>
  The input of a \<open>bufio.Reader\<close>: the runs of bytes that the buffer holds and that later
  reads will deliver. After the last run every read fails with the error \<open>e\<close>.
\<close>

type_synonym stream = "bytes list"

fun ReadBytes :: "char \<Rightarrow> bytes \<Rightarrow> stream \<Rightarrow> (bytes \<times> stream) option" where
  "ReadBytes delim acc [] = None"
| "ReadBytes delim acc (c # cs) =
     (if delim \<in> set c
      then Some (acc @ takeWhile (\<lambda>b. b \<noteq> delim) c @ [delim], tl (dropWhile (\<lambda>b. b \<noteq> delim) c) # cs)
      else ReadBytes delim (acc @ c) cs)"

fun ReadByte :: "stream \<Rightarrow> (char \<times> stream) option" where
  "ReadByte [] = None"
| "ReadByte ([] # cs) = ReadByte cs"
| "ReadByte ((b # c) # cs) = Some (b, c # cs)"

text \<open>
  The loop that fills the body: \<open>need\<close> bytes are missing; each \<open>Read\<close> returns at most the
  bytes of one run.
\<close>

fun read_body :: "nat \<Rightarrow> bytes \<Rightarrow> stream \<Rightarrow> (bytes \<times> stream) option" where
  "read_body need acc cs =
     (if need = 0 then Some (acc, cs)
      else case cs of
             [] \<Rightarrow> None
           | c # rest \<Rightarrow>
               let n = min need (length c)
               in read_body (need - n) (acc @ take n c)
                    (if n = length c then rest else drop n c # rest))"

declare read_body.simps [simp del]

definition HasSuffix :: "bytes \<Rightarrow> bytes \<Rightarrow> bool" where
  "HasSuffix s suf \<longleftrightarrow> length suf \<le> length s \<and> drop (length s - length suf) s = suf"

definition readLine :: "go_error \<Rightarrow> stream \<Rightarrow> go_error + (bytes \<times> stream)" where
  "readLine e cs =
     (case ReadBytes newline [] cs of
        None \<Rightarrow> Inl e
      | Some (line, cs') \<Rightarrow>
          Inr (if HasSuffix line [cr, newline] then take (length line - 2) line
               else if HasSuffix line [newline] then take (length line - 1) line
               else line, cs'))"

fun IndexByte :: "bytes \<Rightarrow> char \<Rightarrow> nat option" where
  "IndexByte [] b = None"
| "IndexByte (c # s) b = (if c = b then Some 0 else map_option Suc (IndexByte s b))"

text \<open>One flat reading of each primitive, whatever the runs are.\<close>

lemma ReadBytes_flat:
  "ReadBytes d acc cs = None \<longleftrightarrow> d \<notin> set (concat cs)"
  "ReadBytes d acc cs = Some (l, cs') \<Longrightarrow>
     l = acc @ takeWhile (\<lambda>b. b \<noteq> d) (concat cs) @ [d] \<and>
     concat cs' = tl (dropWhile (\<lambda>b. b \<noteq> d) (concat cs)) \<and> d \<in> set (concat cs)"
proof -
  show "ReadBytes d acc cs = None \<longleftrightarrow> d \<notin> set (concat cs)"
    by (induction d acc cs rule: ReadBytes.induct) auto
  show "ReadBytes d acc cs = Some (l, cs') \<Longrightarrow>
     l = acc @ takeWhile (\<lambda>b. b \<noteq> d) (concat cs) @ [d] \<and>
     concat cs' = tl (dropWhile (\<lambda>b. b \<noteq> d) (concat cs)) \<and> d \<in> set (concat cs)"
  proof (induction d acc cs rule: ReadBytes.induct)
    case (1 delim acc)
    then show ?case by simp
  next
    case (2 delim acc c cs)
    show ?case
    proof (cases "delim \<in> set c")
      case True
      then have "dropWhile (\<lambda>b. b \<noteq> delim) c \<noteq> []" by (simp add: dropWhile_eq_Nil_conv)
      with True 2 show ?thesis by (auto simp: takeWhile_append dropWhile_append)
    next
      case False
      with 2 show ?thesis by (auto simp: takeWhile_append dropWhile_append)
    qed
  qed
qed

lemma readLine_shorter:
  "readLine e cs = Inr (line, cs') \<Longrightarrow> length (concat cs') < length (concat cs)"
proof -
  assume "readLine e cs = Inr (line, cs')"
  then obtain l where "ReadBytes newline [] cs = Some (l, cs')"
    by (auto simp: readLine_def split: option.splits)
  from ReadBytes_flat(2) [OF this]
  have c: "concat cs' = tl (dropWhile (\<lambda>b. b \<noteq> newline) (concat cs))" "newline \<in> set (concat cs)" by auto
  have "dropWhile (\<lambda>b. b \<noteq> newline) (concat cs) \<noteq> []" using c(2) by (auto simp: dropWhile_eq_Nil_conv)
  then have "length (concat cs') < length (dropWhile (\<lambda>b. b \<noteq> newline) (concat cs))"
    unfolding c(1) by (cases "dropWhile (\<lambda>b. b \<noteq> newline) (concat cs)") auto
  then show ?thesis using length_dropWhile_le [of "\<lambda>b. b \<noteq> newline" "concat cs"] by linarith
qed

text \<open>The header loop of \<open>Read\<close>: it ends at an empty line.\<close>

function read_headers :: "go_error \<Rightarrow> Header \<Rightarrow> stream \<Rightarrow> go_error + (Header \<times> stream)" where
  "read_headers e h cs =
     (case readLine e cs of
        Inl err \<Rightarrow> Inl err
      | Inr (line, cs') \<Rightarrow>
          if line = [] then Inr (h, cs')
          else (case IndexByte line colon of
                  None \<Rightarrow> Inl ErrInvalidFrameFormat
                | Some index \<Rightarrow>
                    if index = 0 then Inl ErrInvalidFrameFormat
                    else (case unencodeValue (take index line) of
                            Inl err \<Rightarrow> Inl err
                          | Inr name \<Rightarrow>
                              (case unencodeValue (drop (index + 1) line) of
                                 Inl err \<Rightarrow> Inl err
                               | Inr val \<Rightarrow> read_headers e (Header_Add h name val) cs'))))"
  by pat_completeness auto
termination
  by (relation "measure (\<lambda>(e, h, cs). length (concat cs))") (auto dest: readLine_shorter)

declare read_headers.simps [simp del]

definition Reader_Read :: "go_error \<Rightarrow> stream \<Rightarrow> go_error + (Frame option \<times> stream)" where
  "Reader_Read e cs =
     (case readLine e cs of
        Inl err \<Rightarrow> Inl err
      | Inr (commandSlice, cs1) \<Rightarrow>
          if commandSlice = [] then Inr (None, cs1)
          else if \<not> valid_command commandSlice then Inl ErrInvalidCommand
          else (case read_headers e empty_header cs1 of
                  Inl err \<Rightarrow> Inl err
                | Inr (h, cs2) \<Rightarrow>
                    (case Header_ContentLength h of
                       Inl err \<Rightarrow> Inl err
                     | Inr (Some contentLength) \<Rightarrow>
                         (case read_body contentLength [] cs2 of
                            None \<Rightarrow> Inl e
                          | Some (body, cs3) \<Rightarrow>
                              (case ReadByte cs3 of
                                 None \<Rightarrow> Inl e
                               | Some (terminator, cs4) \<Rightarrow>
                                   if terminator \<noteq> nullByte then Inl ErrInvalidFrameFormat
                                   else Inr (Some \<lparr>Command = commandSlice, Hdr = h, Body = body\<rparr>, cs4)))
                     | Inr None \<Rightarrow>
                         (case ReadBytes nullByte [] cs2 of
                            None \<Rightarrow> Inl e
                          | Some (body, cs3) \<Rightarrow>
                              Inr (Some \<lparr>Command = commandSlice, Hdr = h,
                                        Body = take (length body - 1) body\<rparr>, cs3)))))"

text \<open>Every successful \<open>Read\<close> consumes input, so a loop of reads ends.\<close>

lemma ReadBytes_le: "ReadBytes d acc cs = Some (l, cs') \<Longrightarrow> length (concat cs') \<le> length (concat cs)"
  using length_dropWhile_le [of "\<lambda>b. b \<noteq> d" "concat cs"] ReadBytes_flat(2) [of d acc cs l cs']
  by simp

lemma ReadByte_le: "ReadByte cs = Some (b, cs') \<Longrightarrow> length (concat cs') \<le> length (concat cs)"
  by (induction cs rule: ReadByte.induct) auto

lemma read_body_le: "read_body need acc cs = Some (b, cs') \<Longrightarrow> length (concat cs') \<le> length (concat cs)"
proof (induction need acc cs rule: read_body.induct)
  case (1 need acc cs)
  show ?case
  proof (cases "need = 0 \<or> cs = []")
    case True
    with "1.prems" show ?thesis by (auto simp: read_body.simps [of need acc cs] split: if_splits)
  next
    case False
    then obtain c rest where cs: "cs = c # rest" by (cases cs) auto
    let ?n = "min need (length c)"
    let ?cs = "if ?n = length c then rest else drop ?n c # rest"
    from False cs have "read_body need acc cs = read_body (need - ?n) (acc @ take ?n c) ?cs"
      by (simp add: read_body.simps [of need acc "c # rest"] Let_def)
    with "1.prems" have "read_body (need - ?n) (acc @ take ?n c) ?cs = Some (b, cs')" by simp
    with "1.IH" [of c rest ?n] False cs have "length (concat cs') \<le> length (concat ?cs)" by simp
    also have "\<dots> \<le> length (concat cs)" using cs by simp
    finally show ?thesis .
  qed
qed

lemma read_headers_le:
  "read_headers e h cs = Inr (h', cs') \<Longrightarrow> length (concat cs') \<le> length (concat cs)"
proof (induction e h cs rule: read_headers.induct)
  case (1 e h cs)
  obtain line cs1 where rl: "readLine e cs = Inr (line, cs1)"
    using "1.prems" by (auto simp: read_headers.simps [of e h cs] split: sum.splits)
  then have less: "length (concat cs1) < length (concat cs)" by (rule readLine_shorter)
  show ?case
  proof (cases "line = []")
    case True
    with rl less "1.prems" show ?thesis by (simp add: read_headers.simps [of e h cs])
  next
    case False
    with rl "1.prems" obtain i where i: "IndexByte line colon = Some i" "i \<noteq> 0"
      and rec: "read_headers e (Header_Add h (unencode_loop (take i line)) (unencode_loop (drop (i + 1) line))) cs1
        = Inr (h', cs')"
      by (auto simp: read_headers.simps [of e h cs] unencodeValue_def split: option.splits if_splits)
    have "length (concat cs') \<le> length (concat cs1)"
      using "1.IH" [OF rl refl False i] rec by (simp add: unencodeValue_def)
    with less show ?thesis by simp
  qed
qed

lemma Reader_Read_shorter:
  assumes "Reader_Read e cs = Inr (fo, cs')"
  shows "length (concat cs') < length (concat cs)"
proof -
  from assms obtain c cs1 where rl: "readLine e cs = Inr (c, cs1)"
    by (auto simp: Reader_Read_def split: sum.splits)
  then have less: "length (concat cs1) < length (concat cs)" by (rule readLine_shorter)
  have "length (concat cs') \<le> length (concat cs1)"
    using assms rl
    by (fastforce simp: Reader_Read_def split: sum.splits if_splits option.splits
        dest: read_headers_le read_body_le ReadByte_le ReadBytes_le)
  with less show ?thesis by simp
qed

subsection \<open>The runs do not matter\<close>

text \<open>\<open>flat\<close> forgets how the rest of the stream is cut.\<close>

definition flat :: "'e + ('a \<times> stream) \<Rightarrow> 'e + ('a \<times> bytes)" where
  "flat r = map_sum id (map_prod id concat) r"

definition flat_opt :: "('a \<times> stream) option \<Rightarrow> ('a \<times> bytes) option" where
  "flat_opt r = map_option (map_prod id concat) r"

lemma flat_simps [simp]:
  "flat (Inl err) = Inl err" "flat (Inr (x, cs)) = Inr (x, concat cs)"
  by (simp_all add: flat_def)

lemma flat_opt_simps [simp]: "flat_opt None = None" "flat_opt (Some (x, cs)) = Some (x, concat cs)"
  by (simp_all add: flat_opt_def)

lemma flat_cases:
  assumes "flat r = flat r'"
  obtains (err) err where "r = Inl err" "r' = Inl err"
    | (ok) x cs cs' where "r = Inr (x, cs)" "r' = Inr (x, cs')" "concat cs = concat cs'"
proof (cases r)
  case (Inl a)
  with assms show ?thesis by (cases r') (auto simp: flat_def intro: err)
next
  case (Inr b)
  with assms show ?thesis by (cases r'; cases b) (auto simp: flat_def intro: ok)
qed

lemma flat_opt_cases:
  assumes "flat_opt r = flat_opt r'"
  obtains (none) "r = None" "r' = None"
    | (some) x cs cs' where "r = Some (x, cs)" "r' = Some (x, cs')" "concat cs = concat cs'"
  using assms by (cases r; cases r') (auto simp: flat_opt_def)

lemma ReadBytes_flat_opt:
  "flat_opt (ReadBytes d acc cs) =
     (if d \<in> set (concat cs)
      then Some (acc @ takeWhile (\<lambda>b. b \<noteq> d) (concat cs) @ [d], tl (dropWhile (\<lambda>b. b \<noteq> d) (concat cs)))
      else None)"
proof (cases "ReadBytes d acc cs")
  case None
  with ReadBytes_flat(1) [of d acc cs] show ?thesis by simp
next
  case (Some r)
  then obtain l cs' where "ReadBytes d acc cs = Some (l, cs')" by (cases r) auto
  with ReadBytes_flat(2) [OF this] show ?thesis by simp
qed

lemma ReadByte_flat_opt:
  "flat_opt (ReadByte cs) = (case concat cs of [] \<Rightarrow> None | b # r \<Rightarrow> Some (b, r))"
  by (induction cs rule: ReadByte.induct) auto

lemma read_body_flat_opt:
  "flat_opt (read_body need acc cs) =
     (if need \<le> length (concat cs) then Some (acc @ take need (concat cs), drop need (concat cs)) else None)"
proof (induction need acc cs rule: read_body.induct)
  case (1 need acc cs)
  show ?case
  proof (cases "need = 0")
    case True
    then show ?thesis by (simp add: read_body.simps)
  next
    case need: False
    show ?thesis
    proof (cases cs)
      case Nil
      with need show ?thesis by (simp add: read_body.simps)
    next
      case (Cons c rest)
      with need have step: "read_body need acc cs =
          read_body (need - min need (length c)) (acc @ take (min need (length c)) c)
            (if min need (length c) = length c then rest else drop (min need (length c)) c # rest)"
        by (simp add: read_body.simps [of need] Let_def)
      show ?thesis
        unfolding step using "1.IH" [OF need Cons refl] Cons
        by (cases "length c \<le> need") (auto simp: min_def)
    qed
  qed
qed

lemma readLine_flat: "concat cs = concat ds \<Longrightarrow> flat (readLine e cs) = flat (readLine e ds)"
proof -
  assume "concat cs = concat ds"
  then have "flat_opt (ReadBytes newline [] cs) = flat_opt (ReadBytes newline [] ds)"
    by (simp add: ReadBytes_flat_opt)
  then show ?thesis by (cases rule: flat_opt_cases) (simp_all add: readLine_def)
qed

lemma read_headers_flat:
  "concat cs = concat ds \<Longrightarrow> flat (read_headers e h cs) = flat (read_headers e h ds)"
proof (induction e h cs arbitrary: ds rule: read_headers.induct)
  case (1 e h cs)
  from readLine_flat [OF "1.prems", of e] show ?case
  proof (cases rule: flat_cases)
    case (err err)
    then show ?thesis by (simp add: read_headers.simps [of e h])
  next
    case (ok line cs1 cs2)
    show ?thesis
    proof (cases "line = [] \<or> IndexByte line colon = None \<or> IndexByte line colon = Some 0")
      case True
      with ok show ?thesis by (auto simp: read_headers.simps [of e h])
    next
      case False
      then obtain i where i: "line \<noteq> []" "IndexByte line colon = Some i" "i \<noteq> 0" by auto
      have "flat (read_headers e (Header_Add h (unencode_loop (take i line)) (unencode_loop (drop (i + 1) line))) cs1) =
            flat (read_headers e (Header_Add h (unencode_loop (take i line)) (unencode_loop (drop (i + 1) line))) cs2)"
        by (rule "1.IH" [OF ok(1) refl i(1) i(2) i(3) _ _ ok(3)]) (simp_all add: unencodeValue_def)
      with ok i show ?thesis by (simp add: read_headers.simps [of e h] unencodeValue_def)
    qed
  qed
qed

lemma Read_flat:
  assumes "concat cs = concat ds"
  shows "flat (Reader_Read e cs) = flat (Reader_Read e ds)"
proof -
  from readLine_flat [OF assms, of e] show ?thesis
  proof (cases rule: flat_cases)
    case (err err)
    then show ?thesis by (simp add: Reader_Read_def)
  next
    case (ok cmd cs1 ds1)
    note line = ok
    from read_headers_flat [OF ok(3), of e empty_header] show ?thesis
    proof (cases rule: flat_cases)
      case (err err)
      with line show ?thesis by (simp add: Reader_Read_def)
    next
      case (ok h cs2 ds2)
      note hdr = ok
      have b: "flat_opt (read_body n [] cs2) = flat_opt (read_body n [] ds2)" for n
        by (simp add: read_body_flat_opt ok(3))
      have z: "flat_opt (ReadBytes nullByte [] cs2) = flat_opt (ReadBytes nullByte [] ds2)"
        by (simp add: ReadBytes_flat_opt ok(3))
      show ?thesis
      proof (cases "Header_ContentLength h")
        case (Inl err)
        with line hdr show ?thesis by (simp add: Reader_Read_def)
      next
        case (Inr lo)
        show ?thesis
        proof (cases lo)
          case None
          from z show ?thesis
            by (cases rule: flat_opt_cases) (use line hdr Inr None in \<open>simp_all add: Reader_Read_def\<close>)
        next
          case (Some n)
          from b [of n] show ?thesis
          proof (cases rule: flat_opt_cases)
            case none
            with line hdr Inr Some show ?thesis by (simp add: Reader_Read_def)
          next
            case (some body cs3 ds3)
            then have "flat_opt (ReadByte cs3) = flat_opt (ReadByte ds3)"
              by (simp add: ReadByte_flat_opt)
            then show ?thesis
              by (cases rule: flat_opt_cases)
                 (use line hdr Inr Some some in \<open>simp_all add: Reader_Read_def\<close>)
          qed
        qed
      qed
    qed
  qed
qed

subsection \<open>Reading what was written\<close>

lemma HasSuffix_crlf: "HasSuffix (l @ [newline]) [cr, newline] \<longleftrightarrow> l \<noteq> [] \<and> last l = cr"
  by (cases l rule: rev_cases) (auto simp: HasSuffix_def)

lemma HasSuffix_lf: "HasSuffix (l @ [newline]) [newline]"
  by (simp add: HasSuffix_def)

lemma takeWhile_delim: "d \<notin> set l \<Longrightarrow> takeWhile (\<lambda>b. b \<noteq> d) (l @ d # r) = l"
  by (simp add: takeWhile_append)

lemma dropWhile_delim: "d \<notin> set l \<Longrightarrow> dropWhile (\<lambda>b. b \<noteq> d) (l @ d # r) = d # r"
  by (simp add: dropWhile_append)

lemma readLine_line:
  assumes "newline \<notin> set l" and "cr \<notin> set l"
  shows "readLine e [l @ newline # r] = Inr (l, [r])"
proof -
  have "\<not> HasSuffix (l @ [newline]) [cr, newline]"
    using assms(2) by (metis HasSuffix_crlf last_in_set)
  with assms(1) show ?thesis
    by (simp add: readLine_def takeWhile_delim dropWhile_delim HasSuffix_lf)
qed

lemma IndexByte_colon: "colon \<notin> set l \<Longrightarrow> IndexByte (l @ colon # r) colon = Some (length l)"
  by (induction l) auto

lemma concat_header_pieces_Cons:
  "concat (header_pieces ((k, v) # kvs)) =
     (encodeValue k @ colon # encodeValue v) @ newline # concat (header_pieces kvs)"
  by (simp add: header_pieces_def)

lemma read_headers_written:
  "\<forall>(k, v) \<in> set kvs. k \<noteq> [] \<Longrightarrow>
     read_headers e h [concat (header_pieces kvs) @ newline # r] = Inr (h\<lparr>slice := slice h @ unpairs kvs\<rparr>, [r])"
proof (induction kvs arbitrary: h)
  case Nil
  then show ?case
    using readLine_line [of "[]" e r] by (simp add: read_headers.simps [of e h] header_pieces_def)
next
  case (Cons kv kvs)
  obtain k v where kv: "kv = (k, v)" by fastforce
  let ?l = "encodeValue k @ colon # encodeValue v"
  have "readLine e [?l @ newline # concat (header_pieces kvs) @ newline # r] =
      Inr (?l, [concat (header_pieces kvs) @ newline # r])"
    by (rule readLine_line) simp_all
  then have line: "readLine e [concat (header_pieces (kv # kvs)) @ newline # r] =
      Inr (?l, [concat (header_pieces kvs) @ newline # r])"
    by (simp only: kv concat_header_pieces_Cons append.assoc append_Cons)
  from Cons.prems kv have "k \<noteq> []" by simp
  then have "read_headers e h [concat (header_pieces (kv # kvs)) @ newline # r] =
      read_headers e (Header_Add h k v) [concat (header_pieces kvs) @ newline # r]"
    by (simp add: read_headers.simps [of e h] line IndexByte_colon unencodeValue_def)
  also have "\<dots> = Inr ((Header_Add h k v)\<lparr>slice := slice (Header_Add h k v) @ unpairs kvs\<rparr>, [r])"
    using Cons by simp
  finally show ?case by (simp add: kv Header_Add_def)
qed

text \<open>
  The frames that survive the wire: a command of the protocol, no empty header name, and a
  body the reader can delimit, that is either a \<open>content-length\<close> entry with the right value
  or no such entry and no null byte in the body.
\<close>

definition writable :: "Frame option \<Rightarrow> bool" where
  "writable fo =
     (case fo of
        None \<Rightarrow> True
      | Some f \<Rightarrow>
          valid_command (Command f) \<and> header_ok (Hdr f) \<and>
          list_all (\<lambda>(k, v). k \<noteq> []) (entries (Hdr f)) \<and>
          (case Header_ContentLength (Hdr f) of
             Inl err \<Rightarrow> False
           | Inr None \<Rightarrow> nullByte \<notin> set (Body f)
           | Inr (Some n) \<Rightarrow> n = length (Body f)))"

lemma valid_command_clean:
  "valid_command c \<Longrightarrow> c \<noteq> [] \<and> newline \<notin> set c \<and> cr \<notin> set c"
  by (auto simp: valid_command_def)

lemma frame_bytes_Some:
  "frame_bytes (Some f) =
     Command f @ newline # concat (header_pieces (entries (Hdr f))) @ newline # Body f @ [nullByte]"
  by (simp add: frame_bytes_def frame_pieces_def)

lemma Read_written_one:
  assumes "writable fo"
  shows "flat (Reader_Read e [frame_bytes fo @ r]) = Inr (fo, r)"
proof (cases fo)
  case None
  then show ?thesis
    using readLine_line [of "[]" e r] by (simp add: Reader_Read_def frame_bytes_def frame_pieces_def)
next
  case (Some f)
  let ?rest = "concat (header_pieces (entries (Hdr f))) @ newline # Body f @ nullByte # r"
  from assms Some have cmd: "valid_command (Command f)" and ok: "header_ok (Hdr f)"
    and keys: "\<forall>(k, v) \<in> set (entries (Hdr f)). k \<noteq> []"
    by (simp_all add: writable_def list_all_iff)
  have line: "readLine e [frame_bytes fo @ r] = Inr (Command f, [?rest])"
    using readLine_line [of "Command f" e ?rest] valid_command_clean [OF cmd]
    by (simp add: Some frame_bytes_Some)
  from ok have "empty_header\<lparr>slice := slice empty_header @ unpairs (entries (Hdr f))\<rparr> = Hdr f"
    by (simp add: empty_header_def entries_def header_ok_def unpairs_pairs)
  with read_headers_written [OF keys, of e empty_header "Body f @ nullByte # r"]
  have hdrs: "read_headers e empty_header [?rest] = Inr (Hdr f, [Body f @ nullByte # r])" by simp
  note start = Reader_Read_def line [unfolded Some] hdrs cmd valid_command_clean [OF cmd]
  show ?thesis
  proof (cases "Header_ContentLength (Hdr f)")
    case (Inl err)
    with assms Some show ?thesis by (simp add: writable_def)
  next
    case (Inr lo)
    show ?thesis
    proof (cases lo)
      case None
      with assms Some Inr have "nullByte \<notin> set (Body f)" by (simp add: writable_def)
      with Some Inr None show ?thesis
        by (simp add: start takeWhile_delim dropWhile_delim)
    next
      case len: (Some n)
      with assms Some Inr have n: "n = length (Body f)" by (simp add: writable_def)
      have "flat_opt (read_body n [] [Body f @ nullByte # r]) = Some (Body f, nullByte # r)"
        by (simp add: read_body_flat_opt n)
      then obtain cs3 where cs3: "read_body n [] [Body f @ nullByte # r] = Some (Body f, cs3)"
        "concat cs3 = nullByte # r"
        by (auto simp: flat_opt_def)
      then have "flat_opt (ReadByte cs3) = Some (nullByte, r)" by (simp add: ReadByte_flat_opt)
      then obtain cs4 where "ReadByte cs3 = Some (nullByte, cs4)" "concat cs4 = r"
        by (auto simp: flat_opt_def)
      with Some Inr len cs3 show ?thesis by (simp add: start)
    qed
  qed
qed

lemma Read_written:
  assumes "writable fo" and "concat cs = frame_bytes fo @ r"
  shows "flat (Reader_Read e cs) = Inr (fo, r)"
  using Read_flat [of cs "[frame_bytes fo @ r]" e] Read_written_one [OF assms(1), of e r] assms(2) by simp

text \<open>
  The contract between the two ends of a connection: whatever one end encodes, the other
  decodes, and the decoder stops exactly where the next item starts.
\<close>

fun decode_many :: "(stream \<Rightarrow> 'e + ('a \<times> stream)) \<Rightarrow> nat \<Rightarrow> stream \<Rightarrow> 'e + ('a list \<times> stream)" where
  "decode_many dec 0 cs = Inr ([], cs)"
| "decode_many dec (Suc n) cs =
     (case dec cs of
        Inl err \<Rightarrow> Inl err
      | Inr (x, cs') \<Rightarrow>
          (case decode_many dec n cs' of
             Inl err \<Rightarrow> Inl err
           | Inr (xs, cs'') \<Rightarrow> Inr (x # xs, cs'')))"

locale stream_codec =
  fixes enc :: "'a \<Rightarrow> bytes"
    and dec :: "stream \<Rightarrow> 'e + ('a \<times> stream)"
    and ok :: "'a \<Rightarrow> bool"
  assumes dec_enc: "ok x \<Longrightarrow> concat cs = enc x @ r \<Longrightarrow> flat (dec cs) = Inr (x, r)"
begin

lemma decode_all:
  "list_all ok xs \<Longrightarrow> concat cs = concat (map enc xs) @ r \<Longrightarrow>
     flat (decode_many dec (length xs) cs) = Inr (xs, r)"
proof (induction xs arbitrary: cs)
  case Nil
  then show ?case by simp
next
  case (Cons x xs)
  then have "flat (dec cs) = Inr (x, concat (map enc xs) @ r)" by (intro dec_enc) auto
  then obtain cs' where cs': "dec cs = Inr (x, cs')" "concat cs' = concat (map enc xs) @ r"
    by (auto simp: flat_def map_sum_def split: sum.splits)
  with Cons have "flat (decode_many dec (length xs) cs') = Inr (xs, r)" by simp
  with cs' show ?case by (auto simp: flat_def map_sum_def split: sum.splits)
qed

end

interpretation frame_codec: stream_codec frame_bytes "Reader_Read e" writable for e
  by unfold_locales (rule Read_written)

subsection \<open>Properties of the codec\<close>

text \<open>
  Header names and values survive the STOMP value encoding, and an encoded text
  contains none of the bytes that structure a header line (carriage return, line feed, colon).
\<close>

theorem value_encoding_roundtrip:
  "unencodeValue (encodeValue s) = Inr s \<and> set (encodeValue s) \<inter> {cr, newline, colon} = {}"
  by (simp add: unencodeValue_def encode_reserved)

lemma writer_output_facts:
  assumes "w_err w = None" and "w_buf w = []" and "Writer_Write fo w = (e, w')"
  shows "(e = None) = (case w_room w of None \<Rightarrow> True | Some r \<Rightarrow> length (frame_bytes fo) \<le> r)"
    and "e = None \<Longrightarrow> w_out w' = w_out w @ frame_bytes fo \<and> w_buf w' = []"
    and "e \<noteq> None \<Longrightarrow> w_out w' = w_out w @ take (the (w_room w)) (frame_bytes fo)"
proof -
  have a: "accepts w w' (frame_bytes fo)" "w_err w' = e" "e = None \<Longrightarrow> w_buf w' = []"
    using write_pieces_accepts [OF assms(1), of "frame_pieces fo" e w'] assms(3)
    by (auto simp: Writer_Write_def frame_bytes_def)
  show ok: "w_out w' = w_out w @ frame_bytes fo \<and> w_buf w' = []" if "e = None"
    using a that assms(2) by (simp add: accepts_def)
  have bad: "\<exists>r x. w_room w = Some r \<and> x \<noteq> [] \<and> length (w_out w') = length (w_out w) + r \<and>
      w_out w' @ x = w_out w @ frame_bytes fo" if "e \<noteq> None"
    using a(1,2) that assms(2) by (auto simp: accepts_def room_used_def split: option.splits)
  show "(e = None) = (case w_room w of None \<Rightarrow> True | Some r \<Rightarrow> length (frame_bytes fo) \<le> r)"
  proof (cases "e = None")
    case True
    with a ok show ?thesis by (auto simp: accepts_def room_used_def split: option.splits)
  next
    case False
    with bad obtain r x where "w_room w = Some r" "x \<noteq> []"
      and len: "length (w_out w') = length (w_out w) + r" "w_out w' @ x = w_out w @ frame_bytes fo" by blast
    moreover from arg_cong [OF len(2), of length] have "r < length (frame_bytes fo)"
      using len(1) \<open>x \<noteq> []\<close> by (cases x) auto
    ultimately show ?thesis using False by simp
  qed
  show "w_out w' = w_out w @ take (the (w_room w)) (frame_bytes fo)" if "e \<noteq> None"
  proof -
    from bad [OF that] obtain r x where r: "w_room w = Some r"
      and len: "length (w_out w') = length (w_out w) + r" "w_out w' @ x = w_out w @ frame_bytes fo" by blast
    from arg_cong [OF len(2), of "take (length (w_out w'))"] len(1) r show ?thesis by simp
  qed
qed

text \<open>
  Property C36. \<open>Writer.Write\<close> over a writer with an empty buffer, for every buffer size: it
  returns nil exactly when the connection has room for the whole text of the frame, and then
  the connection has received that text and nothing stays in the buffer; otherwise it returns
  an error and the connection has received a proper prefix of the text, as long as its room.
\<close>

theorem writer_output:
  assumes "w_err w = None" and "w_buf w = []" and "Writer_Write fo w = (e, w')"
  shows "if (case w_room w of None \<Rightarrow> True | Some r \<Rightarrow> length (frame_bytes fo) \<le> r)
    then e = None \<and> w_out w' = w_out w @ frame_bytes fo \<and> w_buf w' = []
    else e \<noteq> None \<and> w_out w' = w_out w @ take (the (w_room w)) (frame_bytes fo)"
  using writer_output_facts [OF assms] by auto

theorem writer_output_witness:
  "w_out (snd (Writer_Write None (NewWriter None ErrEOF))) = [newline] \<and>
   fst (Writer_Write (Some (mk_frame SEND [])) (NewWriterSize 2 (Some 3) ErrEOF)) \<noteq> None"
proof -
  obtain e w' where w: "Writer_Write None (NewWriter None ErrEOF) = (e, w')" by fastforce
  have "e = None \<and> w_out w' = [newline]"
    using writer_output [OF _ _ w]
    by (simp add: NewWriter_def NewWriterSize_def frame_bytes_def frame_pieces_def)
  moreover obtain e2 w2 where
    w2: "Writer_Write (Some (mk_frame SEND [])) (NewWriterSize 2 (Some 3) ErrEOF) = (e2, w2)" by fastforce
  have "e2 \<noteq> None"
    using writer_output [OF _ _ w2]
    by (simp add: NewWriterSize_def frame_bytes_Some header_pieces_def)
  ultimately show ?thesis using w w2 by simp
qed

text \<open>
  Property C37. What \<open>Reader.Read\<close> returns does not depend on how the network cuts the stream
  into reads: it is what it returns on the same bytes in one piece, error or frame, and it
  leaves the same bytes for the next call.
\<close>

theorem reader_segmentation:
  "flat (Reader_Read e cs) = flat (Reader_Read e [concat cs])"
  by (rule Read_flat) simp

text \<open>
  Property C1. Wire round trip of a whole connection: whatever frames and heart-beats are
  written, one after the other, the reader returns exactly them, in order, for every
  segmentation of the stream and with the following bytes untouched.
\<close>

theorem wire_roundtrip:
  assumes "list_all writable fos" and "concat cs = concat (map frame_bytes fos) @ r"
  shows "flat (decode_many (Reader_Read e) (length fos) cs) = Inr (fos, r)"
  using assms by (rule frame_codec.decode_all)

theorem wire_roundtrip_witness:
  "flat (decode_many (Reader_Read ErrEOF) 3
     (map (\<lambda>b. [b])
       (concat (map frame_bytes
          [Some ((mk_frame SEND [(''destination'', ''/queue/a''), (''k:1'', ''v'')])\<lparr>Body := ''hello''\<rparr>), None,
           Some ((mk_frame MESSAGE [(''content-length'', ''2'')])\<lparr>Body := [CHR 0x00, CHR ''x'']\<rparr>)]) @ ''tail''))) =
   Inr ([Some ((mk_frame SEND [(''destination'', ''/queue/a''), (''k:1'', ''v'')])\<lparr>Body := ''hello''\<rparr>), None,
         Some ((mk_frame MESSAGE [(''content-length'', ''2'')])\<lparr>Body := [CHR 0x00, CHR ''x'']\<rparr>)], ''tail'')"
proof -
  let ?fos = "[Some ((mk_frame SEND [(''destination'', ''/queue/a''), (''k:1'', ''v'')])\<lparr>Body := ''hello''\<rparr>), None,
         Some ((mk_frame MESSAGE [(''content-length'', ''2'')])\<lparr>Body := [CHR 0x00, CHR ''x'']\<rparr>)]"
  have ok: "list_all writable ?fos"
    by (simp add: writable_def valid_command_def Header_ContentLength_def ParseUint_def is_digit_def
        digit_val_def)
  have one: "concat (map (\<lambda>b. [b]) bs) = bs" for bs :: bytes by (induction bs) auto
  have len: "length ?fos = 3" by simp
  show ?thesis
    using wire_roundtrip [OF ok one [of "concat (map frame_bytes ?fos) @ ''tail''"], of ErrEOF]
    unfolding len .
qed

lemma unencode_nonempty: "s \<noteq> [] \<Longrightarrow> unencode_loop s \<noteq> []"
  by (cases s rule: unencode_loop.cases) auto

lemma read_headers_ok:
  "read_headers e h cs = Inr (h', cs') \<Longrightarrow> header_ok h \<Longrightarrow> list_all (\<lambda>(k, v). k \<noteq> []) (entries h) \<Longrightarrow>
     header_ok h' \<and> list_all (\<lambda>(k, v). k \<noteq> []) (entries h')"
proof (induction e h cs rule: read_headers.induct)
  case (1 e h cs)
  from "1.prems"(1) obtain line cs1 where line: "readLine e cs = Inr (line, cs1)"
    by (auto simp: read_headers.simps [of e h] split: sum.splits)
  show ?case
  proof (cases "line = []")
    case True
    with "1.prems" line show ?thesis by (simp add: read_headers.simps [of e h])
  next
    case False
    with "1.prems"(1) line obtain i where i: "IndexByte line colon = Some i" "i \<noteq> 0"
      by (auto simp: read_headers.simps [of e h] split: option.splits if_splits)
    let ?h = "Header_Add h (unencode_loop (take i line)) (unencode_loop (drop (i + 1) line))"
    from "1.prems"(1) line False i have "read_headers e ?h cs1 = Inr (h', cs')"
      by (simp add: read_headers.simps [of e h] unencodeValue_def)
    moreover have "header_ok ?h" "list_all (\<lambda>(k, v). k \<noteq> []) (entries ?h)"
      using "1.prems"(2,3) i(2) False by (simp_all add: Add_entries unencode_nonempty)
    ultimately show ?thesis
      using "1.IH" [OF line refl False i, of "unencode_loop (take i line)" "unencode_loop (drop (i + 1) line)"]
      by (simp add: unencodeValue_def)
  qed
qed

text \<open>
  Everything \<open>Reader.Read\<close> returns is well formed, whatever bytes arrive: the
  command is one of the protocol's, the header slice has even length and no empty name, and
  the body matches the \<open>content-length\<close> entry, or has no null byte when there is none. So a
  frame that was read can be written and read again without change.
\<close>

theorem reader_output_writable:
  assumes "Reader_Read e cs = Inr (fo, cs')"
  shows "writable fo"
proof (cases fo)
  case None
  then show ?thesis by (simp add: writable_def)
next
  case (Some f)
  obtain c h b where f: "f = \<lparr>Command = c, Hdr = h, Body = b\<rparr>" by (cases f)
  note read = assms [unfolded Some f]
  from read obtain cs1 where line: "readLine e cs = Inr (c, cs1)" "valid_command c"
    by (auto simp: Reader_Read_def split: sum.splits option.splits if_splits)
  from read line obtain cs2 where hdrs: "read_headers e empty_header cs1 = Inr (h, cs2)"
    by (auto simp: Reader_Read_def split: sum.splits option.splits if_splits)
  from read_headers_ok [OF hdrs] have ok: "header_ok h" "list_all (\<lambda>(k, v). k \<noteq> []) (entries h)"
    by simp_all
  note start = Reader_Read_def line valid_command_clean [OF line(2)] hdrs
  show ?thesis
  proof (cases "Header_ContentLength h")
    case (Inl err)
    with read start show ?thesis by simp
  next
    case (Inr lo)
    show ?thesis
    proof (cases lo)
      case None
      with read Inr obtain t where t: "ReadBytes nullByte [] cs2 = Some (t, cs')" "b = take (length t - 1) t"
        by (auto simp: start split: option.splits)
      from ReadBytes_flat(2) [OF t(1)] t(2) have "b = takeWhile (\<lambda>b. b \<noteq> nullByte) (concat cs2)" by simp
      then have "nullByte \<notin> set b" using set_takeWhileD by fastforce
      with Some f ok line(2) Inr None show ?thesis by (simp add: writable_def)
    next
      case len: (Some n)
      with read Inr obtain cs3 where t: "read_body n [] cs2 = Some (b, cs3)"
        by (auto simp: start split: option.splits if_splits)
      from read_body_flat_opt [of n "[]" cs2] t have "length b = n" by (auto split: if_splits)
      with Some f ok line(2) Inr len show ?thesis by (simp add: writable_def)
    qed
  qed
qed

theorem reader_output_writable_witness:
  "writable (Some (mk_frame CONNECT [(''host'', ''a'')]))"
proof -
  let ?f = "Some (mk_frame CONNECT [(''host'', ''a'')])"
  have ok: "writable ?f" by code_simp
  then obtain cs' where "Reader_Read ErrEOF [frame_bytes ?f] = Inr (?f, cs')"
    using Read_written [OF ok, of "[frame_bytes ?f]" "[]" ErrEOF]
    by (auto simp: flat_def map_sum_def split: sum.splits)
  then show ?thesis by (rule reader_output_writable)
qed

end
