(* ===== verification/Frame_Heartbeat.thy ===== *)
theory Frame_Heartbeat
  imports Frame_Codec
begin

section \<open>Heart-beat values: frame/heartbeat.go\<close>

text \<open>
  \<open>ParseHeartBeat\<close>, which the client applies to the heart-beat entry of a \<open>CONNECTED\<close>
  frame. The product of the milliseconds with \<open>time.Millisecond\<close> is a 64-bit multiplication;
  the model wraps it around, and \<open>parse_heart_beat_spec\<close> shows that the guard against
  \<open>maxMilliseconds\<close> makes the wrap-around impossible.
\<close>

definition heartBeatRegexp :: "string \<Rightarrow> bool" where
  "heartBeatRegexp s = match_two_numbers (\<lambda>n. True) s"

definition maxMilliseconds :: int where
  "maxMilliseconds = (2 ^ 63 - 1) div Millisecond"

definition ParseHeartBeat :: "string \<Rightarrow> go_error + (duration \<times> duration)" where
  "ParseHeartBeat heartBeat =
     (if \<not> heartBeatRegexp heartBeat then Inl ErrInvalidHeartBeat
      else case Split heartBeat (CHR '','') of
             v1 # v2 # _ \<Rightarrow>
               (case ParseInt64 v1 of
                  Inl e \<Rightarrow> Inl ErrInvalidHeartBeat
                | Inr value1 \<Rightarrow>
                    (case ParseInt64 v2 of
                       Inl e \<Rightarrow> Inl ErrInvalidHeartBeat
                     | Inr value2 \<Rightarrow>
                         if value1 > maxMilliseconds \<or> value2 > maxMilliseconds
                         then Inl ErrInvalidHeartBeat
                         else Inr (int64 (value1 * Millisecond), int64 (value2 * Millisecond))))
           | _ \<Rightarrow> Inl ErrInvalidHeartBeat)"

lemma milliseconds_fit:
  "0 \<le> v \<Longrightarrow> v \<le> maxMilliseconds \<Longrightarrow> int64 (v * Millisecond) = v * Millisecond"
  by (rule int64_id) (auto simp: maxMilliseconds_def)

lemma ParseHeartBeat_two_numbers:
  assumes "two_numbers (\<lambda>n. True) s a b"
  shows "ParseHeartBeat s =
    (if int (dec_val a) \<le> maxMilliseconds \<and> int (dec_val b) \<le> maxMilliseconds
     then Inr (int (dec_val a) * Millisecond, int (dec_val b) * Millisecond)
     else Inl ErrInvalidHeartBeat)"
proof -
  from assms have "heartBeatRegexp s"
    by (auto simp: heartBeatRegexp_def match_two_numbers_iff)
  moreover from assms have "a \<noteq> []" "b \<noteq> []" "\<forall>c \<in> set a. is_digit c" "\<forall>c \<in> set b. is_digit c"
    by (auto simp: two_numbers_def list_all_iff)
  moreover have "dec_val x < 2 ^ 63" if "int (dec_val x) \<le> maxMilliseconds" for x
    using that by (simp add: maxMilliseconds_def)
  ultimately show ?thesis
    using two_numbers_Split [OF assms] milliseconds_fit
    by (auto simp: ParseHeartBeat_def ParseInt64_digits)
qed

text \<open>
  Property C40. \<open>ParseHeartBeat\<close> accepts exactly two non-empty decimal numbers separated by
  one comma, neither greater than the largest number of milliseconds a \<open>time.Duration\<close>
  holds; it then returns both as durations, in nanoseconds, without overflow. Everything
  else is \<open>ErrInvalidHeartBeat\<close>.
\<close>

theorem parse_heart_beat_spec:
  "(ParseHeartBeat s = Inr (x, y) \<longleftrightarrow>
      (\<exists>a b. s = a @ CHR '','' # b \<and> a \<noteq> [] \<and> b \<noteq> [] \<and> list_all is_digit a \<and> list_all is_digit b \<and>
         int (dec_val a) \<le> maxMilliseconds \<and> int (dec_val b) \<le> maxMilliseconds \<and>
         x = int (dec_val a) * Millisecond \<and> y = int (dec_val b) * Millisecond \<and>
         0 \<le> x \<and> x < 2 ^ 63 \<and> 0 \<le> y \<and> y < 2 ^ 63)) \<and>
   ParseHeartBeat s \<in> insert (Inl ErrInvalidHeartBeat) (range Inr)"
    (is "(_ \<longleftrightarrow> (\<exists>a b. ?P a b)) \<and> _")
proof (cases "heartBeatRegexp s")
  case False
  then have err: "ParseHeartBeat s = Inl ErrInvalidHeartBeat" by (simp add: ParseHeartBeat_def)
  from False have "\<not> two_numbers (\<lambda>n. True) s a b" for a b
    by (auto simp: heartBeatRegexp_def match_two_numbers_iff)
  then have "\<not> ?P a b" for a b unfolding two_numbers_def by blast
  with err show ?thesis by simp
next
  case True
  then obtain a b where t: "two_numbers (\<lambda>n. True) s a b"
    by (auto simp: heartBeatRegexp_def match_two_numbers_iff)
  note val = ParseHeartBeat_two_numbers [OF t]
  have rng: "int (dec_val v) * Millisecond < 2 ^ 63" if "int (dec_val v) \<le> maxMilliseconds" for v
    using that by (simp add: maxMilliseconds_def)
  have "ParseHeartBeat s = Inr (x, y) \<longleftrightarrow> ?P a b"
  proof
    assume "ParseHeartBeat s = Inr (x, y)"
    with val t rng [of a] rng [of b] show "?P a b"
      unfolding two_numbers_def by (simp split: if_split_asm)
  next
    assume "?P a b"
    with val show "ParseHeartBeat s = Inr (x, y)" by auto
  qed
  moreover have "?P a' b' \<Longrightarrow> a' = a \<and> b' = b" for a' b'
    using two_numbers_Split [OF t] two_numbers_Split [of "\<lambda>n. True" s a' b']
    unfolding two_numbers_def by simp
  ultimately show ?thesis using val by auto
qed

text \<open>
  What the server's \<open>fmt.Sprintf("%d,%d", \<dots>)\<close> prints for two millisecond values
  in range, the client parses back to the same durations.
\<close>

theorem heart_beat_roundtrip:
  assumes "int m \<le> maxMilliseconds" and "int n \<le> maxMilliseconds"
  shows "ParseHeartBeat (FormatUint m @ CHR '','' # FormatUint n) =
    Inr (int m * Millisecond, int n * Millisecond)"
proof -
  have "two_numbers (\<lambda>n. True) (FormatUint m @ CHR '','' # FormatUint n) (FormatUint m) (FormatUint n)"
    using FormatUint_digits by (simp add: two_numbers_def list_all_iff)
  from ParseHeartBeat_two_numbers [OF this] assms show ?thesis by simp
qed

theorem heart_beat_roundtrip_witness:
  "ParseHeartBeat ''60000,0'' = Inr (60000000000, 0)"
proof -
  have "FormatUint 60000 = ''60000''" "FormatUint 0 = ''0''"
    by (simp_all add: FormatUint.simps)
  moreover have "int 60000 \<le> maxMilliseconds" "int 0 \<le> maxMilliseconds"
    by (simp_all add: maxMilliseconds_def)
  ultimately show ?thesis using heart_beat_roundtrip [of 60000 0] by simp
qed

end
