(* ===== verification/Stomp_Core.thy ===== *)
theory Stomp_Core
  imports Frame_Heartbeat
begin

section \<open>Versions, acknowledgement modes, errors, identifiers: the package stomp\<close>

text \<open>
  The small types of the root package that both the server and the client use:
  \<open>version.go\<close>, \<open>ack.go\<close>, \<open>errors.go\<close>, \<open>id.go\<close> and \<open>validator.go\<close>.
\<close>

subsection \<open>Versions\<close>

abbreviation V10 :: string where "V10 \<equiv> ''1.0''"
abbreviation V11 :: string where "V11 \<equiv> ''1.1''"
abbreviation V12 :: string where "V12 \<equiv> ''1.2''"

subsection \<open>Errors of the client library\<close>

text \<open>\<open>stomp.Error\<close>: a message and, when the server sent one, the frame.\<close>

record Error =
  ErrMessage :: string
  ErrFrame :: "Frame option"

definition newErrorMessage :: "string \<Rightarrow> Error" where
  "newErrorMessage msg = \<lparr>ErrMessage = msg, ErrFrame = None\<rparr>"

definition stomp_missingHeader :: "string \<Rightarrow> Error" where
  "stomp_missingHeader name = newErrorMessage (''missing header: '' @ name)"

definition newError :: "Frame \<Rightarrow> Error" where
  "newError f =
     \<lparr>ErrMessage =
        (if Command f = ERROR
         then (if Header_Get (Hdr f) MessageHdr \<noteq> [] then Header_Get (Hdr f) MessageHdr
               else ''ERROR frame, missing message header'')
         else ''Unexpected frame: '' @ Command f),
      ErrFrame = Some f\<rparr>"

abbreviation ErrUnsupportedVersion :: Error where
  "ErrUnsupportedVersion \<equiv> newErrorMessage ''unsupported version''"

text \<open>
  \<open>err.Error()\<close>. The text of a \<open>strconv.NumError\<close> quotes its input with \<open>strconv.Quote\<close>,
  which is a parameter.
\<close>

definition Error_text :: "(string \<Rightarrow> string) \<Rightarrow> go_error \<Rightarrow> string" where
  "Error_text quote err =
     (case err of
        ErrEOF \<Rightarrow> ''EOF''
      | ErrIO msg \<Rightarrow> msg
      | NumError num ErrSyntax \<Rightarrow> ''strconv.ParseUint: parsing '' @ quote num @ '': invalid syntax''
      | NumError num ErrRange \<Rightarrow> ''strconv.ParseUint: parsing '' @ quote num @ '': value out of range''
      | ErrInvalidCommand \<Rightarrow> ''invalid command''
      | ErrInvalidFrameFormat \<Rightarrow> ''invalid frame format''
      | ErrInvalidHeartBeat \<Rightarrow> ''invalid heart-beat''
      | errorMessage msg \<Rightarrow> msg)"

definition CheckSupported :: "string \<Rightarrow> Error option" where
  "CheckSupported v = (if v \<in> {V10, V11, V12} then None else Some ErrUnsupportedVersion)"

definition SupportsNack :: "string \<Rightarrow> bool" where
  "SupportsNack v = (if v = V10 then False else if v \<in> {V11, V12} then True else False)"

subsection \<open>Acknowledgement modes\<close>

text \<open>The values of the \<open>ack\<close> header entry (\<open>frame/ack.go\<close>).\<close>

abbreviation AckAuto :: string where "AckAuto \<equiv> ''auto''"
abbreviation AckClient :: string where "AckClient \<equiv> ''client''"
abbreviation AckClientIndividual :: string where "AckClientIndividual \<equiv> ''client-individual''"

text \<open>\<open>stomp.AckMode\<close> is an \<open>int\<close>; values outside the three constants make its methods panic.\<close>

type_synonym AckMode = int

abbreviation (input) Mode_Auto :: AckMode where "Mode_Auto \<equiv> 0"
abbreviation (input) Mode_Client :: AckMode where "Mode_Client \<equiv> 1"
abbreviation (input) Mode_ClientIndividual :: AckMode where "Mode_ClientIndividual \<equiv> 2"

definition AckMode_String :: "AckMode \<Rightarrow> string go" where
  "AckMode_String a =
     (if a = Mode_Auto then Ret AckAuto
      else if a = Mode_Client then Ret AckClient
      else if a = Mode_ClientIndividual then Ret AckClientIndividual
      else Panic ''invalid AckMode value'')"

definition AckMode_ShouldAck :: "AckMode \<Rightarrow> bool go" where
  "AckMode_ShouldAck a =
     (if a = Mode_Auto then Ret False
      else if a = Mode_Client \<or> a = Mode_ClientIndividual then Ret True
      else Panic ''invalid AckMode value'')"

subsection \<open>Identifiers\<close>

text \<open>
  \<open>allocateId\<close> adds one to a process-wide 64-bit counter and prints it. The model takes the
  counter and returns the new one.
\<close>

definition allocateId :: "64 word \<Rightarrow> string \<times> 64 word" where
  "allocateId lastId = (FormatUint (unat (lastId + 1)), lastId + 1)"

fun allocate_many :: "nat \<Rightarrow> 64 word \<Rightarrow> string list" where
  "allocate_many 0 c = []"
| "allocate_many (Suc n) c = (let (i, c') = allocateId c in i # allocate_many n c')"

lemma allocate_many_nth: "k < n \<Longrightarrow> allocate_many n c ! k = FormatUint (unat (c + of_nat (Suc k)))"
proof (induction n arbitrary: c k)
  case 0
  then show ?case by simp
next
  case (Suc n)
  then show ?case
    by (cases k) (simp_all add: allocateId_def add.assoc)
qed

lemma length_allocate_many [simp]: "length (allocate_many n c) = n"
  by (induction n arbitrary: c) (auto simp: allocateId_def)

lemma allocate_many_distinct:
  assumes "n \<le> 2 ^ 64"
  shows "distinct (allocate_many n c)"
proof -
  have "j = k" if j: "j < n" and k: "k < n" and eq: "allocate_many n c ! j = allocate_many n c ! k" for j k
  proof -
    from eq have "c + of_nat (Suc j) = c + of_nat (Suc k)"
      using FormatUint_inj by (simp only: allocate_many_nth j k) (metis word_unat_eq_iff)
    then have "(of_nat j :: 64 word) = of_nat k" by simp
    moreover have "j < 2 ^ 64" "k < 2 ^ 64" using j k assms by auto
    ultimately show ?thesis by (simp add: word_of_nat_eq_iff take_bit_nat_eq_self)
  qed
  then show ?thesis by (auto simp: distinct_conv_nth)
qed

text \<open>
  Identifiers are unique: any number of successive calls of \<open>allocateId\<close>, up to
  \<open>2^64\<close>, return pairwise different strings, from whatever value the counter starts.
\<close>

theorem allocate_id_distinct:
  assumes "n \<le> 2 ^ 64"
  shows "distinct (allocate_many n c)"
  by (rule allocate_many_distinct [OF assms])

theorem allocate_id_distinct_witness:
  "allocate_many 2 0 = [''1'', ''2''] \<and> distinct (allocate_many 2 0)"
proof -
  have "allocate_many (Suc (Suc 0)) 0 = [''1'', ''2'']"
    by (simp add: allocateId_def FormatUint.simps)
  then have "allocate_many 2 0 = [''1'', ''2'']" by (simp only: numeral_2_eq_2)
  moreover have "distinct (allocate_many 2 0)" by (rule allocate_id_distinct) simp
  ultimately show ?thesis by blast
qed

subsection \<open>Loggers\<close>

text \<open>
  A \<open>Logger\<close> is an interface with the standard one as default; nothing depends on its output, so a logger of the user is only a name.
\<close>

datatype Logger = StdLogger | UserLogger nat

subsection \<open>Validators\<close>

text \<open>
  \<open>stomp.Validator\<close> is an interface; \<open>NewValidator\<close> returns the only implementation, which
  accepts every frame. A connection holds no validator before it has negotiated a version.
\<close>

datatype Validator = validatorNull

definition NewValidator :: "string \<Rightarrow> Validator" where
  "NewValidator version = validatorNull"

definition Validate :: "Validator \<Rightarrow> Frame \<Rightarrow> go_error option" where
  "Validate v f = (case v of validatorNull \<Rightarrow> None)"

end
