(* ===== verification/Client_Prog.thy ===== *)
theory Client_Prog
  imports Stomp_Core
begin

section \<open>Client operations as programs\<close>

text \<open>
  The operations of the client library are called from any number of goroutines, beside the two
  that \<open>Connect\<close> starts and one per subscription. They meet at a mutex, at channels and at a
  condition variable, and they may block at each. Such an operation is translated into a value
  of type \<open>'r prog\<close>: the sequence of its visible actions, with the answer of an action
  passed to the rest, in the order of the Go statements. What an action does to the state the
  goroutines share, and when it blocks, is \<open>fire\<close> below; \<open>solo\<close> runs a program until it
  returns or blocks. Theory \<open>Client_World\<close> interleaves any number of programs.

  A timeout is not measured: whenever an action has one, it may expire instead of completing.
\<close>

subsection \<open>Errors of the client\<close>

text \<open>\<open>error\<close> values that the client returns: its own, those of reader and writer, plain ones.\<close>

datatype client_error = StompErr Error | IOErr go_error | PlainErr string

abbreviation ErrInvalidCommand_stomp :: Error where
  "ErrInvalidCommand_stomp \<equiv> newErrorMessage ''invalid command''"
abbreviation ErrCompletedTransaction :: Error where
  "ErrCompletedTransaction \<equiv> newErrorMessage ''transaction is completed''"
abbreviation ErrNackNotSupported :: Error where
  "ErrNackNotSupported \<equiv> newErrorMessage ''NACK not supported in STOMP 1.0''"
abbreviation ErrNotReceivedMessage :: Error where
  "ErrNotReceivedMessage \<equiv> newErrorMessage ''cannot ack/nack a message, not from server''"
abbreviation ErrCannotNackAutoSub :: Error where
  "ErrCannotNackAutoSub \<equiv> newErrorMessage ''cannot send NACK for a subscription with ack:auto''"
abbreviation ErrCompletedSubscription :: Error where
  "ErrCompletedSubscription \<equiv> newErrorMessage ''subscription is unsubscribed''"
abbreviation ErrClosedUnexpectedly :: Error where
  "ErrClosedUnexpectedly \<equiv> newErrorMessage ''connection closed unexpectedly''"
abbreviation ErrAlreadyClosed :: Error where
  "ErrAlreadyClosed \<equiv> newErrorMessage ''connection already closed''"
abbreviation ErrMsgSendTimeout :: Error where
  "ErrMsgSendTimeout \<equiv> newErrorMessage ''msg send timeout''"
abbreviation ErrMsgReceiptTimeout :: Error where
  "ErrMsgReceiptTimeout \<equiv> newErrorMessage ''msg receipt timeout''"
abbreviation ErrDisconnectReceiptTimeout :: Error where
  "ErrDisconnectReceiptTimeout \<equiv> newErrorMessage ''disconnect receipt timeout''"
abbreviation ErrUnsubscribeReceiptTimeout :: Error where
  "ErrUnsubscribeReceiptTimeout \<equiv> newErrorMessage ''unsubscribe receipt timeout''"
abbreviation ErrNilOption :: Error where
  "ErrNilOption \<equiv> newErrorMessage ''nil option''"

text \<open>\<open>err.Error()\<close> of a client error.\<close>

definition client_error_text :: "(string \<Rightarrow> string) \<Rightarrow> client_error \<Rightarrow> string" where
  "client_error_text quote e =
     (case e of StompErr err \<Rightarrow> ErrMessage err | IOErr err \<Rightarrow> Error_text quote err | PlainErr msg \<Rightarrow> msg)"

subsection \<open>Requests, subscriptions, messages\<close>

type_synonym chan_ref = nat

text \<open>A frame for the server and, when a response is awaited, the channel for it.\<close>

record writeRequest =
  req_Frame :: Frame
  req_C :: "chan_ref option"

text \<open>
  The fields of a \<open>Subscription\<close> that never change; \<open>cs_ref\<close> names the object, whose
  changing fields are a \<open>SubState\<close>.
\<close>

record ClientSub =
  cs_ref :: nat
  cs_id :: string
  cs_replyToSet :: bool
  cs_destination :: string
  cs_ackMode :: AckMode
  cs_unsubscribeReceiptTimeout :: duration

record Message =
  msg_Err :: "Error option"
  msg_Destination :: string
  msg_ContentType :: string
  msg_Conn :: bool
  msg_Subscription :: "ClientSub option"
  msg_Header :: "Header option"
  msg_Body :: bytes

abbreviation (input) subStateActive :: int where "subStateActive \<equiv> 0"
abbreviation (input) subStateClosing :: int where "subStateClosing \<equiv> 1"
abbreviation (input) subStateClosed :: int where "subStateClosed \<equiv> 2"

text \<open>The progress of \<open>closeOnce.Do\<close>.\<close>

datatype once = OnceFresh | OnceRunning | OnceDone

text \<open>
  \<open>ss_waiting\<close> counts the calls of \<open>closeCond.Wait\<close> that have been registered and not woken,
  \<open>ss_woken\<close> those that \<open>Broadcast\<close> has released.
\<close>

record SubState =
  ss_state :: int
  ss_C :: "Message list"
  ss_closedC :: bool
  ss_once :: once
  ss_locked :: bool
  ss_waiting :: nat
  ss_woken :: nat

definition new_sub_state :: SubState where
  "new_sub_state =
     \<lparr>ss_state = subStateActive, ss_C = [], ss_closedC = False, ss_once = OnceFresh, ss_locked = False,
      ss_waiting = 0, ss_woken = 0\<rparr>"

definition sub_capacity :: nat where "sub_capacity = 16"

subsection \<open>Programs\<close>

text \<open>What a receive from a response channel may give.\<close>

datatype reply = Got Frame | ChanClosed | Expired

text \<open>
  A duration in an action is its timeout. \<open>Spawn\<close> starts the reading goroutine of a new
  subscription; \<open>Crash\<close> is a panic.
\<close>

datatype 'r prog =
    Return 'r
  | Crash string
  | Lock "'r prog"
  | Unlock "'r prog"
  | ReadClosed "bool \<Rightarrow> 'r prog"
  | SetClosed "'r prog"
  | CloseConn "go_error option \<Rightarrow> 'r prog"
  | CloseWriteCh "'r prog"
  | AllocId "string \<Rightarrow> 'r prog"
  | MakeChan "chan_ref \<Rightarrow> 'r prog"
  | CountWrite "'r prog"
  | PutRequest writeRequest duration "bool \<Rightarrow> 'r prog"
  | RecvFrame chan_ref duration "reply \<Rightarrow> 'r prog"
  | PutFrame "chan_ref option" Frame "'r prog"
  | CloseChan "chan_ref option" "'r prog"
  | WriteFrame "Frame option" "go_error option \<Rightarrow> 'r prog"
  | NewSub "nat \<Rightarrow> 'r prog"
  | Spawn ClientSub chan_ref "'r prog"
  | CasState nat int int "bool \<Rightarrow> 'r prog"
  | LoadState nat "int \<Rightarrow> 'r prog"
  | StoreState nat int "'r prog"
  | PutMessage nat Message "'r prog"
  | TakeMessage nat "Message option \<Rightarrow> 'r prog"
  | CloseC nat "'r prog"
  | OnceEnter nat "bool \<Rightarrow> 'r prog"
  | OnceLeave nat "'r prog"
  | LockSub nat "'r prog"
  | UnlockSub nat "'r prog"
  | CondRegister nat "'r prog"
  | CondBlock nat duration "bool \<Rightarrow> 'r prog"
  | Broadcast nat "'r prog"

primrec bind :: "'a prog \<Rightarrow> ('a \<Rightarrow> 'b prog) \<Rightarrow> 'b prog" where
  "bind (Return x) q = q x"
| "bind (Crash m) q = Crash m"
| "bind (Lock p) q = Lock (bind p q)"
| "bind (Unlock p) q = Unlock (bind p q)"
| "bind (ReadClosed k) q = ReadClosed (\<lambda>a. bind (k a) q)"
| "bind (SetClosed p) q = SetClosed (bind p q)"
| "bind (CloseConn k) q = CloseConn (\<lambda>a. bind (k a) q)"
| "bind (CloseWriteCh p) q = CloseWriteCh (bind p q)"
| "bind (AllocId k) q = AllocId (\<lambda>a. bind (k a) q)"
| "bind (MakeChan k) q = MakeChan (\<lambda>a. bind (k a) q)"
| "bind (CountWrite p) q = CountWrite (bind p q)"
| "bind (PutRequest r d k) q = PutRequest r d (\<lambda>a. bind (k a) q)"
| "bind (RecvFrame c d k) q = RecvFrame c d (\<lambda>a. bind (k a) q)"
| "bind (PutFrame c f p) q = PutFrame c f (bind p q)"
| "bind (CloseChan c p) q = CloseChan c (bind p q)"
| "bind (WriteFrame f k) q = WriteFrame f (\<lambda>a. bind (k a) q)"
| "bind (NewSub k) q = NewSub (\<lambda>a. bind (k a) q)"
| "bind (Spawn s c p) q = Spawn s c (bind p q)"
| "bind (CasState s i j k) q = CasState s i j (\<lambda>a. bind (k a) q)"
| "bind (LoadState s k) q = LoadState s (\<lambda>a. bind (k a) q)"
| "bind (StoreState s i p) q = StoreState s i (bind p q)"
| "bind (PutMessage s m p) q = PutMessage s m (bind p q)"
| "bind (TakeMessage s k) q = TakeMessage s (\<lambda>a. bind (k a) q)"
| "bind (CloseC s p) q = CloseC s (bind p q)"
| "bind (OnceEnter s k) q = OnceEnter s (\<lambda>a. bind (k a) q)"
| "bind (OnceLeave s p) q = OnceLeave s (bind p q)"
| "bind (LockSub s p) q = LockSub s (bind p q)"
| "bind (UnlockSub s p) q = UnlockSub s (bind p q)"
| "bind (CondRegister s p) q = CondRegister s (bind p q)"
| "bind (CondBlock s d k) q = CondBlock s d (\<lambda>a. bind (k a) q)"
| "bind (Broadcast s p) q = Broadcast s (bind p q)"

lemma bind_Return [simp]: "bind p Return = p"
  by (induction p) auto

lemma bind_assoc: "bind (bind p q) r = bind p (\<lambda>x. bind (q x) r)"
  by (induction p) auto

subsection \<open>The shared state\<close>

type_synonym tid = nat

record Shared =
  sh_lock :: "tid option"
  sh_closed :: bool
  sh_connClosed :: bool
  sh_writeCh :: "writeRequest list"
  sh_writeCap :: nat
  sh_writeClosed :: bool
  sh_lastId :: "64 word"
  sh_nextChan :: chan_ref
  sh_chanClosed :: "chan_ref \<Rightarrow> bool"
  sh_statsEnabled :: bool
  sh_writesSent :: int
  sh_writer :: bufio_writer
  sh_nextSub :: nat
  sh_subs :: "nat \<Rightarrow> SubState"

text \<open>Objects that have not been made yet are in the initial state, \<open>new_sub_state\<close>.\<close>

definition upd_sub :: "nat \<Rightarrow> (SubState \<Rightarrow> SubState) \<Rightarrow> Shared \<Rightarrow> Shared" where
  "upd_sub s g S = S\<lparr>sh_subs := (sh_subs S)(s := g (sh_subs S s))\<rparr>"

text \<open>
  The next action of the program of goroutine \<open>t\<close>; \<open>None\<close> when it has none or cannot go
  on. A send on an unbuffered channel and its receive happen together and are not here, nor is
  the start of a goroutine; the result of closing the network connection is the second argument.
\<close>

fun fire :: "tid \<Rightarrow> go_error option \<Rightarrow> 'r prog \<Rightarrow> Shared \<Rightarrow> ('r prog \<times> Shared) option" where
  "fire t ce (Lock p) S =
     (if sh_lock S = None then Some (p, S\<lparr>sh_lock := Some t\<rparr>) else None)"
| "fire t ce (Unlock p) S =
     (if sh_lock S = None then Some (Crash ''sync: unlock of unlocked mutex'', S) else Some (p, S\<lparr>sh_lock := None\<rparr>))"
| "fire t ce (ReadClosed k) S = Some (k (sh_closed S), S)"
| "fire t ce (SetClosed p) S = Some (p, S\<lparr>sh_closed := True\<rparr>)"
| "fire t ce (CloseConn k) S = Some (k ce, S\<lparr>sh_connClosed := True\<rparr>)"
| "fire t ce (CloseWriteCh p) S =
     (if sh_writeClosed S then Some (Crash ''close of closed channel'', S) else Some (p, S\<lparr>sh_writeClosed := True\<rparr>))"
| "fire t ce (AllocId k) S =
     (let (i, n) = allocateId (sh_lastId S) in Some (k i, S\<lparr>sh_lastId := n\<rparr>))"
| "fire t ce (MakeChan k) S =
     Some (k (sh_nextChan S),
       S\<lparr>sh_nextChan := Suc (sh_nextChan S), sh_chanClosed := (sh_chanClosed S)(sh_nextChan S := False)\<rparr>)"
| "fire t ce (CountWrite p) S =
     Some (p, if sh_statsEnabled S then S\<lparr>sh_writesSent := int64 (sh_writesSent S + 1)\<rparr> else S)"
| "fire t ce (PutRequest r d k) S =
     (if sh_writeClosed S then Some (Crash ''send on closed channel'', S)
      else if length (sh_writeCh S) < sh_writeCap S then Some (k True, S\<lparr>sh_writeCh := sh_writeCh S @ [r]\<rparr>)
      else None)"
| "fire t ce (RecvFrame c d k) S = (if sh_chanClosed S c then Some (k ChanClosed, S) else None)"
| "fire t ce (PutFrame co f p) S =
     (case co of
        None \<Rightarrow> None
      | Some c \<Rightarrow> if sh_chanClosed S c then Some (Crash ''send on closed channel'', S) else None)"
| "fire t ce (CloseChan co p) S =
     (case co of
        None \<Rightarrow> Some (Crash ''close of nil channel'', S)
      | Some c \<Rightarrow> if sh_chanClosed S c then Some (Crash ''close of closed channel'', S)
                 else Some (p, S\<lparr>sh_chanClosed := (sh_chanClosed S)(c := True)\<rparr>))"
| "fire t ce (WriteFrame fo k) S =
     (let (err, w) = Writer_Write fo (sh_writer S) in Some (k err, S\<lparr>sh_writer := w\<rparr>))"
| "fire t ce (NewSub k) S = Some (k (sh_nextSub S), S\<lparr>sh_nextSub := Suc (sh_nextSub S)\<rparr>)"
| "fire t ce (CasState s i j k) S =
     (if ss_state (sh_subs S s) = i then Some (k True, upd_sub s (\<lambda>x. x\<lparr>ss_state := j\<rparr>) S) else Some (k False, S))"
| "fire t ce (LoadState s k) S = Some (k (ss_state (sh_subs S s)), S)"
| "fire t ce (StoreState s i p) S = Some (p, upd_sub s (\<lambda>x. x\<lparr>ss_state := i\<rparr>) S)"
| "fire t ce (PutMessage s m p) S =
     (if ss_closedC (sh_subs S s) then Some (Crash ''send on closed channel'', S)
      else if length (ss_C (sh_subs S s)) < sub_capacity
        then Some (p, upd_sub s (\<lambda>x. x\<lparr>ss_C := ss_C x @ [m]\<rparr>) S)
      else None)"
| "fire t ce (TakeMessage s k) S =
     (case ss_C (sh_subs S s) of
        m # ms \<Rightarrow> Some (k (Some m), upd_sub s (\<lambda>x. x\<lparr>ss_C := ms\<rparr>) S)
      | [] \<Rightarrow> if ss_closedC (sh_subs S s) then Some (k None, S) else None)"
| "fire t ce (CloseC s p) S =
     (if ss_closedC (sh_subs S s) then Some (Crash ''close of closed channel'', S)
      else Some (p, upd_sub s (\<lambda>x. x\<lparr>ss_closedC := True\<rparr>) S))"
| "fire t ce (OnceEnter s k) S =
     (case ss_once (sh_subs S s) of
        OnceFresh \<Rightarrow> Some (k True, upd_sub s (\<lambda>x. x\<lparr>ss_once := OnceRunning\<rparr>) S)
      | OnceRunning \<Rightarrow> None
      | OnceDone \<Rightarrow> Some (k False, S))"
| "fire t ce (OnceLeave s p) S = Some (p, upd_sub s (\<lambda>x. x\<lparr>ss_once := OnceDone\<rparr>) S)"
| "fire t ce (LockSub s p) S =
     (if ss_locked (sh_subs S s) then None else Some (p, upd_sub s (\<lambda>x. x\<lparr>ss_locked := True\<rparr>) S))"
| "fire t ce (UnlockSub s p) S =
     (if ss_locked (sh_subs S s) then Some (p, upd_sub s (\<lambda>x. x\<lparr>ss_locked := False\<rparr>) S)
      else Some (Crash ''sync: unlock of unlocked mutex'', S))"
| "fire t ce (CondRegister s p) S =
     (if ss_locked (sh_subs S s)
      then Some (p, upd_sub s (\<lambda>x. x\<lparr>ss_locked := False, ss_waiting := Suc (ss_waiting x)\<rparr>) S)
      else Some (Crash ''sync: unlock of unlocked mutex'', S))"
| "fire t ce (CondBlock s d k) S =
     (if 0 < ss_woken (sh_subs S s) \<and> \<not> ss_locked (sh_subs S s)
      then Some (k True, upd_sub s (\<lambda>x. x\<lparr>ss_locked := True, ss_woken := ss_woken x - 1\<rparr>) S)
      else None)"
| "fire t ce (Broadcast s p) S =
     Some (p, upd_sub s (\<lambda>x. x\<lparr>ss_waiting := 0, ss_woken := ss_woken x + ss_waiting x\<rparr>) S)"
| "fire t ce (Return r) S = None"
| "fire t ce (Crash m) S = None"
| "fire t ce (Spawn s c p) S = None"

text \<open>The actions that may give up, and what the program does then.\<close>

fun expire :: "'r prog \<Rightarrow> 'r prog option" where
  "expire (PutRequest r d k) = (if d > 0 then Some (k False) else None)"
| "expire (RecvFrame c d k) = (if d > 0 then Some (k Expired) else None)"
| "expire (CondBlock s d k) = (if d \<noteq> 0 then Some (k False) else None)"
| "expire _ = None"

end
