(* ===== verification/Client_Options.thy ===== *)
theory Client_Options
  imports Client_Prog
begin

section \<open>Options of the client: conn_options.go, send_options.go, subscribe_options.go\<close>

text \<open>
  A connect option is a function on the \<open>Conn\<close> under construction; of its fields it can reach
  the options record and the statistics flag. A send or subscribe option is a function on the
  frame, which may allocate identifiers, so it is a program.
\<close>

subsection \<open>Connect options\<close>

text \<open>A \<open>float64\<close> is carried as mantissa and exponent; nothing computes with it but a timer.\<close>

datatype float64 = Float64 int int

record connOptions =
  co_FrameCommand :: string
  co_Host :: string
  co_ReadTimeout :: duration
  co_WriteTimeout :: duration
  co_HeartBeatError :: duration
  co_MsgSendTimeout :: duration
  co_RcvReceiptTimeout :: duration
  co_DisconnectReceiptTimeout :: duration
  co_UnsubscribeReceiptTimeout :: duration
  co_HeartBeatGracePeriodMultiplier :: float64
  co_Login :: string
  co_Passcode :: string
  co_AcceptVersions :: "string list"
  co_Header :: "Header option"
  co_ReadChannelCapacity :: int
  co_WriteChannelCapacity :: int
  co_ReadBufferSize :: int
  co_WriteBufferSize :: int
  co_ResponseHeadersCallback :: bool
  co_Logger :: Logger

record ConnSetup =
  su_options :: connOptions
  su_statsEnabled :: bool

type_synonym conn_opt = "ConnSetup \<Rightarrow> Error option \<times> ConnSetup"

abbreviation DefaultHeartBeatError :: duration where "DefaultHeartBeatError \<equiv> 5 * Second"
abbreviation DefaultMsgSendTimeout :: duration where "DefaultMsgSendTimeout \<equiv> 10 * Second"
abbreviation DefaultRcvReceiptTimeout :: duration where "DefaultRcvReceiptTimeout \<equiv> 30 * Second"
abbreviation DefaultDisconnectReceiptTimeout :: duration where "DefaultDisconnectReceiptTimeout \<equiv> 30 * Second"
abbreviation DefaultUnsubscribeReceiptTimeout :: duration where "DefaultUnsubscribeReceiptTimeout \<equiv> 30 * Second"

definition default_connOptions :: connOptions where
  "default_connOptions =
     \<lparr>co_FrameCommand = CONNECT, co_Host = [], co_ReadTimeout = Minute, co_WriteTimeout = Minute,
      co_HeartBeatError = DefaultHeartBeatError, co_MsgSendTimeout = DefaultMsgSendTimeout,
      co_RcvReceiptTimeout = DefaultRcvReceiptTimeout,
      co_DisconnectReceiptTimeout = DefaultDisconnectReceiptTimeout,
      co_UnsubscribeReceiptTimeout = DefaultUnsubscribeReceiptTimeout,
      co_HeartBeatGracePeriodMultiplier = Float64 1 0, co_Login = [], co_Passcode = [],
      co_AcceptVersions = [], co_Header = None, co_ReadChannelCapacity = 0, co_WriteChannelCapacity = 0,
      co_ReadBufferSize = 0, co_WriteBufferSize = 0, co_ResponseHeadersCallback = False,
      co_Logger = StdLogger\<rparr>"

fun apply_conn_opts :: "conn_opt option list \<Rightarrow> ConnSetup \<Rightarrow> Error option \<times> ConnSetup" where
  "apply_conn_opts [] c = (None, c)"
| "apply_conn_opts (None # opts) c = apply_conn_opts opts c"
| "apply_conn_opts (Some opt # opts) c =
     (case opt c of (Some err, c') \<Rightarrow> (Some err, c') | (None, c') \<Rightarrow> apply_conn_opts opts c')"

definition newConnOptions :: "conn_opt option list \<Rightarrow> Error + (connOptions \<times> bool)" where
  "newConnOptions opts =
     (case apply_conn_opts opts \<lparr>su_options = default_connOptions, su_statsEnabled = False\<rparr> of
        (Some err, c) \<Rightarrow> Inl err
      | (None, c) \<Rightarrow>
          (let co = su_options c;
               co' = (if co_AcceptVersions co = [] then co\<lparr>co_AcceptVersions := [V10, V11, V12]\<rparr> else co)
           in Inr (co', su_statsEnabled c)))"

definition connOptions_NewFrame :: "connOptions \<Rightarrow> Frame go" where
  "connOptions_NewFrame co =
     (let h0 = empty_header;
          h1 = (if co_Host co \<noteq> [] then Header_Set h0 Host (co_Host co) else h0);
          send = quot (co_WriteTimeout co) Millisecond;
          recv = quot (co_ReadTimeout co) Millisecond;
          h2 = Header_Set h1 HeartBeat (FormatInt send @ '','' @ FormatInt recv);
          h3 = (if co_Login co \<noteq> [] \<or> co_Passcode co \<noteq> []
                then Header_Set (Header_Set h2 Login (co_Login co)) Passcode (co_Passcode co) else h2);
          h4 = Header_Set h3 AcceptVersion (Join (co_AcceptVersions co) (CHR '',''))
      in go_bind (Header_AddHeader h4 (co_Header co))
           (\<lambda>h. Ret \<lparr>Command = co_FrameCommand co, Hdr = h, Body = []\<rparr>))"

definition upd_options :: "(connOptions \<Rightarrow> connOptions) \<Rightarrow> conn_opt" where
  "upd_options g c = (None, c\<lparr>su_options := g (su_options c)\<rparr>)"

definition ConnOpt_Login :: "string \<Rightarrow> string \<Rightarrow> conn_opt" where
  "ConnOpt_Login login passcode = upd_options (\<lambda>co. co\<lparr>co_Login := login, co_Passcode := passcode\<rparr>)"

definition ConnOpt_Host :: "string \<Rightarrow> conn_opt" where
  "ConnOpt_Host host = upd_options (\<lambda>co. co\<lparr>co_Host := host\<rparr>)"

definition ConnOpt_UseStomp :: conn_opt where
  "ConnOpt_UseStomp = upd_options (\<lambda>co. co\<lparr>co_FrameCommand := STOMP\<rparr>)"

fun ConnOpt_AcceptVersion :: "string list \<Rightarrow> conn_opt" where
  "ConnOpt_AcceptVersion [] c = (None, c)"
| "ConnOpt_AcceptVersion (version # versions) c =
     (case CheckSupported version of
        Some err \<Rightarrow> (Some err, c)
      | None \<Rightarrow>
          ConnOpt_AcceptVersion versions
            (snd (upd_options (\<lambda>co. co\<lparr>co_AcceptVersions := co_AcceptVersions co @ [version]\<rparr>) c)))"

definition ConnOpt_HeartBeat :: "duration \<Rightarrow> duration \<Rightarrow> conn_opt" where
  "ConnOpt_HeartBeat sendTimeout recvTimeout =
     upd_options (\<lambda>co. co\<lparr>co_WriteTimeout := sendTimeout, co_ReadTimeout := recvTimeout\<rparr>)"

definition ConnOpt_HeartBeatError :: "duration \<Rightarrow> conn_opt" where
  "ConnOpt_HeartBeatError errorTimeout = upd_options (\<lambda>co. co\<lparr>co_HeartBeatError := errorTimeout\<rparr>)"

definition ConnOpt_MsgSendTimeout :: "duration \<Rightarrow> conn_opt" where
  "ConnOpt_MsgSendTimeout d = upd_options (\<lambda>co. co\<lparr>co_MsgSendTimeout := d\<rparr>)"

definition ConnOpt_RcvReceiptTimeout :: "duration \<Rightarrow> conn_opt" where
  "ConnOpt_RcvReceiptTimeout d = upd_options (\<lambda>co. co\<lparr>co_RcvReceiptTimeout := d\<rparr>)"

definition ConnOpt_DisconnectReceiptTimeout :: "duration \<Rightarrow> conn_opt" where
  "ConnOpt_DisconnectReceiptTimeout d = upd_options (\<lambda>co. co\<lparr>co_DisconnectReceiptTimeout := d\<rparr>)"

definition ConnOpt_UnsubscribeReceiptTimeout :: "duration \<Rightarrow> conn_opt" where
  "ConnOpt_UnsubscribeReceiptTimeout d = upd_options (\<lambda>co. co\<lparr>co_UnsubscribeReceiptTimeout := d\<rparr>)"

definition ConnOpt_HeartBeatGracePeriodMultiplier :: "float64 \<Rightarrow> conn_opt" where
  "ConnOpt_HeartBeatGracePeriodMultiplier m = upd_options (\<lambda>co. co\<lparr>co_HeartBeatGracePeriodMultiplier := m\<rparr>)"

definition ConnOpt_Header :: "string \<Rightarrow> string \<Rightarrow> conn_opt" where
  "ConnOpt_Header key val =
     upd_options (\<lambda>co. co\<lparr>co_Header :=
       Some (case co_Header co of None \<Rightarrow> NewHeader [key, val] | Some h \<Rightarrow> Header_Add h key val)\<rparr>)"

definition ConnOpt_ReadChannelCapacity :: "int \<Rightarrow> conn_opt" where
  "ConnOpt_ReadChannelCapacity n = upd_options (\<lambda>co. co\<lparr>co_ReadChannelCapacity := n\<rparr>)"

definition ConnOpt_WriteChannelCapacity :: "int \<Rightarrow> conn_opt" where
  "ConnOpt_WriteChannelCapacity n = upd_options (\<lambda>co. co\<lparr>co_WriteChannelCapacity := n\<rparr>)"

definition ConnOpt_ReadBufferSize :: "int \<Rightarrow> conn_opt" where
  "ConnOpt_ReadBufferSize n = upd_options (\<lambda>co. co\<lparr>co_ReadBufferSize := n\<rparr>)"

definition ConnOpt_WriteBufferSize :: "int \<Rightarrow> conn_opt" where
  "ConnOpt_WriteBufferSize n = upd_options (\<lambda>co. co\<lparr>co_WriteBufferSize := n\<rparr>)"

text \<open>Whether there is a callback, that is, one that is not \<open>nil\<close>.\<close>

definition ConnOpt_ResponseHeaders :: "bool \<Rightarrow> conn_opt" where
  "ConnOpt_ResponseHeaders callback = upd_options (\<lambda>co. co\<lparr>co_ResponseHeadersCallback := callback\<rparr>)"

text \<open>A logger that is \<open>nil\<close> is ignored.\<close>

definition ConnOpt_Logger :: "Logger option \<Rightarrow> conn_opt" where
  "ConnOpt_Logger log c =
     (case log of None \<Rightarrow> (None, c) | Some l \<Rightarrow> upd_options (\<lambda>co. co\<lparr>co_Logger := l\<rparr>) c)"

definition ConnOpt_WithStats :: conn_opt where
  "ConnOpt_WithStats c = (None, c\<lparr>su_statsEnabled := True\<rparr>)"

subsection \<open>Send and subscribe options\<close>

text \<open>Headers of frames made by \<open>New\<close> stay in the form of \<open>mk_frame\<close>.\<close>

lemma mk_frame_Add: "(mk_frame cmd kvs)\<lparr>Hdr := Header_Add (Hdr (mk_frame cmd kvs)) k v\<rparr> = mk_frame cmd (kvs @ [(k, v)])"
  by (simp add: mk_frame_def Header_Add_def)

lemma header_by_entries: "header_ok h \<Longrightarrow> h = \<lparr>slice = unpairs (entries h)\<rparr>"
  by (metis header_as_entries)

lemma Header_Set_unpairs: "Header_Set \<lparr>slice = unpairs kvs\<rparr> k v = \<lparr>slice = unpairs (set_first kvs k v)\<rparr>"
proof -
  have "header_ok \<lparr>slice = unpairs kvs\<rparr>" by (simp add: header_ok_def)
  from Set_entries [OF this, of k v] show ?thesis using header_by_entries by fastforce
qed

lemma mk_frame_Set: "(mk_frame cmd kvs)\<lparr>Hdr := Header_Set (Hdr (mk_frame cmd kvs)) k v\<rparr> = mk_frame cmd (set_first kvs k v)"
  by (simp add: mk_frame_def Header_Set_unpairs)

lemma mk_frame_Body: "(mk_frame cmd kvs)\<lparr>Body := []\<rparr> = mk_frame cmd kvs"
  by (simp add: mk_frame_def)

lemmas mk_frame_upd = mk_frame_Add mk_frame_Set mk_frame_Body

type_synonym frame_opt = "Frame \<Rightarrow> (Error option \<times> Frame) prog"

definition SendOpt_Receipt :: frame_opt where
  "SendOpt_Receipt f =
     (if Command f \<noteq> SEND then Return (Some ErrInvalidCommand_stomp, f)
      else AllocId (\<lambda>i. Return (None, f\<lparr>Hdr := Header_Set (Hdr f) Receipt i\<rparr>)))"

definition SendOpt_NoContentLength :: frame_opt where
  "SendOpt_NoContentLength f =
     (if Command f \<noteq> SEND then Return (Some ErrInvalidCommand_stomp, f)
      else Return (None, f\<lparr>Hdr := Header_Del (Hdr f) ContentLength\<rparr>))"

definition SendOpt_Header :: "string \<Rightarrow> string \<Rightarrow> frame_opt" where
  "SendOpt_Header key val f =
     (if Command f \<noteq> SEND then Return (Some ErrInvalidCommand_stomp, f)
      else Return (None, f\<lparr>Hdr := Header_Add (Hdr f) key val\<rparr>))"

definition SubscribeOpt_Id :: "string \<Rightarrow> frame_opt" where
  "SubscribeOpt_Id i f =
     (if Command f \<noteq> SUBSCRIBE then Return (Some ErrInvalidCommand_stomp, f)
      else Return (None, f\<lparr>Hdr := Header_Set (Hdr f) IdHdr i\<rparr>))"

definition SubscribeOpt_Header :: "string \<Rightarrow> string \<Rightarrow> frame_opt" where
  "SubscribeOpt_Header key val f =
     (if Command f \<noteq> SUBSCRIBE \<and> Command f \<noteq> UNSUBSCRIBE then Return (Some ErrInvalidCommand_stomp, f)
      else Return (None, f\<lparr>Hdr := Header_Add (Hdr f) key val\<rparr>))"

text \<open>The loop over the options, which skips \<open>nil\<close> ones and stops at the first error.\<close>

fun apply_frame_opts :: "frame_opt option list \<Rightarrow> Frame \<Rightarrow> (Error option \<times> Frame) prog" where
  "apply_frame_opts [] f = Return (None, f)"
| "apply_frame_opts (None # opts) f = apply_frame_opts opts f"
| "apply_frame_opts (Some opt # opts) f =
     bind (opt f) (\<lambda>(err, f'). case err of Some e \<Rightarrow> Return (Some e, f') | None \<Rightarrow> apply_frame_opts opts f')"

text \<open>
  An option that only allocates identifiers; all options of the library are, and every
  composition of them.
\<close>

primrec only_ids :: "'r prog \<Rightarrow> bool" where
  "only_ids (Return x) = True"
| "only_ids (AllocId k) = (\<forall>i. only_ids (k i))"
| "only_ids (Crash m) = False"
| "only_ids (Lock p) = False"
| "only_ids (Unlock p) = False"
| "only_ids (ReadClosed k) = False"
| "only_ids (SetClosed p) = False"
| "only_ids (CloseConn k) = False"
| "only_ids (CloseWriteCh p) = False"
| "only_ids (MakeChan k) = False"
| "only_ids (CountWrite p) = False"
| "only_ids (PutRequest r d k) = False"
| "only_ids (RecvFrame c d k) = False"
| "only_ids (PutFrame c f p) = False"
| "only_ids (CloseChan c p) = False"
| "only_ids (WriteFrame fo k) = False"
| "only_ids (NewSub k) = False"
| "only_ids (Spawn s c p) = False"
| "only_ids (CasState s i j k) = False"
| "only_ids (LoadState s k) = False"
| "only_ids (StoreState s i p) = False"
| "only_ids (PutMessage s m p) = False"
| "only_ids (TakeMessage s k) = False"
| "only_ids (CloseC s p) = False"
| "only_ids (OnceEnter s k) = False"
| "only_ids (OnceLeave s p) = False"
| "only_ids (LockSub s p) = False"
| "only_ids (UnlockSub s p) = False"
| "only_ids (CondRegister s p) = False"
| "only_ids (CondBlock s d k) = False"
| "only_ids (Broadcast s p) = False"

definition opts_ok :: "frame_opt option list \<Rightarrow> bool" where
  "opts_ok opts \<longleftrightarrow> (\<forall>opt f. Some opt \<in> set opts \<longrightarrow> only_ids (opt f))"

lemma only_ids_bind: "only_ids p \<Longrightarrow> (\<And>x. only_ids (q x)) \<Longrightarrow> only_ids (bind p q)"
  by (induction p) auto

lemma opts_ok_simps [simp]:
  "opts_ok []" "opts_ok (None # opts) = opts_ok opts"
  "opts_ok (Some opt # opts) \<longleftrightarrow> (\<forall>f. only_ids (opt f)) \<and> opts_ok opts"
  by (auto simp: opts_ok_def)

lemma only_ids_opts: "opts_ok opts \<Longrightarrow> only_ids (apply_frame_opts opts f)"
  by (induction opts f rule: apply_frame_opts.induct) (auto intro!: only_ids_bind split: option.split)

lemma library_opts [simp]:
  "only_ids (SendOpt_Receipt f)" "only_ids (SendOpt_NoContentLength f)" "only_ids (SendOpt_Header k v f)"
  "only_ids (SubscribeOpt_Id i f)" "only_ids (SubscribeOpt_Header k v f)"
  by (simp_all add: SendOpt_Receipt_def SendOpt_NoContentLength_def SendOpt_Header_def SubscribeOpt_Id_def
      SubscribeOpt_Header_def)

text \<open>A program that only allocates identifiers ends; \<open>run_ids\<close> is its result and the last identifier.\<close>

primrec run_ids :: "'r prog \<Rightarrow> 64 word \<Rightarrow> ('r \<times> 64 word) option" where
  "run_ids (Return x) n = Some (x, n)"
| "run_ids (AllocId k) n = run_ids (k (fst (allocateId n))) (snd (allocateId n))"
| "run_ids (Crash m) n = None"
| "run_ids (Lock p) n = None"
| "run_ids (Unlock p) n = None"
| "run_ids (ReadClosed k) n = None"
| "run_ids (SetClosed p) n = None"
| "run_ids (CloseConn k) n = None"
| "run_ids (CloseWriteCh p) n = None"
| "run_ids (MakeChan k) n = None"
| "run_ids (CountWrite p) n = None"
| "run_ids (PutRequest r d k) n = None"
| "run_ids (RecvFrame c d k) n = None"
| "run_ids (PutFrame c f p) n = None"
| "run_ids (CloseChan c p) n = None"
| "run_ids (WriteFrame fo k) n = None"
| "run_ids (NewSub k) n = None"
| "run_ids (Spawn s c p) n = None"
| "run_ids (CasState s i j k) n = None"
| "run_ids (LoadState s k) n = None"
| "run_ids (StoreState s i p) n = None"
| "run_ids (PutMessage s m p) n = None"
| "run_ids (TakeMessage s k) n = None"
| "run_ids (CloseC s p) n = None"
| "run_ids (OnceEnter s k) n = None"
| "run_ids (OnceLeave s p) n = None"
| "run_ids (LockSub s p) n = None"
| "run_ids (UnlockSub s p) n = None"
| "run_ids (CondRegister s p) n = None"
| "run_ids (CondBlock s d k) n = None"
| "run_ids (Broadcast s p) n = None"

lemma run_ids_total: "only_ids p \<Longrightarrow> \<exists>x n'. run_ids p n = Some (x, n')"
  by (induction p arbitrary: n) (auto simp: allocateId_def)

end
