(* ===== verification/Client_Conn.thy ===== *)
theory Client_Conn
  imports Client_Options
begin

section \<open>The client connection: conn.go, message.go\<close>

text \<open>
  \<open>ConnectWithContext\<close> is a function of the options and of what the network delivers; the
  operations of a connected \<open>Conn\<close> and the turns of its \<open>processLoop\<close> are programs. A
  \<open>ClientConn\<close> holds the fields that do not change once the connection is made; the closed flag,
  the mutex, the write channel and the counters are in the \<open>Shared\<close> state.
\<close>

subsection \<open>Messages\<close>

definition ShouldAck :: "Message \<Rightarrow> bool" where
  "ShouldAck msg =
     (case msg_Subscription msg of None \<Rightarrow> False | Some s \<Rightarrow> cs_ackMode s \<noteq> Mode_Auto)"

text \<open>\<open>Read\<close> into a buffer of \<open>n\<close> bytes: the bytes copied, or \<open>EOF\<close>, and the message left.\<close>

definition Message_Read :: "nat \<Rightarrow> Message \<Rightarrow> (go_error + bytes) \<times> Message" where
  "Message_Read n msg =
     (if msg_Body msg = [] then (Inl ErrEOF, msg)
      else (Inr (take n (msg_Body msg)), msg\<lparr>msg_Body := drop n (msg_Body msg)\<rparr>))"

definition Message_ReadByte :: "Message \<Rightarrow> (go_error + char) \<times> Message" where
  "Message_ReadByte msg =
     (case msg_Body msg of
        [] \<Rightarrow> (Inl ErrEOF, msg)
      | b # rest \<Rightarrow> (Inr b, msg\<lparr>msg_Body := rest\<rparr>))"

subsection \<open>Connecting\<close>

record ClientConn =
  cc_log :: Logger
  cc_version :: string
  cc_session :: string
  cc_server :: string
  cc_readTimeout :: duration
  cc_writeTimeout :: duration
  cc_msgSendTimeout :: duration
  cc_rcvReceiptTimeout :: duration
  cc_disconnectReceiptTimeout :: duration
  cc_unsubscribeReceiptTimeout :: duration
  cc_hbGracePeriodMultiplier :: float64
  cc_statsEnabled :: bool
  cc_readCapacity :: nat
  cc_writeCapacity :: nat

text \<open>The heart-beat entry of the response: the two timeouts of the connection.\<close>

definition response_timeouts :: "connOptions \<Rightarrow> Frame \<Rightarrow> go_error + (duration \<times> duration)" where
  "response_timeouts co response =
     (case Header_Contains (Hdr response) HeartBeat of
        None \<Rightarrow> Inr (0, 0)
      | Some heartBeat \<Rightarrow>
          (case ParseHeartBeat heartBeat of
             Inl err \<Rightarrow> Inl err
           | Inr (readTimeout, writeTimeout) \<Rightarrow>
               (let r = (if readTimeout < co_ReadTimeout co then co_ReadTimeout co else readTimeout);
                    r' = (if r > 0 then int64 (r + co_HeartBeatError co) else r);
                    w' = (if writeTimeout > co_HeartBeatError co
                          then int64 (writeTimeout - co_HeartBeatError co) else writeTimeout)
                in Inr (r', w'))))"

definition response_version :: "Frame \<Rightarrow> Error + string" where
  "response_version response =
     (let versionString = Header_Get (Hdr response) VersionHdr
      in if versionString \<noteq> []
         then (case CheckSupported versionString of
                 Some err \<Rightarrow> Inl \<lparr>ErrMessage = ErrMessage err, ErrFrame = Some response\<rparr>
               | None \<Rightarrow> Inr versionString)
         else Inr V10)"

text \<open>What is made of the response: the connection, and the header given to the callback if there is one.\<close>

definition accept_response ::
    "(string \<Rightarrow> string) \<Rightarrow> connOptions \<Rightarrow> bool \<Rightarrow> Frame \<Rightarrow> Error + (ClientConn \<times> Header option)" where
  "accept_response quote co stats response =
     (if Command response \<noteq> CONNECTED then Inl (newError response)
      else
        case response_version response of
          Inl err \<Rightarrow> Inl err
        | Inr version \<Rightarrow>
            (case response_timeouts co response of
               Inl err \<Rightarrow> Inl \<lparr>ErrMessage = Error_text quote err, ErrFrame = Some response\<rparr>
             | Inr (readTimeout, writeTimeout) \<Rightarrow>
                 Inr (\<lparr>cc_log = co_Logger co, cc_version = version, cc_session = Header_Get (Hdr response) Session,
                       cc_server = Header_Get (Hdr response) ServerHdr,
                       cc_readTimeout = readTimeout, cc_writeTimeout = writeTimeout,
                       cc_msgSendTimeout = co_MsgSendTimeout co,
                       cc_rcvReceiptTimeout = co_RcvReceiptTimeout co,
                       cc_disconnectReceiptTimeout = co_DisconnectReceiptTimeout co,
                       cc_unsubscribeReceiptTimeout = co_UnsubscribeReceiptTimeout co,
                       cc_hbGracePeriodMultiplier = co_HeartBeatGracePeriodMultiplier co,
                       cc_statsEnabled = stats,
                       cc_readCapacity = (if co_ReadChannelCapacity co > 0 then nat (co_ReadChannelCapacity co) else 20),
                       cc_writeCapacity = (if co_WriteChannelCapacity co > 0 then nat (co_WriteChannelCapacity co) else 20)\<rparr>,
                      if co_ResponseHeadersCallback co then Some (Hdr response) else None)))"

text \<open>
  The host: \<open>netHost\<close> is the one of the network connection, when it is a \<open>net.Conn\<close> whose address
  splits.
\<close>

definition choose_host :: "string option \<Rightarrow> connOptions \<Rightarrow> connOptions" where
  "choose_host netHost co =
     (if co_Host co = []
      then let co1 = (case netHost of Some host \<Rightarrow> co\<lparr>co_Host := host\<rparr> | None \<Rightarrow> co)
           in if co_Host co1 = [] then co1\<lparr>co_Host := ''default''\<rparr> else co1
      else co)"

text \<open>
  \<open>room\<close> and \<open>fault\<close> are the capacity and the error of the network for writing, \<open>cs\<close> and \<open>e\<close> the bytes
  it delivers and the error after them. The result has the connection, the callback's header, the
  writer and the rest of the input; an option or a network failure ends with an error.
\<close>

definition choose_writer :: "connOptions \<Rightarrow> nat option \<Rightarrow> go_error \<Rightarrow> bufio_writer" where
  "choose_writer co room fault =
     (if co_WriteBufferSize co > 0 then NewWriterSize (nat (co_ReadBufferSize co)) room fault
      else NewWriter room fault)"

definition ConnectWithContext ::
    "(string \<Rightarrow> string) \<Rightarrow> conn_opt option list \<Rightarrow> string option \<Rightarrow> nat option \<Rightarrow> go_error \<Rightarrow> go_error \<Rightarrow> stream \<Rightarrow>
      (client_error + (ClientConn \<times> Header option \<times> bufio_writer \<times> stream)) go" where
  "ConnectWithContext quote opts netHost room fault e cs =
     (case newConnOptions opts of
        Inl err \<Rightarrow> Ret (Inl (StompErr err))
      | Inr (co0, stats) \<Rightarrow>
          (let co = choose_host netHost co0
           in go_bind (connOptions_NewFrame co)
                (\<lambda>connectFrame.
                  case Writer_Write (Some connectFrame) (choose_writer co room fault) of
                    (Some err, w) \<Rightarrow> Ret (Inl (IOErr err))
                  | (None, w) \<Rightarrow>
                      (case Reader_Read e cs of
                         Inl err \<Rightarrow> Ret (Inl (IOErr err))
                       | Inr (None, cs') \<Rightarrow> Ret (Inl (PlainErr ''unexpected empty frame''))
                       | Inr (Some response, cs') \<Rightarrow>
                           (case accept_response quote co stats response of
                              Inl err \<Rightarrow> Ret (Inl (StompErr err))
                            | Inr (c, callback) \<Rightarrow> Ret (Inr (c, callback, w, cs')))))))"

text \<open>\<open>Dial\<close> puts the host it connected to before the caller's options.\<close>

definition dial_opts :: "string \<Rightarrow> conn_opt option list \<Rightarrow> conn_opt option list" where
  "dial_opts host opts = Some (ConnOpt_Host host) # opts"

text \<open>
  The goroutine that reads: the frames and heart-beats it puts on \<open>readCh\<close> before the read error
  that closes the channel, and the counter of reads.
\<close>

function client_readLoop :: "bool \<Rightarrow> go_error \<Rightarrow> stream \<Rightarrow> int \<Rightarrow> Frame option list \<times> go_error \<times> int" where
  "client_readLoop stats e cs readsReceived =
     (case Reader_Read e cs of
        Inl err \<Rightarrow> ([], err, readsReceived)
      | Inr (f, cs') \<Rightarrow>
          (let n = (if stats then int64 (readsReceived + 1) else readsReceived);
               (fs, err, n') = client_readLoop stats e cs' n
           in (f # fs, err, n')))"
  by pat_completeness auto
termination
  by (relation "measure (\<lambda>(stats, e, cs, n). length (concat cs))") (auto dest: Reader_Read_shorter)

declare client_readLoop.simps [simp del]

subsection \<open>Outcomes\<close>

text \<open>
  How a program of the client ends: a call returns an error or none, or a subscription; the
  processing loop and a subscription's reader are at the head of their loop, or have returned.
\<close>

record LoopState =
  ls_channels :: "string \<rightharpoonup> chan_ref option"
  ls_readTimer :: bool
  ls_writeTimer :: bool

datatype outcome =
    CallResult "client_error option"
  | SubResult "client_error + ClientSub"
  | LoopAt LoopState
  | LoopExit
  | SubAt ClientSub chan_ref
  | SubExit

subsection \<open>Closing\<close>

definition MustDisconnect :: "client_error option prog" where
  "MustDisconnect =
     Lock (ReadClosed (\<lambda>closed.
       if closed then Unlock (Return None)
       else CloseWriteCh (SetClosed (CloseConn (\<lambda>err. Unlock (Return (map_option IOErr err)))))))"

definition readReceiptWithTimeout :: "chan_ref \<Rightarrow> duration \<Rightarrow> Error \<Rightarrow> Error option prog" where
  "readReceiptWithTimeout ch timeout timeoutErr =
     RecvFrame ch (if timeout > 0 then timeout else 0) (\<lambda>r.
       case r of
         Expired \<Rightarrow> Return (Some timeoutErr)
       | ChanClosed \<Rightarrow> Crash ''nil pointer dereference''
       | Got response \<Rightarrow>
           if Command response \<noteq> RECEIPT then Return (Some (newError response)) else Return None)"

definition Disconnect :: "ClientConn \<Rightarrow> client_error option prog" where
  "Disconnect c =
     Lock (ReadClosed (\<lambda>closed.
       if closed then Unlock (Return None)
       else CountWrite (MakeChan (\<lambda>ch. AllocId (\<lambda>i.
         PutRequest \<lparr>req_Frame = mk_frame DISCONNECT [(Receipt, i)], req_C = Some ch\<rparr> 0 (\<lambda>_.
           bind (readReceiptWithTimeout ch (cc_disconnectReceiptTimeout c) ErrDisconnectReceiptTimeout) (\<lambda>err.
             case err of
               None \<Rightarrow> SetClosed (CloseConn (\<lambda>e. Unlock (Return (map_option IOErr e))))
             | Some x \<Rightarrow>
                 if x = ErrDisconnectReceiptTimeout
                 then SetClosed (CloseConn (\<lambda>e. Unlock (Return (Some (StompErr x)))))
                 else Unlock (Return (Some (StompErr x))))))))))"

subsection \<open>The processing loop\<close>

text \<open>What a \<open>select\<close> of the loop may receive.\<close>

datatype loop_event =
    EvReadTimeout
  | EvWriteTimeout
  | EvRead "Frame option"
  | EvReadClosed
  | EvRequest writeRequest
  | EvWriteClosed

definition loop_arm :: "ClientConn \<Rightarrow> LoopState \<Rightarrow> LoopState" where
  "loop_arm c l =
     l\<lparr>ls_readTimer := ls_readTimer l \<or> cc_readTimeout c > 0,
       ls_writeTimer := ls_writeTimer l \<or> cc_writeTimeout c > 0\<rparr>"

text \<open>The order in which \<open>range\<close> visits the channels of a map is an argument, \<open>order\<close>.\<close>

type_synonym channels = "string \<rightharpoonup> chan_ref option"
type_synonym visit = "channels \<Rightarrow> chan_ref option list"

definition sendError :: "(string \<Rightarrow> string) \<Rightarrow> visit \<Rightarrow> channels \<Rightarrow> client_error \<Rightarrow> 'r prog \<Rightarrow> 'r prog" where
  "sendError quote order m err p =
     foldr (\<lambda>ch q. PutFrame ch (mk_frame ERROR [(MessageHdr, client_error_text quote err)]) q) (order m) p"

text \<open>Leaving the loop runs the deferred \<open>MustDisconnect\<close>.\<close>

definition leave :: "outcome prog" where
  "leave = bind MustDisconnect (\<lambda>_. Return LoopExit)"

definition on_frame :: "(string \<Rightarrow> string) \<Rightarrow> visit \<Rightarrow> Frame \<Rightarrow> LoopState \<Rightarrow> outcome prog" where
  "on_frame quote order f l =
     (if Command f = RECEIPT
      then (case Header_Contains (Hdr f) ReceiptId of
              Some i \<Rightarrow>
                (case ls_channels l i of
                   Some ch \<Rightarrow>
                     PutFrame ch f (CloseChan ch (Return (LoopAt (l\<lparr>ls_channels := (ls_channels l)(i := None)\<rparr>))))
                 | None \<Rightarrow> Return (LoopAt l))
            | None \<Rightarrow>
                sendError quote order (ls_channels l) (StompErr \<lparr>ErrMessage = ''missing receipt-id'', ErrFrame = Some f\<rparr>) leave)
      else if Command f = ERROR
      then foldr (\<lambda>ch q. PutFrame ch f (CloseChan ch q)) (order (ls_channels l))
             (Lock (SetClosed (CloseConn (\<lambda>_. Unlock leave))))
      else if Command f = MESSAGE
      then (case Header_Contains (Hdr f) SubscriptionHdr of
              Some i \<Rightarrow>
                (case ls_channels l i of
                   Some ch \<Rightarrow> PutFrame ch f (Return (LoopAt l))
                 | None \<Rightarrow> Return (LoopAt l))
            | None \<Rightarrow> Return (LoopAt l))
      else Return (LoopAt l))"

abbreviation ReplyToHeader :: string where "ReplyToHeader \<equiv> ''reply-to''"

text \<open>Remember where a response goes.\<close>

definition note_receipt :: "writeRequest \<Rightarrow> channels \<Rightarrow> channels" where
  "note_receipt req m =
     (case req_C req of
        None \<Rightarrow> m
      | Some ch \<Rightarrow>
          (case Header_Contains (Hdr (req_Frame req)) Receipt of
             Some receipt \<Rightarrow> m(receipt \<mapsto> req_C req)
           | None \<Rightarrow> m))"

definition write_request :: "(string \<Rightarrow> string) \<Rightarrow> visit \<Rightarrow> Frame \<Rightarrow> LoopState \<Rightarrow> outcome prog" where
  "write_request quote order f l =
     WriteFrame (Some f) (\<lambda>err.
       case err of
         Some e \<Rightarrow> sendError quote order (ls_channels l) (IOErr e) leave
       | None \<Rightarrow> Return (LoopAt l))"

definition on_request :: "(string \<Rightarrow> string) \<Rightarrow> visit \<Rightarrow> writeRequest \<Rightarrow> LoopState \<Rightarrow> outcome prog" where
  "on_request quote order req l =
     (let f = req_Frame req;
          l1 = l\<lparr>ls_channels := note_receipt req (ls_channels l)\<rparr>
      in if Command f = SUBSCRIBE
         then (case Header_Contains (Hdr f) ReplyToHeader of
                 Some replyTo \<Rightarrow> Return (LoopAt (l1\<lparr>ls_channels := (ls_channels l1)(replyTo \<mapsto> req_C req)\<rparr>))
               | None \<Rightarrow>
                   write_request quote order f
                     (l1\<lparr>ls_channels := (ls_channels l1)(Header_Get (Hdr f) IdHdr \<mapsto> req_C req)\<rparr>))
         else if Command f = UNSUBSCRIBE
         then (case Header_Contains (Hdr f) ReplyToHeader of
                 Some replyTo \<Rightarrow>
                   (case ls_channels l1 replyTo of
                      Some ch \<Rightarrow>
                        CloseChan ch (Return (LoopAt (l1\<lparr>ls_channels := (ls_channels l1)(replyTo := None)\<rparr>)))
                    | None \<Rightarrow> Return (LoopAt l1))
               | None \<Rightarrow>
                   write_request quote order
                     (f\<lparr>Hdr := Header_Set (Hdr f) Receipt (Header_Get (Hdr f) IdHdr)\<rparr>) l1)
         else write_request quote order f l1)"

text \<open>One turn of the loop.\<close>

definition client_processLoop_turn ::
    "(string \<Rightarrow> string) \<Rightarrow> ClientConn \<Rightarrow> visit \<Rightarrow> loop_event \<Rightarrow> LoopState \<Rightarrow> outcome prog" where
  "client_processLoop_turn quote c order ev l0 =
     (let l = loop_arm c l0
      in case ev of
           EvReadTimeout \<Rightarrow> sendError quote order (ls_channels l) (StompErr (newErrorMessage ''read timeout'')) leave
         | EvWriteTimeout \<Rightarrow>
             WriteFrame None (\<lambda>err.
               case err of
                 Some e \<Rightarrow> sendError quote order (ls_channels l) (IOErr e) leave
               | None \<Rightarrow> Return (LoopAt (l\<lparr>ls_writeTimer := False\<rparr>)))
         | EvReadClosed \<Rightarrow> sendError quote order (ls_channels l) (StompErr (newErrorMessage ''connection closed'')) leave
         | EvRead None \<Rightarrow> Return (LoopAt (l\<lparr>ls_readTimer := False\<rparr>))
         | EvRead (Some f) \<Rightarrow> on_frame quote order f (l\<lparr>ls_readTimer := False\<rparr>)
         | EvWriteClosed \<Rightarrow> sendError quote order (ls_channels l) (PlainErr ''write channel closed'') leave
         | EvRequest req \<Rightarrow> on_request quote order req (l\<lparr>ls_writeTimer := False\<rparr>))"

subsection \<open>Sending\<close>

definition sendDataToWriteChWithTimeout :: "writeRequest \<Rightarrow> duration \<Rightarrow> Error option prog" where
  "sendDataToWriteChWithTimeout request timeout =
     (if timeout \<le> 0 then PutRequest request 0 (\<lambda>_. Return None)
      else PutRequest request timeout (\<lambda>sent. Return (if sent then None else Some ErrMsgSendTimeout)))"

definition createSendFrame :: "string \<Rightarrow> string \<Rightarrow> bytes \<Rightarrow> frame_opt option list \<Rightarrow> (Error + Frame) prog" where
  "createSendFrame destination contentType body opts =
     (let f0 = (mk_frame SEND [(ContentLength, FormatUint (length body))])\<lparr>Body := body\<rparr>;
          f1 = f0\<lparr>Hdr := Header_Set (Hdr f0) Destination destination\<rparr>;
          f2 = (if contentType \<noteq> [] then f1\<lparr>Hdr := Header_Set (Hdr f1) ContentType contentType\<rparr> else f1)
      in bind (apply_frame_opts opts f2)
           (\<lambda>(err, f). case err of Some e \<Rightarrow> Return (Inl e) | None \<Rightarrow> Return (Inr f)))"

text \<open>The part of \<open>Send\<close> after the frame has been made; the mutex is held.\<close>

definition post_frame :: "ClientConn \<Rightarrow> Frame \<Rightarrow> client_error option prog" where
  "post_frame c f =
     CountWrite (
       if Header_Contains (Hdr f) Receipt \<noteq> None
       then MakeChan (\<lambda>ch.
         bind (sendDataToWriteChWithTimeout \<lparr>req_Frame = f, req_C = Some ch\<rparr> (cc_msgSendTimeout c)) (\<lambda>err.
           case err of
             Some e \<Rightarrow> Unlock (Return (Some (StompErr e)))
           | None \<Rightarrow>
               bind (readReceiptWithTimeout ch (cc_rcvReceiptTimeout c) ErrMsgReceiptTimeout) (\<lambda>err.
                 Unlock (Return (map_option StompErr err)))))
       else
         bind (sendDataToWriteChWithTimeout \<lparr>req_Frame = f, req_C = None\<rparr> (cc_msgSendTimeout c)) (\<lambda>err.
           Unlock (Return (map_option StompErr err))))"

definition Send :: "ClientConn \<Rightarrow> string \<Rightarrow> string \<Rightarrow> bytes \<Rightarrow> frame_opt option list \<Rightarrow> client_error option prog" where
  "Send c destination contentType body opts =
     Lock (ReadClosed (\<lambda>closed.
       if closed then Unlock (Return (Some (StompErr ErrAlreadyClosed)))
       else bind (createSendFrame destination contentType body opts) (\<lambda>r.
         case r of
           Inl err \<Rightarrow> Unlock (Return (Some (StompErr err)))
         | Inr f \<Rightarrow> post_frame c f)))"

definition sendFrame :: "ClientConn \<Rightarrow> Frame \<Rightarrow> client_error option prog" where
  "sendFrame c f =
     Lock (ReadClosed (\<lambda>closed.
       if closed then Unlock (CloseConn (\<lambda>_. Return (Some (StompErr ErrClosedUnexpectedly))))
       else CountWrite (
         if Header_Contains (Hdr f) Receipt \<noteq> None
         then MakeChan (\<lambda>ch. PutRequest \<lparr>req_Frame = f, req_C = Some ch\<rparr> 0 (\<lambda>_. Unlock (
           RecvFrame ch (if cc_writeTimeout c > 0 then cc_writeTimeout c else 0) (\<lambda>r.
             case r of
               Got response \<Rightarrow>
                 if Command response \<noteq> RECEIPT then Return (Some (StompErr (newError response))) else Return None
             | ChanClosed \<Rightarrow> Return (Some (StompErr ErrClosedUnexpectedly))
             | Expired \<Rightarrow> Return (Some (StompErr ErrClosedUnexpectedly))))))
         else PutRequest \<lparr>req_Frame = f, req_C = None\<rparr> 0 (\<lambda>_. Unlock (Return None)))))"

subsection \<open>Subscribing\<close>

definition choose_id :: "Frame \<Rightarrow> (string \<times> Frame) prog" where
  "choose_id f =
     (case Header_Contains (Hdr f) IdHdr of
        Some i \<Rightarrow> Return (i, f)
      | None \<Rightarrow> AllocId (\<lambda>i. Return (i, f\<lparr>Hdr := Header_Add (Hdr f) IdHdr i\<rparr>)))"

definition Subscribe :: "ClientConn \<Rightarrow> string \<Rightarrow> AckMode \<Rightarrow> frame_opt option list \<Rightarrow> (client_error + ClientSub) prog" where
  "Subscribe c destination ack opts =
     Lock (ReadClosed (\<lambda>closed.
       if closed then CloseConn (\<lambda>_. Unlock (Return (Inl (StompErr ErrClosedUnexpectedly))))
       else MakeChan (\<lambda>ch.
         case AckMode_String ack of
           Panic m \<Rightarrow> Crash m
         | Ret a \<Rightarrow>
             bind (apply_frame_opts opts (mk_frame SUBSCRIBE [(Destination, destination), (AckHdr, a)])) (\<lambda>(err, f).
               case err of
                 Some e \<Rightarrow> Unlock (Return (Inl (StompErr e)))
               | None \<Rightarrow>
                   (let replyTo = Header_Contains (Hdr f) ReplyToHeader;
                        f1 = (case replyTo of
                                Some r \<Rightarrow> f\<lparr>Hdr := Header_Set (Hdr f) IdHdr r\<rparr>
                              | None \<Rightarrow> f)
                    in bind (choose_id f1) (\<lambda>(i, f2).
                         NewSub (\<lambda>s.
                           let sub = \<lparr>cs_ref = s, cs_id = i, cs_replyToSet = (replyTo \<noteq> None),
                                      cs_destination = destination, cs_ackMode = ack,
                                      cs_unsubscribeReceiptTimeout = cc_unsubscribeReceiptTimeout c\<rparr>
                           in Spawn sub ch (CountWrite (
                                PutRequest \<lparr>req_Frame = f2, req_C = Some ch\<rparr> 0 (\<lambda>_.
                                  Unlock (Return (Inr sub)))))))))))) "

subsection \<open>Acknowledging\<close>

definition createAckNackFrame :: "ClientConn \<Rightarrow> Message \<Rightarrow> bool \<Rightarrow> Error + Frame option" where
  "createAckNackFrame c msg ack =
     (if \<not> ack \<and> \<not> SupportsNack (cc_version c) then Inl ErrNackNotSupported
      else
        case (msg_Header msg, msg_Subscription msg) of
          (Some header, Some sub) \<Rightarrow>
            if \<not> msg_Conn msg then Inl ErrNotReceivedMessage
            else if cs_ackMode sub = Mode_Auto then (if ack then Inr None else Inl ErrCannotNackAutoSub)
            else
              (let f = mk_frame (if ack then ACK else NACK) []
               in if cc_version c = V10 \<or> cc_version c = V11
                  then (let h = Header_Add (Hdr f) SubscriptionHdr (cs_id sub)
                        in case Header_Contains header MessageId of
                             Some messageId \<Rightarrow> Inr (Some (f\<lparr>Hdr := Header_Add h MessageId messageId\<rparr>))
                           | None \<Rightarrow> Inl (stomp_missingHeader MessageId))
                  else if cc_version c = V12
                  then (case Header_Contains header AckHdr of
                          Some a \<Rightarrow> Inr (Some (f\<lparr>Hdr := Header_Add (Hdr f) IdHdr a\<rparr>))
                        | None \<Rightarrow> Inl (stomp_missingHeader AckHdr))
                  else Inr (Some f))
        | _ \<Rightarrow> Inl ErrNotReceivedMessage)"

definition send_ack :: "ClientConn \<Rightarrow> Error + Frame option \<Rightarrow> client_error option prog" where
  "send_ack c r =
     (case r of
        Inl err \<Rightarrow> Return (Some (StompErr err))
      | Inr None \<Rightarrow> Return None
      | Inr (Some f) \<Rightarrow> sendFrame c f)"

definition Conn_Ack :: "ClientConn \<Rightarrow> Message \<Rightarrow> client_error option prog" where
  "Conn_Ack c m = send_ack c (createAckNackFrame c m True)"

definition Conn_Nack :: "ClientConn \<Rightarrow> Message \<Rightarrow> client_error option prog" where
  "Conn_Nack c m = send_ack c (createAckNackFrame c m False)"

end
