(* ===== verification/Client_Subscription.thy ===== *)
theory Client_Subscription
  imports Client_Conn
begin

section \<open>Client subscriptions: subscription.go\<close>

text \<open>
  The operations of a \<open>Subscription\<close> as programs on its \<open>SubState\<close>. The helper goroutine
  that \<open>waitWithTimeout\<close> starts is folded into its caller: it registers with the condition
  variable, and its caller goes on when it is woken or when the time has passed.
\<close>

definition sub_Active :: "ClientSub \<Rightarrow> bool prog" where
  "sub_Active s = LoadState (cs_ref s) (\<lambda>st. Return (st = subStateActive))"

definition subscriptionErrorMessage :: "ClientSub \<Rightarrow> string \<Rightarrow> Message" where
  "subscriptionErrorMessage s message =
     \<lparr>msg_Err = Some (newErrorMessage
        (''Subscription '' @ cs_id s @ '': '' @ cs_destination s @ '': '' @ message)),
      msg_Destination = [], msg_ContentType = [], msg_Conn = False, msg_Subscription = None,
      msg_Header = None, msg_Body = []\<rparr>"

definition closeChannel :: "ClientSub \<Rightarrow> Message option \<Rightarrow> 'r prog \<Rightarrow> 'r prog" where
  "closeChannel s mo p =
     OnceEnter (cs_ref s) (\<lambda>first.
       if first
       then (let q = StoreState (cs_ref s) subStateClosed (CloseC (cs_ref s)
                       (Broadcast (cs_ref s) (OnceLeave (cs_ref s) p)))
             in case mo of Some m \<Rightarrow> PutMessage (cs_ref s) m q | None \<Rightarrow> q)
       else p)"

text \<open>
  The wait at the end of \<open>Unsubscribe\<close>. \<open>Wait\<close> returns after a \<open>Broadcast\<close> only, which
  \<open>closeChannel\<close> performs once the state is closed, so the loop ends after at most one wait; the
  first argument bounds the number of its rounds.
\<close>

fun unsubscribe_wait :: "nat \<Rightarrow> ClientSub \<Rightarrow> client_error option \<Rightarrow> client_error option prog" where
  "unsubscribe_wait 0 s err = Crash ''out of rounds''"
| "unsubscribe_wait (Suc n) s err =
     LoadState (cs_ref s) (\<lambda>st.
       if st = subStateClosed then UnlockSub (cs_ref s) (Return err)
       else CondRegister (cs_ref s) (CondBlock (cs_ref s) (cs_unsubscribeReceiptTimeout s) (\<lambda>woken.
         if woken then unsubscribe_wait n s None
         else LoadState (cs_ref s) (\<lambda>st.
           if st \<noteq> subStateClosed
           then PutMessage (cs_ref s) (subscriptionErrorMessage s ''channel unsubscribe receipt timeout'')
                  (Return (Some (StompErr ErrUnsubscribeReceiptTimeout)))
           else Return (Some (StompErr ErrUnsubscribeReceiptTimeout))))))"

text \<open>The options of \<open>Unsubscribe\<close>: here a \<open>nil\<close> option is an error.\<close>

fun unsubscribe_opts :: "frame_opt option list \<Rightarrow> Frame \<Rightarrow> (Error option \<times> Frame) prog" where
  "unsubscribe_opts [] f = Return (None, f)"
| "unsubscribe_opts (None # opts) f = Return (Some ErrNilOption, f)"
| "unsubscribe_opts (Some opt # opts) f =
     bind (opt f) (\<lambda>(err, f'). case err of Some e \<Rightarrow> Return (Some e, f') | None \<Rightarrow> unsubscribe_opts opts f')"

definition Unsubscribe :: "ClientConn \<Rightarrow> ClientSub \<Rightarrow> frame_opt option list \<Rightarrow> client_error option prog" where
  "Unsubscribe c s opts =
     CasState (cs_ref s) subStateActive subStateClosing (\<lambda>swapped.
       if \<not> swapped then Return (Some (StompErr ErrCompletedSubscription))
       else bind (unsubscribe_opts opts (mk_frame UNSUBSCRIBE [(IdHdr, cs_id s)])) (\<lambda>(err, f).
         case err of
           Some e \<Rightarrow> Return (Some (StompErr e))
         | None \<Rightarrow>
             (let f' = (if cs_replyToSet s then f\<lparr>Hdr := Header_Set (Hdr f) ReplyToHeader (cs_id s)\<rparr> else f)
              in bind (sendFrame c f') (\<lambda>err.
                   if err = Some (StompErr ErrClosedUnexpectedly)
                   then closeChannel s (Some (subscriptionErrorMessage s ''connection closed unexpectedly'')) (Return err)
                   else LockSub (cs_ref s) (unsubscribe_wait 2 s err)))))"

definition sub_Read :: "ClientSub \<Rightarrow> (Error + Message) prog" where
  "sub_Read s =
     bind (sub_Active s) (\<lambda>active.
       if \<not> active then Return (Inl ErrCompletedSubscription)
       else TakeMessage (cs_ref s) (\<lambda>mo.
         case mo of
           None \<Rightarrow> Return (Inl ErrCompletedSubscription)
         | Some msg \<Rightarrow> (case msg_Err msg of Some err \<Rightarrow> Return (Inl err) | None \<Rightarrow> Return (Inr msg))))"

definition frame_message :: "ClientSub \<Rightarrow> Frame \<Rightarrow> Message" where
  "frame_message s f =
     \<lparr>msg_Err = None, msg_Destination = Header_Get (Hdr f) Destination,
      msg_ContentType = Header_Get (Hdr f) ContentType, msg_Conn = True, msg_Subscription = Some s,
      msg_Header = Some (Hdr f), msg_Body = Body f\<rparr>"

definition error_message :: "ClientSub \<Rightarrow> Frame \<Rightarrow> Message" where
  "error_message s f =
     \<lparr>msg_Err = Some \<lparr>ErrMessage = Header_Get (Hdr f) MessageHdr, ErrFrame = Some f\<rparr>, msg_Destination = [],
      msg_ContentType = Header_Get (Hdr f) ContentType, msg_Conn = True, msg_Subscription = Some s,
      msg_Header = Some (Hdr f), msg_Body = Body f\<rparr>"

text \<open>One turn of the reading goroutine of a subscription.\<close>

definition sub_readLoop_turn :: "ClientSub \<Rightarrow> chan_ref \<Rightarrow> outcome prog" where
  "sub_readLoop_turn s ch =
     RecvFrame ch 0 (\<lambda>r.
       case r of
         Got f \<Rightarrow>
           if Command f = MESSAGE then PutMessage (cs_ref s) (frame_message s f) (Return (SubAt s ch))
           else if Command f = ERROR
           then LoadState (cs_ref s) (\<lambda>state.
                  if state = subStateActive \<or> state = subStateClosing
                  then closeChannel s (Some (error_message s f)) (Return SubExit)
                  else Return SubExit)
           else if Command f = RECEIPT
           then LoadState (cs_ref s) (\<lambda>state.
                  if state = subStateActive \<or> state = subStateClosing
                  then closeChannel s None (Return SubExit)
                  else Return SubExit)
           else Return (SubAt s ch)
       | ChanClosed \<Rightarrow>
           LoadState (cs_ref s) (\<lambda>state.
             if state = subStateActive \<or> state = subStateClosing
             then closeChannel s (Some (subscriptionErrorMessage s ''channel read failed'')) (Return SubExit)
             else Return SubExit)
       | Expired \<Rightarrow> Return (SubAt s ch))"

end
