(* ===== verification/Client_Transaction.thy ===== *)
theory Client_Transaction
  imports Client_Conn
begin

section \<open>Client transactions: transaction.go\<close>

text \<open>
  A \<open>Transaction\<close> object belongs to one caller; its operations return the object as they leave
  it, beside the error.
\<close>

record ClientTx =
  ct_id :: string
  ct_completed :: bool

definition BeginWithError :: "ClientConn \<Rightarrow> (client_error option \<times> ClientTx) prog" where
  "BeginWithError c =
     AllocId (\<lambda>i.
       bind (sendFrame c (mk_frame BEGIN [(Transaction, i)])) (\<lambda>err.
         Return (err, \<lparr>ct_id = i, ct_completed = False\<rparr>)))"

definition Begin :: "ClientConn \<Rightarrow> ClientTx prog" where
  "Begin c = bind (BeginWithError c) (\<lambda>(err, tx). Return tx)"

text \<open>The receipt of \<open>AbortWithReceipt\<close> and \<open>CommitWithReceipt\<close>.\<close>

definition with_receipt :: "bool \<Rightarrow> Frame \<Rightarrow> (Frame \<Rightarrow> 'r prog) \<Rightarrow> 'r prog" where
  "with_receipt receipt f k =
     (if receipt then AllocId (\<lambda>i. k (f\<lparr>Hdr := Header_Set (Hdr f) Receipt i\<rparr>)) else k f)"

definition finish_tx :: "ClientConn \<Rightarrow> string \<Rightarrow> ClientTx \<Rightarrow> bool \<Rightarrow> (client_error option \<times> ClientTx) prog" where
  "finish_tx c command tx receipt =
     (if ct_completed tx then Return (Some (StompErr ErrCompletedTransaction), tx)
      else with_receipt receipt (mk_frame command [(Transaction, ct_id tx)]) (\<lambda>f.
        bind (sendFrame c f) (\<lambda>err.
          case err of
            Some e \<Rightarrow> Return (Some e, tx)
          | None \<Rightarrow> Return (None, tx\<lparr>ct_completed := True\<rparr>))))"

definition Tx_abort :: "ClientConn \<Rightarrow> ClientTx \<Rightarrow> bool \<Rightarrow> (client_error option \<times> ClientTx) prog" where
  "Tx_abort c tx receipt = finish_tx c ABORT tx receipt"

definition Tx_commit :: "ClientConn \<Rightarrow> ClientTx \<Rightarrow> bool \<Rightarrow> (client_error option \<times> ClientTx) prog" where
  "Tx_commit c tx receipt = finish_tx c COMMIT tx receipt"

definition Tx_Send ::
    "ClientConn \<Rightarrow> ClientTx \<Rightarrow> string \<Rightarrow> string \<Rightarrow> bytes \<Rightarrow> frame_opt option list \<Rightarrow> client_error option prog" where
  "Tx_Send c tx destination contentType body opts =
     (if ct_completed tx then Return (Some (StompErr ErrCompletedTransaction))
      else bind (createSendFrame destination contentType body opts) (\<lambda>r.
        case r of
          Inl err \<Rightarrow> Return (Some (StompErr err))
        | Inr f \<Rightarrow> sendFrame c (f\<lparr>Hdr := Header_Set (Hdr f) Transaction (ct_id tx)\<rparr>)))"

definition in_tx :: "ClientTx \<Rightarrow> Error + Frame option \<Rightarrow> Error + Frame option" where
  "in_tx tx r =
     (case r of
        Inl err \<Rightarrow> Inl err
      | Inr None \<Rightarrow> Inr None
      | Inr (Some f) \<Rightarrow> Inr (Some (f\<lparr>Hdr := Header_Set (Hdr f) Transaction (ct_id tx)\<rparr>)))"

definition Tx_Ack :: "ClientConn \<Rightarrow> ClientTx \<Rightarrow> Message \<Rightarrow> client_error option prog" where
  "Tx_Ack c tx msg =
     (if ct_completed tx then Return (Some (StompErr ErrCompletedTransaction))
      else send_ack c (in_tx tx (createAckNackFrame c msg True)))"

definition Tx_Nack :: "ClientConn \<Rightarrow> ClientTx \<Rightarrow> Message \<Rightarrow> client_error option prog" where
  "Tx_Nack c tx msg =
     (if ct_completed tx then Return (Some (StompErr ErrCompletedTransaction))
      else send_ack c (in_tx tx (createAckNackFrame c msg False)))"

end
