(* ===== verification/Client_World.thy ===== *)
theory Client_World
  imports Client_Subscription Client_Transaction
begin

section \<open>The goroutines of a client\<close>

text \<open>
  Any number of calls, the processing loop and the readers of the subscriptions, interleaved
  action by action. A \<open>World\<close> is the shared state, the read channel and the program that each
  goroutine still has to run. \<open>client_step\<close> is one action of one goroutine, a rendezvous of
  two on an unbuffered channel, or an event of the network. A panic in any goroutine ends the process:
  a crashed world has no steps.
\<close>

subsection \<open>Steps\<close>

record World =
  wd_shared :: Shared
  wd_threads :: "tid \<Rightarrow> outcome prog option"
  wd_readCh :: "Frame option list"
  wd_readClosed :: bool
  wd_crash :: "string option"

abbreviation crashed :: "World \<Rightarrow> bool" where
  "crashed w \<equiv> wd_crash w \<noteq> None"

definition set_thread :: "tid \<Rightarrow> outcome prog \<Rightarrow> World \<Rightarrow> World" where
  "set_thread t p w =
     w\<lparr>wd_threads := (wd_threads w)(t \<mapsto> p), wd_crash := (case p of Crash m \<Rightarrow> Some m | _ \<Rightarrow> wd_crash w)\<rparr>"

lemma set_thread_sel [simp]:
  "wd_threads (set_thread t p w) = (wd_threads w)(t \<mapsto> p)" "wd_shared (set_thread t p w) = wd_shared w"
  "wd_readCh (set_thread t p w) = wd_readCh w" "wd_readClosed (set_thread t p w) = wd_readClosed w"
  by (simp_all add: set_thread_def)

text \<open>The calls that a user of the library can make on a connection and on what it returned.\<close>

definition call :: "client_error option prog \<Rightarrow> outcome prog" where
  "call p = bind p (\<lambda>err. Return (CallResult err))"

definition call_tx :: "(client_error option \<times> ClientTx) prog \<Rightarrow> outcome prog" where
  "call_tx p = bind p (\<lambda>(err, tx). Return (CallResult err))"

definition call_sub :: "(client_error + ClientSub) prog \<Rightarrow> outcome prog" where
  "call_sub p = bind p (\<lambda>r. Return (SubResult r))"

definition call_read :: "(Error + Message) prog \<Rightarrow> outcome prog" where
  "call_read p = bind p (\<lambda>r. Return (CallResult (case r of Inl err \<Rightarrow> Some (StompErr err) | Inr m \<Rightarrow> None)))"

inductive api_call :: "ClientConn \<Rightarrow> outcome prog \<Rightarrow> bool" for c where
  Send: "opts_ok opts \<Longrightarrow> api_call c (call (Send c dest ctype body opts))"
| Subscribe: "opts_ok opts \<Longrightarrow> api_call c (call_sub (Subscribe c dest ack opts))"
| Ack: "api_call c (call (Conn_Ack c m))"
| Nack: "api_call c (call (Conn_Nack c m))"
| Begin: "api_call c (call_tx (BeginWithError c))"
| Abort: "api_call c (call_tx (Tx_abort c tx receipt))"
| Commit: "api_call c (call_tx (Tx_commit c tx receipt))"
| TxSend: "opts_ok opts \<Longrightarrow> api_call c (call (Tx_Send c tx dest ctype body opts))"
| TxAck: "api_call c (call (Tx_Ack c tx m))"
| TxNack: "api_call c (call (Tx_Nack c tx m))"
| Unsubscribe: "opts_ok opts \<Longrightarrow> api_call c (call (Unsubscribe c s opts))"
| Read: "api_call c (call_read (sub_Read s))"
| Disconnect: "api_call c (call (Disconnect c))"
| MustDisconnect: "api_call c (call MustDisconnect)"

text \<open>
  What the \<open>select\<close> of the processing loop finds: the event, and the world after it has been taken.
\<close>

fun take_event :: "ClientConn \<Rightarrow> LoopState \<Rightarrow> loop_event \<Rightarrow> World \<Rightarrow> World option" where
  "take_event c l EvReadTimeout w = (if ls_readTimer (loop_arm c l) then Some w else None)"
| "take_event c l EvWriteTimeout w = (if ls_writeTimer (loop_arm c l) then Some w else None)"
| "take_event c l (EvRead fo) w =
     (case wd_readCh w of
        x # xs \<Rightarrow> if x = fo then Some (w\<lparr>wd_readCh := xs\<rparr>) else None
      | [] \<Rightarrow> None)"
| "take_event c l EvReadClosed w = (if wd_readCh w = [] \<and> wd_readClosed w then Some w else None)"
| "take_event c l (EvRequest r) w =
     (case sh_writeCh (wd_shared w) of
        x # xs \<Rightarrow> if x = r then Some (w\<lparr>wd_shared := (wd_shared w)\<lparr>sh_writeCh := xs\<rparr>\<rparr>) else None
      | [] \<Rightarrow> None)"
| "take_event c l EvWriteClosed w =
     (if sh_writeCh (wd_shared w) = [] \<and> sh_writeClosed (wd_shared w) then Some w else None)"

definition visits :: "visit \<Rightarrow> bool" where
  "visits order \<longleftrightarrow> (\<forall>m. finite (dom m) \<longrightarrow> map_range m (order m))"

inductive client_step :: "(string \<Rightarrow> string) \<Rightarrow> ClientConn \<Rightarrow> World \<Rightarrow> World \<Rightarrow> bool" for quote c where
  act: "\<not> crashed w \<Longrightarrow> wd_threads w t = Some p \<Longrightarrow> fire t ce p (wd_shared w) = Some (p', S) \<Longrightarrow>
      client_step quote c w (set_thread t p' (w\<lparr>wd_shared := S\<rparr>))"
| timeout: "\<not> crashed w \<Longrightarrow> wd_threads w t = Some p \<Longrightarrow> expire p = Some p' \<Longrightarrow>
      client_step quote c w (set_thread t p' w)"
| rendezvous: "\<not> crashed w \<Longrightarrow> wd_threads w t = Some (PutFrame (Some ch) f p) \<Longrightarrow>
      wd_threads w u = Some (RecvFrame ch d k) \<Longrightarrow> \<not> sh_chanClosed (wd_shared w) ch \<Longrightarrow>
      client_step quote c w (set_thread u (k (Got f)) (set_thread t p w))"
| spawn: "\<not> crashed w \<Longrightarrow> wd_threads w t = Some (Spawn s ch p) \<Longrightarrow> wd_threads w u = None \<Longrightarrow>
      client_step quote c w (set_thread u (Return (SubAt s ch)) (set_thread t p w))"
| sub_turn: "\<not> crashed w \<Longrightarrow> wd_threads w t = Some (Return (SubAt s ch)) \<Longrightarrow>
      client_step quote c w (set_thread t (sub_readLoop_turn s ch) w)"
| loop_turn: "\<not> crashed w \<Longrightarrow> wd_threads w t = Some (Return (LoopAt l)) \<Longrightarrow> visits order \<Longrightarrow>
      take_event c l ev w = Some w' \<Longrightarrow>
      client_step quote c w (set_thread t (client_processLoop_turn quote c order ev l) w')"
| user_call: "\<not> crashed w \<Longrightarrow> wd_threads w t = None \<Longrightarrow> api_call c p \<Longrightarrow>
      client_step quote c w (set_thread t p w)"
| net_frame: "\<not> crashed w \<Longrightarrow> \<not> wd_readClosed w \<Longrightarrow> length (wd_readCh w) < cc_readCapacity c \<Longrightarrow>
      client_step quote c w (w\<lparr>wd_readCh := wd_readCh w @ [fo]\<rparr>)"
| net_end: "\<not> crashed w \<Longrightarrow> client_step quote c w (w\<lparr>wd_readClosed := True\<rparr>)"

text \<open>The world when \<open>Connect\<close> returns: goroutine \<open>0\<close> is the processing loop.\<close>

definition start_shared :: "ClientConn \<Rightarrow> bufio_writer \<Rightarrow> 64 word \<Rightarrow> Shared" where
  "start_shared c wr n =
     \<lparr>sh_lock = None, sh_closed = False, sh_connClosed = False, sh_writeCh = [], sh_writeCap = cc_writeCapacity c,
      sh_writeClosed = False, sh_lastId = n, sh_nextChan = 0, sh_chanClosed = (\<lambda>_. False),
      sh_statsEnabled = cc_statsEnabled c, sh_writesSent = 0, sh_writer = wr, sh_nextSub = 0,
      sh_subs = (\<lambda>_. new_sub_state)\<rparr>"

definition start_loop :: LoopState where
  "start_loop = \<lparr>ls_channels = Map.empty, ls_readTimer = False, ls_writeTimer = False\<rparr>"

definition start_world :: "ClientConn \<Rightarrow> bufio_writer \<Rightarrow> 64 word \<Rightarrow> World" where
  "start_world c wr n =
     \<lparr>wd_shared = start_shared c wr n, wd_threads = [0 \<mapsto> Return (LoopAt start_loop)], wd_readCh = [],
      wd_readClosed = False, wd_crash = None\<rparr>"

inductive reachable :: "(string \<Rightarrow> string) \<Rightarrow> ClientConn \<Rightarrow> World \<Rightarrow> bool" for quote c where
  start: "reachable quote c (start_world c wr n)"
| step: "reachable quote c w \<Longrightarrow> client_step quote c w w' \<Longrightarrow> reachable quote c w'"

subsection \<open>A discipline for the mutex and the write channel\<close>

text \<open>
  What a goroutine knows about the mutex of the connection: it does not hold it; it holds it;
  it holds it and has seen that the connection is not closed; it holds it and has closed the write
  channel without having set the flag yet. \<open>disciplined m p\<close> says that \<open>p\<close>, started with
  knowledge \<open>m\<close>, takes the mutex only when it does not hold it, releases it only when it does and before
  it returns, and uses the write channel only while it knows the connection open.
\<close>

datatype mode = Free | Held | HeldOpen | HeldHalf

primrec disciplined :: "'r prog \<Rightarrow> mode \<Rightarrow> bool" where
  "disciplined (Return r) m = (m = Free)"
| "disciplined (Crash s) m = True"
| "disciplined (Lock p) m = (m = Free \<and> disciplined p Held)"
| "disciplined (Unlock p) m = ((m = Held \<or> m = HeldOpen) \<and> disciplined p Free)"
| "disciplined (ReadClosed k) m =
     ((m = Held \<or> m = HeldOpen) \<and> disciplined (k True) Held \<and> disciplined (k False) HeldOpen)"
| "disciplined (SetClosed p) m = (m \<noteq> Free \<and> disciplined p Held)"
| "disciplined (CloseConn k) m = (\<forall>a. disciplined (k a) m)"
| "disciplined (CloseWriteCh p) m = (m = HeldOpen \<and> disciplined p HeldHalf)"
| "disciplined (AllocId k) m = (\<forall>a. disciplined (k a) m)"
| "disciplined (MakeChan k) m = (\<forall>a. disciplined (k a) m)"
| "disciplined (CountWrite p) m = disciplined p m"
| "disciplined (PutRequest r d k) m = (m = HeldOpen \<and> (\<forall>a. disciplined (k a) m))"
| "disciplined (RecvFrame c d k) m = (\<forall>a. disciplined (k a) m)"
| "disciplined (PutFrame c f p) m = disciplined p m"
| "disciplined (CloseChan c p) m = disciplined p m"
| "disciplined (WriteFrame f k) m = (\<forall>a. disciplined (k a) m)"
| "disciplined (NewSub k) m = (\<forall>a. disciplined (k a) m)"
| "disciplined (Spawn s c p) m = disciplined p m"
| "disciplined (CasState s i j k) m = (\<forall>a. disciplined (k a) m)"
| "disciplined (LoadState s k) m = (\<forall>a. disciplined (k a) m)"
| "disciplined (StoreState s i p) m = disciplined p m"
| "disciplined (PutMessage s msg p) m = disciplined p m"
| "disciplined (TakeMessage s k) m = (\<forall>a. disciplined (k a) m)"
| "disciplined (CloseC s p) m = disciplined p m"
| "disciplined (OnceEnter s k) m = (\<forall>a. disciplined (k a) m)"
| "disciplined (OnceLeave s p) m = disciplined p m"
| "disciplined (LockSub s p) m = disciplined p m"
| "disciplined (UnlockSub s p) m = disciplined p m"
| "disciplined (CondRegister s p) m = disciplined p m"
| "disciplined (CondBlock s d k) m = (\<forall>a. disciplined (k a) m)"
| "disciplined (Broadcast s p) m = disciplined p m"

lemma disciplined_bind:
  "disciplined p m \<Longrightarrow> (\<And>x. disciplined (q x) Free) \<Longrightarrow> disciplined (bind p q) m"
  by (induction p arbitrary: m) auto

lemma disciplined_ids: "only_ids p \<Longrightarrow> (\<And>x. disciplined (q x) m) \<Longrightarrow> disciplined (bind p q) m"
  by (induction p) auto

lemma disciplined_only_ids: "only_ids p \<Longrightarrow> disciplined p Free"
  by (induction p) auto

lemma disciplined_createSendFrame:
  assumes "opts_ok opts" and "\<And>x. disciplined (q x) m"
  shows "disciplined (bind (createSendFrame dest ctype body opts) q) m"
  unfolding createSendFrame_def Let_def bind_assoc
  by (rule disciplined_ids [OF only_ids_opts [OF assms(1)]]) (auto simp: assms(2) split: option.split)

lemma disciplined_receipt:
  "(\<And>x. disciplined (q x) m) \<Longrightarrow> disciplined (bind (readReceiptWithTimeout ch d err) q) m"
  by (auto simp: readReceiptWithTimeout_def split: reply.split)

lemma disciplined_put:
  "(\<And>x. disciplined (q x) HeldOpen) \<Longrightarrow> disciplined (bind (sendDataToWriteChWithTimeout r d) q) HeldOpen"
  by (auto simp: sendDataToWriteChWithTimeout_def)

lemma disciplined_Send: "opts_ok opts \<Longrightarrow> disciplined (Send c dest ctype body opts) Free"
  by (auto simp: Send_def post_frame_def intro!: disciplined_createSendFrame disciplined_receipt disciplined_put
      split: sum.split option.split)

lemma disciplined_sendFrame: "disciplined (sendFrame c f) Free"
  by (auto simp: sendFrame_def split: reply.split)

lemma disciplined_Subscribe: "opts_ok opts \<Longrightarrow> disciplined (Subscribe c dest ack opts) Free"
  by (auto simp: Subscribe_def Let_def choose_id_def intro!: disciplined_ids only_ids_opts
      split: go.split option.split)

lemma disciplined_MustDisconnect: "disciplined MustDisconnect Free"
  by (simp add: MustDisconnect_def)

lemma disciplined_Disconnect: "disciplined (Disconnect c) Free"
  by (auto simp: Disconnect_def intro!: disciplined_receipt split: option.split)

lemma disciplined_send_ack: "disciplined (send_ack c r) Free"
  by (auto simp: send_ack_def disciplined_sendFrame split: sum.split option.split)

lemma disciplined_finish_tx: "disciplined (finish_tx c cmd tx receipt) Free"
  by (auto simp: finish_tx_def with_receipt_def intro!: disciplined_bind disciplined_sendFrame split: option.split)

lemma disciplined_closeChannel: "disciplined p m \<Longrightarrow> disciplined (closeChannel s mo p) m"
  by (auto simp: closeChannel_def Let_def split: option.split)

lemma disciplined_unsubscribe_wait: "disciplined (unsubscribe_wait n s err) Free"
  by (induction n s err rule: unsubscribe_wait.induct) auto

lemma only_ids_unsubscribe_opts: "opts_ok opts \<Longrightarrow> only_ids (unsubscribe_opts opts f)"
  by (induction opts f rule: unsubscribe_opts.induct) (auto intro!: only_ids_bind split: option.split)

lemma disciplined_unsubscribe_opts: "opts_ok opts \<Longrightarrow> disciplined (unsubscribe_opts opts f) Free"
  by (intro disciplined_only_ids only_ids_unsubscribe_opts)

lemma disciplined_Unsubscribe: "opts_ok opts \<Longrightarrow> disciplined (Unsubscribe c s opts) Free"
  by (auto simp: Unsubscribe_def Let_def intro!: disciplined_unsubscribe_opts disciplined_bind
      disciplined_sendFrame disciplined_closeChannel disciplined_unsubscribe_wait split: option.split)

lemma disciplined_sub_Read: "disciplined (sub_Read s) Free"
  by (auto simp: sub_Read_def sub_Active_def split: option.split)

lemma disciplined_api: "api_call c p \<Longrightarrow> disciplined p Free"
  by (induction rule: api_call.induct)
     (auto simp: call_def call_tx_def call_sub_def call_read_def Conn_Ack_def Conn_Nack_def Tx_Ack_def Tx_Nack_def
       Tx_Send_def Tx_abort_def Tx_commit_def BeginWithError_def
       intro!: disciplined_bind disciplined_Send disciplined_Subscribe disciplined_send_ack disciplined_finish_tx
         disciplined_Unsubscribe disciplined_sub_Read disciplined_Disconnect disciplined_MustDisconnect
         disciplined_sendFrame disciplined_createSendFrame
       split: sum.split)

lemma disciplined_leave: "disciplined leave Free"
  by (auto simp: leave_def intro!: disciplined_bind disciplined_MustDisconnect)

lemma disciplined_foldr:
  "disciplined p Free \<Longrightarrow> (\<And>ch q. disciplined q Free \<Longrightarrow> disciplined (g ch q) Free) \<Longrightarrow>
     disciplined (foldr g chs p) Free"
  by (induction chs) auto

lemma disciplined_sendError: "disciplined (sendError quote order m err leave) Free"
  unfolding sendError_def by (rule disciplined_foldr [OF disciplined_leave]) simp

lemma disciplined_write_request: "disciplined (write_request quote order f l) Free"
  by (auto simp: write_request_def disciplined_sendError split: option.split)

lemma disciplined_on_frame: "disciplined (on_frame quote order f l) Free"
  by (auto simp: on_frame_def disciplined_sendError disciplined_leave intro!: disciplined_foldr split: option.split)

lemma disciplined_loop: "disciplined (client_processLoop_turn quote c order ev l) Free"
  by (auto simp: client_processLoop_turn_def Let_def on_request_def disciplined_sendError disciplined_on_frame
      disciplined_write_request split: loop_event.split option.split)

lemma disciplined_sub_turn: "disciplined (sub_readLoop_turn s ch) Free"
  by (auto simp: sub_readLoop_turn_def intro!: disciplined_closeChannel split: reply.split)

subsection \<open>No misuse of the mutex and of the write channel\<close>

text \<open>
  The knowledge of goroutine \<open>t\<close> agrees with the state, and the flag follows the channel: when
  the write channel is closed and the flag is not set, the goroutine that is closing holds the mutex.
\<close>

definition knows :: "tid \<Rightarrow> mode \<Rightarrow> Shared \<Rightarrow> bool" where
  "knows t m S =
     (if sh_lock S = Some t
      then (case m of
              Free \<Rightarrow> False
            | Held \<Rightarrow> sh_writeClosed S \<longrightarrow> sh_closed S
            | HeldOpen \<Rightarrow> \<not> sh_closed S \<and> \<not> sh_writeClosed S
            | HeldHalf \<Rightarrow> True)
      else m = Free)"

definition flag_follows :: "Shared \<Rightarrow> bool" where
  "flag_follows S \<longleftrightarrow> (sh_writeClosed S \<and> \<not> sh_closed S \<longrightarrow> sh_lock S \<noteq> None)"

definition lock_inv :: "World \<Rightarrow> bool" where
  "lock_inv w \<longleftrightarrow> flag_follows (wd_shared w) \<and>
     (\<exists>mode. \<forall>t. knows t (mode t) (wd_shared w) \<and>
        (case wd_threads w t of None \<Rightarrow> mode t = Free | Some p \<Rightarrow> disciplined p (mode t)))"

lemma knows_upd_sub [simp]:
  "knows t m (upd_sub s g S) = knows t m S" "flag_follows (upd_sub s g S) = flag_follows S"
  by (simp_all add: knows_def flag_follows_def upd_sub_def split: mode.split)

lemma knows_upds [simp]:
  "knows t m (S\<lparr>sh_connClosed := b\<rparr>) = knows t m S" "knows t m (S\<lparr>sh_writeCh := q\<rparr>) = knows t m S"
  "knows t m (S\<lparr>sh_lastId := i\<rparr>) = knows t m S" "knows t m (S\<lparr>sh_nextChan := n\<rparr>) = knows t m S"
  "knows t m (S\<lparr>sh_chanClosed := cl\<rparr>) = knows t m S" "knows t m (S\<lparr>sh_writesSent := x\<rparr>) = knows t m S"
  "knows t m (S\<lparr>sh_writer := wr\<rparr>) = knows t m S" "knows t m (S\<lparr>sh_nextSub := n\<rparr>) = knows t m S"
  "knows t m (S\<lparr>sh_subs := ss\<rparr>) = knows t m S"
  by (simp_all add: knows_def split: mode.split)

lemma flag_upds [simp]:
  "flag_follows (S\<lparr>sh_connClosed := b\<rparr>) = flag_follows S" "flag_follows (S\<lparr>sh_writeCh := q\<rparr>) = flag_follows S"
  "flag_follows (S\<lparr>sh_lastId := i\<rparr>) = flag_follows S" "flag_follows (S\<lparr>sh_nextChan := n\<rparr>) = flag_follows S"
  "flag_follows (S\<lparr>sh_chanClosed := cl\<rparr>) = flag_follows S" "flag_follows (S\<lparr>sh_writesSent := x\<rparr>) = flag_follows S"
  "flag_follows (S\<lparr>sh_writer := wr\<rparr>) = flag_follows S" "flag_follows (S\<lparr>sh_nextSub := n\<rparr>) = flag_follows S"
  "flag_follows (S\<lparr>sh_subs := ss\<rparr>) = flag_follows S"
  by (simp_all add: flag_follows_def)

text \<open>An action of a disciplined program keeps its knowledge right and disturbs nobody else's.\<close>

definition undisturbed :: "tid \<Rightarrow> Shared \<Rightarrow> Shared \<Rightarrow> bool" where
  "undisturbed t S S' \<longleftrightarrow> (\<forall>u m. u \<noteq> t \<longrightarrow> knows u m S \<longrightarrow> knows u m S')"

lemma undisturbed_same: "(\<And>u m. knows u m S' = knows u m S) \<Longrightarrow> undisturbed t S S'"
  by (simp add: undisturbed_def)

fun gate_action :: "'r prog \<Rightarrow> bool" where
  "gate_action (Lock p) = True"
| "gate_action (Unlock p) = True"
| "gate_action (ReadClosed k) = True"
| "gate_action (SetClosed p) = True"
| "gate_action (CloseWriteCh p) = True"
| "gate_action _ = False"

lemma fire_plain:
  "fire t ce p S = Some (p', S') \<Longrightarrow> \<not> gate_action p \<Longrightarrow> disciplined p m \<Longrightarrow>
     disciplined p' m \<and> (\<forall>u n. knows u n S' = knows u n S) \<and> flag_follows S' = flag_follows S"
  by (cases p rule: gate_action.cases) (auto simp: Let_def split: if_splits option.splits list.splits once.splits prod.splits)

lemma knows_not_holder: "sh_lock S \<noteq> Some u \<Longrightarrow> knows u m S \<longleftrightarrow> m = Free"
  by (auto simp: knows_def)

lemma undisturbedI:
  "sh_lock S \<in> {None, Some t} \<Longrightarrow> sh_lock S' \<in> {None, Some t} \<Longrightarrow> undisturbed t S S'"
  by (auto simp: undisturbed_def knows_not_holder)

lemma fire_lock:
  assumes "flag_follows S" and "fire t ce (Lock q) S = Some (p', S')"
  shows "p' = q \<and> knows t Held S' \<and> flag_follows S' \<and> undisturbed t S S'"
proof -
  from assms(2) have "p' = q" "S' = S\<lparr>sh_lock := Some t\<rparr>" "sh_lock S = None" by (simp_all split: if_splits)
  with assms(1) show ?thesis by (simp add: undisturbedI) (simp add: knows_def flag_follows_def)
qed

lemma fire_unlock:
  assumes "knows t m S" and "m = Held \<or> m = HeldOpen" and "fire t ce (Unlock q) S = Some (p', S')"
  shows "p' = q \<and> knows t Free S' \<and> flag_follows S' \<and> undisturbed t S S'"
proof -
  from assms(1,2) have l: "sh_lock S = Some t" "sh_writeClosed S \<longrightarrow> sh_closed S"
    by (auto simp: knows_def split: if_splits)
  with assms(3) have "p' = q" "S' = S\<lparr>sh_lock := None\<rparr>" by simp_all
  with l show ?thesis by (simp add: undisturbedI) (simp add: knows_def flag_follows_def)
qed

lemma fire_set:
  assumes "knows t m S" and "m \<noteq> Free" and "fire t ce (SetClosed q) S = Some (p', S')"
  shows "p' = q \<and> knows t Held S' \<and> flag_follows S' \<and> undisturbed t S S'"
proof -
  from assms(1,2) have l: "sh_lock S = Some t" by (simp add: knows_def split: if_splits)
  from assms(3) have "p' = q" "S' = S\<lparr>sh_closed := True\<rparr>" by simp_all
  with l show ?thesis by (simp add: undisturbedI) (simp add: knows_def flag_follows_def)
qed

lemma fire_close:
  assumes "knows t HeldOpen S" and "fire t ce (CloseWriteCh q) S = Some (p', S')"
  shows "p' = q \<and> knows t HeldHalf S' \<and> flag_follows S' \<and> undisturbed t S S'"
proof -
  from assms(1) have l: "sh_lock S = Some t" "\<not> sh_writeClosed S" "\<not> sh_closed S"
    by (simp_all add: knows_def split: if_splits)
  with assms(2) have "p' = q" "S' = S\<lparr>sh_writeClosed := True\<rparr>" by simp_all
  with l show ?thesis by (simp add: undisturbedI) (simp add: knows_def flag_follows_def)
qed

lemma knows_read:
  "knows t m S \<Longrightarrow> m = Held \<or> m = HeldOpen \<Longrightarrow> knows t (if sh_closed S then Held else HeldOpen) S"
  by (auto simp: knows_def split: if_splits)

lemma gate_action_cases:
  assumes "gate_action p"
  obtains (lock) q where "p = Lock q" | (unlock) q where "p = Unlock q" | (read) k where "p = ReadClosed k"
    | (set) q where "p = SetClosed q" | (close) q where "p = CloseWriteCh q"
  using assms by (cases p) simp_all

lemma fire_disciplined:
  assumes d: "disciplined p m" and k: "knows t m S" and f: "flag_follows S" and s: "fire t ce p S = Some (p', S')"
  shows "\<exists>m'. disciplined p' m' \<and> knows t m' S' \<and> flag_follows S' \<and> undisturbed t S S'"
proof (cases "gate_action p")
  case False
  with fire_plain [OF s False d] k f show ?thesis
    by (intro exI [of _ m]) (simp add: undisturbed_same)
next
  case True
  then show ?thesis
  proof (cases rule: gate_action_cases)
    case (lock q)
    with fire_lock [OF f, of t ce q p' S'] d s show ?thesis by auto
  next
    case (unlock q)
    with fire_unlock [OF k, of ce q p' S'] d s show ?thesis by auto
  next
    case (read q)
    with s have e: "p' = q (sh_closed S)" "S' = S" by auto
    from read d knows_read [OF k] show ?thesis
      unfolding e by (intro exI [of _ "if sh_closed S then Held else HeldOpen"]) (simp add: f undisturbed_same)
  next
    case (set q)
    with fire_set [OF k, of ce q p' S'] d s show ?thesis by auto
  next
    case (close q)
    with fire_close [of t S ce q p' S'] d k s show ?thesis by auto
  qed
qed

lemma expire_disciplined: "expire p = Some p' \<Longrightarrow> disciplined p m \<Longrightarrow> disciplined p' m"
  by (cases p) (auto split: if_splits)

lemma lock_inv_thread:
  assumes inv: "lock_inv w" and thread: "wd_threads w t = Some p"
    and step: "\<And>m. disciplined p m \<Longrightarrow> knows t m (wd_shared w) \<Longrightarrow>
      \<exists>m'. disciplined p' m' \<and> knows t m' S' \<and> flag_follows S' \<and> undisturbed t (wd_shared w) S'"
    and w': "wd_threads w' = (wd_threads w)(t \<mapsto> p')" "wd_shared w' = S'"
  shows "lock_inv w'"
proof -
  from inv obtain mode where mode: "\<And>u. knows u (mode u) (wd_shared w)"
    "\<And>u. case wd_threads w u of None \<Rightarrow> mode u = Free | Some p \<Rightarrow> disciplined p (mode u)"
    unfolding lock_inv_def by blast
  from mode(2) [of t] thread have "disciplined p (mode t)" by simp
  from step [OF this mode(1)] obtain m' where m': "disciplined p' m'" "knows t m' S'" "flag_follows S'"
    "undisturbed t (wd_shared w) S'" by blast
  have "knows u ((mode(t := m')) u) S' \<and>
      (case wd_threads w' u of None \<Rightarrow> (mode(t := m')) u = Free | Some p \<Rightarrow> disciplined p ((mode(t := m')) u))" for u
    using mode [of u] m' w'(1) by (cases "u = t") (simp_all add: undisturbed_def split: option.splits)
  with m'(3) show ?thesis unfolding lock_inv_def w'(2) by blast
qed

lemma lock_inv_quiet:
  assumes "lock_inv w" and "wd_threads w t = Some p" and "\<And>m. disciplined p m \<Longrightarrow> disciplined p' m"
  shows "lock_inv (set_thread t p' w)"
  by (rule lock_inv_thread [OF assms(1,2), where p' = p' and S' = "wd_shared w"])
     (use assms in \<open>auto simp: lock_inv_def undisturbed_def\<close>)

lemma lock_inv_new:
  assumes "lock_inv w" and "wd_threads w t = None" and "disciplined p Free"
  shows "lock_inv (set_thread t p w)"
proof -
  from assms(1) obtain mode where mode: "\<And>u. knows u (mode u) (wd_shared w)"
    "\<And>u. case wd_threads w u of None \<Rightarrow> mode u = Free | Some p \<Rightarrow> disciplined p (mode u)"
    unfolding lock_inv_def by blast
  then have "case wd_threads (set_thread t p w) u of None \<Rightarrow> mode u = Free | Some p \<Rightarrow> disciplined p (mode u)" for u
    using mode(2) [of u] mode(2) [of t] assms(2,3) by simp
  with mode(1) have "\<exists>mode. \<forall>u. knows u (mode u) (wd_shared w) \<and>
      (case wd_threads (set_thread t p w) u of None \<Rightarrow> mode u = Free | Some p \<Rightarrow> disciplined p (mode u))" by blast
  moreover have "wd_shared (set_thread t p w) = wd_shared w" by simp
  ultimately show ?thesis using assms(1) unfolding lock_inv_def by metis
qed

lemma lock_inv_same_threads:
  "wd_threads w' = wd_threads w \<Longrightarrow> (\<And>t m. knows t m (wd_shared w') = knows t m (wd_shared w)) \<Longrightarrow>
     flag_follows (wd_shared w') = flag_follows (wd_shared w) \<Longrightarrow> lock_inv w' = lock_inv w"
  by (simp add: lock_inv_def)

lemma take_event_same:
  assumes "take_event c l ev w = Some w'"
  shows "wd_threads w' = wd_threads w" "knows t m (wd_shared w') = knows t m (wd_shared w)"
    "flag_follows (wd_shared w') = flag_follows (wd_shared w)"
  using assms by (cases ev; auto split: if_splits list.splits)+

lemma lock_inv_step: "client_step quote c w w' \<Longrightarrow> lock_inv w \<Longrightarrow> lock_inv w'"
proof (induction rule: client_step.induct)
  case (act w t p ce p' S)
  then show ?case
    by (intro lock_inv_thread [OF act.prems act.hyps(2), where p' = p' and S' = S])
       (auto simp: lock_inv_def intro: fire_disciplined)
next
  case (timeout w t p p')
  then show ?case by (auto intro: lock_inv_quiet expire_disciplined)
next
  case (rendezvous w t ch f p u d k)
  then have "t \<noteq> u" by auto
  with rendezvous have "wd_threads (set_thread t p w) u = Some (RecvFrame ch d k)" by simp
  moreover from rendezvous have "lock_inv (set_thread t p w)" by (auto intro: lock_inv_quiet)
  ultimately show ?case by (auto intro: lock_inv_quiet)
next
  case (spawn w t s ch p u)
  then have "t \<noteq> u" by auto
  with spawn have "wd_threads (set_thread t p w) u = None" by simp
  moreover from spawn have "lock_inv (set_thread t p w)" by (auto intro: lock_inv_quiet)
  ultimately show ?case by (auto intro: lock_inv_new)
next
  case (sub_turn w t s ch)
  then show ?case by (auto intro!: lock_inv_quiet disciplined_sub_turn)
next
  case (loop_turn w t l order ev w')
  note same = take_event_same [OF loop_turn.hyps(4)]
  from loop_turn.prems have "lock_inv w'" by (simp add: lock_inv_same_threads [OF same(1) same(2) same(3)])
  with loop_turn same(1) show ?case by (auto intro!: lock_inv_quiet disciplined_loop)
next
  case (user_call w t p)
  then show ?case by (auto intro: lock_inv_new disciplined_api)
next
  case (net_frame w fo)
  then show ?case by (simp add: lock_inv_def)
next
  case (net_end w)
  then show ?case by (simp add: lock_inv_def)
qed

lemma lock_inv_start: "lock_inv (start_world c wr n)"
  by (auto simp: lock_inv_def start_world_def start_shared_def flag_follows_def knows_def intro!: exI [of _ "\<lambda>_. Free"])

lemma lock_inv_reachable: "reachable quote c w \<Longrightarrow> lock_inv w"
  by (induction rule: reachable.induct) (auto intro: lock_inv_start lock_inv_step)

text \<open>
  Ways to misuse the mutex and the write channel: a goroutine puts a request on the write channel
  although the connection is closed, closes the channel again, releases a mutex it does not hold, or
  ends without releasing it.
\<close>

definition gate_misuse :: "World \<Rightarrow> bool" where
  "gate_misuse w \<longleftrightarrow>
     (\<exists>t. case wd_threads w t of
        Some (PutRequest r d k) \<Rightarrow> sh_writeClosed (wd_shared w) \<or> sh_closed (wd_shared w)
      | Some (CloseWriteCh p) \<Rightarrow> sh_writeClosed (wd_shared w)
      | Some (Unlock p) \<Rightarrow> sh_lock (wd_shared w) \<noteq> Some t
      | Some (Return r) \<Rightarrow> sh_lock (wd_shared w) = Some t
      | Some _ \<Rightarrow> False
      | None \<Rightarrow> sh_lock (wd_shared w) = Some t)"

lemma lock_inv_safe:
  assumes "lock_inv w"
  shows "\<not> gate_misuse w"
proof -
  obtain mode where mode: "\<And>t. knows t (mode t) (wd_shared w)"
    "\<And>t. case wd_threads w t of None \<Rightarrow> mode t = Free | Some p \<Rightarrow> disciplined p (mode t)"
    using assms unfolding lock_inv_def by blast
  have "\<not> (case wd_threads w t of
        Some (PutRequest r d k) \<Rightarrow> sh_writeClosed (wd_shared w) \<or> sh_closed (wd_shared w)
      | Some (CloseWriteCh p) \<Rightarrow> sh_writeClosed (wd_shared w)
      | Some (Unlock p) \<Rightarrow> sh_lock (wd_shared w) \<noteq> Some t
      | Some (Return r) \<Rightarrow> sh_lock (wd_shared w) = Some t
      | Some _ \<Rightarrow> False
      | None \<Rightarrow> sh_lock (wd_shared w) = Some t)" for t
    using mode [of t] by (auto simp: knows_def split: if_splits option.splits prog.splits)
  then show ?thesis unfolding gate_misuse_def by blast
qed

subsection \<open>The wait of Unsubscribe\<close>

text \<open>
  \<open>patient p K\<close>: started when the subscriptions in \<open>K\<close> are closed, \<open>p\<close> wakes waiters only after closing,
  never reopens a subscription, and does not run out of the rounds that bound the wait.
\<close>

primrec patient :: "'r prog \<Rightarrow> nat set \<Rightarrow> bool" where
  "patient (Return r) K = True"
| "patient (Crash m) K = (m \<noteq> ''out of rounds'')"
| "patient (Lock p) K = patient p K"
| "patient (Unlock p) K = patient p K"
| "patient (ReadClosed k) K = (\<forall>a. patient (k a) K)"
| "patient (SetClosed p) K = patient p K"
| "patient (CloseConn k) K = (\<forall>a. patient (k a) K)"
| "patient (CloseWriteCh p) K = patient p K"
| "patient (AllocId k) K = (\<forall>a. patient (k a) K)"
| "patient (MakeChan k) K = (\<forall>a. patient (k a) K)"
| "patient (CountWrite p) K = patient p K"
| "patient (PutRequest r d k) K = (\<forall>a. patient (k a) K)"
| "patient (RecvFrame c d k) K = (\<forall>a. patient (k a) K)"
| "patient (PutFrame c f p) K = patient p K"
| "patient (CloseChan c p) K = patient p K"
| "patient (WriteFrame f k) K = (\<forall>a. patient (k a) K)"
| "patient (NewSub k) K = (\<forall>a. patient (k a) K)"
| "patient (Spawn s c p) K = patient p K"
| "patient (CasState s i j k) K = (i \<noteq> subStateClosed \<and> (\<forall>a. patient (k a) K))"
| "patient (LoadState s k) K = (\<forall>v. (s \<in> K \<longrightarrow> v = subStateClosed) \<longrightarrow> patient (k v) (if v = subStateClosed then insert s K else K))"
| "patient (StoreState s i p) K = (i = subStateClosed \<and> patient p (insert s K))"
| "patient (PutMessage s msg p) K = patient p K"
| "patient (TakeMessage s k) K = (\<forall>a. patient (k a) K)"
| "patient (CloseC s p) K = patient p K"
| "patient (OnceEnter s k) K = (\<forall>a. patient (k a) K)"
| "patient (OnceLeave s p) K = patient p K"
| "patient (LockSub s p) K = patient p K"
| "patient (UnlockSub s p) K = patient p K"
| "patient (CondRegister s p) K = patient p K"
| "patient (CondBlock s d k) K = (patient (k True) (insert s K) \<and> patient (k False) K)"
| "patient (Broadcast s p) K = (s \<in> K \<and> patient p K)"

lemma patient_mono: "patient p K \<Longrightarrow> K \<subseteq> K' \<Longrightarrow> patient p K'"
proof (induction p arbitrary: K K')
  case (LoadState s k)
  show ?case
  proof (simp only: patient.simps, intro allI impI)
    fix v
    assume "s \<in> K' \<longrightarrow> v = subStateClosed"
    with LoadState.prems(2) have "s \<in> K \<longrightarrow> v = subStateClosed" by auto
    with LoadState.prems(1) have "patient (k v) (if v = subStateClosed then insert s K else K)" by simp
    then show "patient (k v) (if v = subStateClosed then insert s K' else K')"
      using LoadState.IH LoadState.prems(2) by (cases "v = subStateClosed") (auto intro: LoadState.IH)
  qed
next
  case (StoreState s i p)
  then show ?case by (auto intro: StoreState.IH)
next
  case (CondBlock s d k)
  have "patient (k True) (insert s K')" "patient (k False) K'"
    using CondBlock.prems CondBlock.IH [of "k True" "insert s K" "insert s K'"] CondBlock.IH [of "k False" K K'] by auto
  then show ?case by simp
next
  case (Broadcast s p)
  then show ?case by auto
qed (simp_all, (metis rangeI)+)

lemma patient_bind: "patient p K \<Longrightarrow> (\<And>x. patient (q x) {}) \<Longrightarrow> patient (bind p q) K"
  by (induction p arbitrary: K) (auto intro: patient_mono)

lemma patient_ids: "only_ids p \<Longrightarrow> patient p K"
  by (induction p) auto

lemma patient_opts:
  "opts_ok opts \<Longrightarrow> patient (apply_frame_opts opts f) K" "opts_ok opts \<Longrightarrow> patient (unsubscribe_opts opts f) K"
  by (simp_all add: patient_ids only_ids_opts only_ids_unsubscribe_opts)

lemma patient_createSendFrame: "opts_ok opts \<Longrightarrow> patient (createSendFrame dest ctype body opts) {}"
  by (auto simp: createSendFrame_def Let_def intro!: patient_bind patient_opts split: option.split)

lemma patient_put: "patient (sendDataToWriteChWithTimeout r d) {}"
  by (simp add: sendDataToWriteChWithTimeout_def)

lemma patient_receipt: "patient (readReceiptWithTimeout c d err) {}"
  by (simp add: readReceiptWithTimeout_def split: reply.split)

lemma patient_Send: "opts_ok opts \<Longrightarrow> patient (Send c dest ctype body opts) {}"
  by (auto simp: Send_def post_frame_def intro!: patient_bind patient_createSendFrame patient_receipt patient_put
      split: sum.split option.split)

lemma patient_sendFrame: "patient (sendFrame c f) K"
  by (auto simp: sendFrame_def split: reply.split)

lemma patient_Subscribe: "opts_ok opts \<Longrightarrow> patient (Subscribe c dest ack opts) {}"
  by (auto simp: Subscribe_def Let_def choose_id_def AckMode_String_def intro!: patient_bind patient_opts
      split: go.split option.split if_splits)

lemma patient_MustDisconnect: "patient MustDisconnect {}"
  by (simp add: MustDisconnect_def)

lemma patient_Disconnect: "patient (Disconnect c) {}"
  by (auto simp: Disconnect_def intro!: patient_bind patient_receipt split: option.split)

lemma patient_send_ack: "patient (send_ack c r) {}"
  by (auto simp: send_ack_def patient_sendFrame split: sum.split option.split)

lemma patient_finish_tx: "patient (finish_tx c cmd tx receipt) {}"
  by (auto simp: finish_tx_def with_receipt_def intro!: patient_bind patient_sendFrame split: option.split)

lemma patient_closeChannel: "(\<And>K. patient p K) \<Longrightarrow> patient (closeChannel s mo p) K"
  by (auto simp: closeChannel_def Let_def split: option.split)

lemma patient_wait: "patient (unsubscribe_wait 2 s err) K"
  by (simp add: numeral_2_eq_2)

lemma patient_Unsubscribe: "opts_ok opts \<Longrightarrow> patient (Unsubscribe c s opts) {}"
  by (auto simp: Unsubscribe_def Let_def patient_wait intro!: patient_bind patient_opts patient_sendFrame
      patient_closeChannel split: option.split)

lemma patient_sub_Read: "patient (sub_Read s) {}"
  by (auto simp: sub_Read_def sub_Active_def split: option.split)

lemma patient_api: "api_call c p \<Longrightarrow> patient p {}"
  by (induction rule: api_call.induct)
     (auto simp: call_def call_tx_def call_sub_def call_read_def Conn_Ack_def Conn_Nack_def Tx_Ack_def Tx_Nack_def
       Tx_Send_def Tx_abort_def Tx_commit_def BeginWithError_def
       intro!: patient_bind patient_Send patient_Subscribe patient_send_ack patient_finish_tx
         patient_Unsubscribe patient_sub_Read patient_Disconnect patient_MustDisconnect
         patient_sendFrame patient_createSendFrame
       split: sum.split)

lemma patient_leave: "patient leave {}"
  by (auto simp: leave_def intro!: patient_bind patient_MustDisconnect)

lemma patient_foldr:
  "patient p {} \<Longrightarrow> (\<And>ch q. patient q {} \<Longrightarrow> patient (g ch q) {}) \<Longrightarrow> patient (foldr g chs p) {}"
  by (induction chs) auto

lemma patient_sendError: "patient (sendError quote order m err leave) {}"
  unfolding sendError_def by (rule patient_foldr [OF patient_leave]) simp

lemma patient_loop: "patient (client_processLoop_turn quote c order ev l) {}"
  by (auto simp: client_processLoop_turn_def Let_def on_request_def on_frame_def write_request_def patient_sendError
      patient_leave intro!: patient_foldr split: loop_event.split option.split)

lemma patient_sub_turn: "patient (sub_readLoop_turn s ch) {}"
  by (auto simp: sub_readLoop_turn_def intro!: patient_closeChannel split: reply.split)

definition closed_subs :: "Shared \<Rightarrow> nat set" where
  "closed_subs S = {s. ss_state (sh_subs S s) = subStateClosed}"

definition woken_closed :: "Shared \<Rightarrow> bool" where
  "woken_closed S \<longleftrightarrow> (\<forall>s. 0 < ss_woken (sh_subs S s) \<longrightarrow> s \<in> closed_subs S)"

lemma sub_upds [simp]:
  "(\<And>x. ss_state (g x) = ss_state x) \<Longrightarrow> closed_subs (upd_sub s g S) = closed_subs S"
  "(\<And>x. ss_state (g x) = ss_state x) \<Longrightarrow> (\<And>x. ss_woken (g x) \<le> ss_woken x) \<Longrightarrow> woken_closed S \<Longrightarrow>
     woken_closed (upd_sub s g S)"
  by (auto simp: closed_subs_def woken_closed_def upd_sub_def split: if_splits)
     (metis le_zero_eq not_gr_zero)

lemma shared_upds [simp]:
  "closed_subs (S\<lparr>sh_lock := l\<rparr>) = closed_subs S" "closed_subs (S\<lparr>sh_closed := b\<rparr>) = closed_subs S"
  "closed_subs (S\<lparr>sh_connClosed := b\<rparr>) = closed_subs S" "closed_subs (S\<lparr>sh_writeCh := q\<rparr>) = closed_subs S"
  "closed_subs (S\<lparr>sh_writeClosed := b\<rparr>) = closed_subs S" "closed_subs (S\<lparr>sh_lastId := i\<rparr>) = closed_subs S"
  "closed_subs (S\<lparr>sh_nextChan := n\<rparr>) = closed_subs S" "closed_subs (S\<lparr>sh_chanClosed := cl\<rparr>) = closed_subs S"
  "closed_subs (S\<lparr>sh_writesSent := x\<rparr>) = closed_subs S" "closed_subs (S\<lparr>sh_writer := wr\<rparr>) = closed_subs S"
  "closed_subs (S\<lparr>sh_nextSub := n\<rparr>) = closed_subs S"
  "woken_closed (S\<lparr>sh_lock := l\<rparr>) = woken_closed S" "woken_closed (S\<lparr>sh_closed := b\<rparr>) = woken_closed S"
  "woken_closed (S\<lparr>sh_connClosed := b\<rparr>) = woken_closed S" "woken_closed (S\<lparr>sh_writeCh := q\<rparr>) = woken_closed S"
  "woken_closed (S\<lparr>sh_writeClosed := b\<rparr>) = woken_closed S" "woken_closed (S\<lparr>sh_lastId := i\<rparr>) = woken_closed S"
  "woken_closed (S\<lparr>sh_nextChan := n\<rparr>) = woken_closed S" "woken_closed (S\<lparr>sh_chanClosed := cl\<rparr>) = woken_closed S"
  "woken_closed (S\<lparr>sh_writesSent := x\<rparr>) = woken_closed S" "woken_closed (S\<lparr>sh_writer := wr\<rparr>) = woken_closed S"
  "woken_closed (S\<lparr>sh_nextSub := n\<rparr>) = woken_closed S"
  by (simp_all add: closed_subs_def woken_closed_def)

lemma closed_state [simp]: "ss_state (sh_subs S s) \<noteq> subStateClosed \<Longrightarrow> s \<notin> closed_subs S"
  by (simp add: closed_subs_def)

lemma set_state:
  "closed_subs (upd_sub s (\<lambda>x. x\<lparr>ss_state := i\<rparr>) S) =
     (if i = subStateClosed then insert s (closed_subs S) else closed_subs S - {s})"
  by (auto simp: closed_subs_def upd_sub_def)

lemma set_state_woken:
  "woken_closed S \<Longrightarrow> i = subStateClosed \<or> s \<notin> closed_subs S \<Longrightarrow>
     woken_closed (upd_sub s (\<lambda>x. x\<lparr>ss_state := i\<rparr>) S)"
  by (auto simp: woken_closed_def set_state) (auto simp: upd_sub_def split: if_splits)

lemma fire_patient:
  assumes "fire t ce p S = Some (p', S')" and "patient p (closed_subs S)" and "woken_closed S"
  shows "patient p' (closed_subs S') \<and> closed_subs S \<subseteq> closed_subs S' \<and> woken_closed S'"
proof (cases p)
  case (LoadState s k)
  let ?v = "ss_state (sh_subs S s)"
  from assms(2) LoadState have all: "\<forall>v. (s \<in> closed_subs S \<longrightarrow> v = subStateClosed) \<longrightarrow>
      patient (k v) (if v = subStateClosed then insert s (closed_subs S) else closed_subs S)" by simp
  have "s \<in> closed_subs S \<longrightarrow> ?v = subStateClosed" by (simp add: closed_subs_def)
  with all have "patient (k ?v) (if ?v = subStateClosed then insert s (closed_subs S) else closed_subs S)" by blast
  moreover have "(if ?v = subStateClosed then insert s (closed_subs S) else closed_subs S) = closed_subs S"
    by (auto simp: closed_subs_def)
  ultimately show ?thesis using assms LoadState by auto
next
  case (CasState s i j k)
  show ?thesis
  proof (cases "ss_state (sh_subs S s) = i")
    case True
    with CasState assms have e: "p' = k True" "S' = upd_sub s (\<lambda>x. x\<lparr>ss_state := j\<rparr>) S" "s \<notin> closed_subs S"
      by auto
    then have sub: "closed_subs S \<subseteq> closed_subs S'" by (auto simp: set_state)
    have "patient (k True) (closed_subs S)" using CasState assms(2) by simp
    with e sub assms(3) show ?thesis by (auto intro: patient_mono set_state_woken)
  next
    case False
    with CasState assms show ?thesis by auto
  qed
next
  case (StoreState s i q)
  with assms have e: "p' = q" "S' = upd_sub s (\<lambda>x. x\<lparr>ss_state := i\<rparr>) S" "i = subStateClosed"
    "patient q (insert s (closed_subs S))" by auto
  with assms(3) show ?thesis by (auto simp: set_state intro: set_state_woken)
next
  case (CondBlock s d k)
  with assms have e: "p' = k True" "0 < ss_woken (sh_subs S s)" "patient (k True) (insert s (closed_subs S))"
    "S' = upd_sub s (\<lambda>x. x\<lparr>ss_locked := True, ss_woken := ss_woken x - 1\<rparr>) S" by (auto split: if_splits)
  with assms(3) have "insert s (closed_subs S) = closed_subs S" by (auto simp: woken_closed_def)
  with e assms(3) show ?thesis by simp
next
  case (Broadcast s q)
  with assms have e: "p' = q" "s \<in> closed_subs S" "patient q (closed_subs S)"
    "S' = upd_sub s (\<lambda>x. x\<lparr>ss_waiting := 0, ss_woken := ss_woken x + ss_waiting x\<rparr>) S" by auto
  with assms(3) have "woken_closed S'" by (auto simp: woken_closed_def) (auto simp: upd_sub_def split: if_splits)
  with e show ?thesis by simp
qed (use assms in \<open>auto simp: Let_def split: if_splits option.splits list.splits once.splits prod.splits\<close>)

definition patient_inv :: "World \<Rightarrow> bool" where
  "patient_inv w \<longleftrightarrow> woken_closed (wd_shared w) \<and> wd_crash w \<noteq> Some ''out of rounds'' \<and>
     (\<forall>t p. wd_threads w t = Some p \<longrightarrow> patient p (closed_subs (wd_shared w)))"

lemma patient_inv_thread:
  assumes "patient_inv w" and "patient p (closed_subs (wd_shared w))"
  shows "patient_inv (set_thread t p w)"
  using assms by (cases p) (auto simp: patient_inv_def set_thread_def)

lemma patient_any: "patient p {} \<Longrightarrow> patient p K"
  using patient_mono [of p "{}" K] by simp

lemma expire_patient: "expire p = Some p' \<Longrightarrow> patient p K \<Longrightarrow> patient p' K"
  by (cases p) (auto split: if_splits)

lemma patient_inv_get: "patient_inv w \<Longrightarrow> wd_threads w t = Some p \<Longrightarrow> patient p (closed_subs (wd_shared w))"
  by (simp add: patient_inv_def)

lemma patient_inv_step: "client_step quote c w w' \<Longrightarrow> patient_inv w \<Longrightarrow> patient_inv w'"
proof (induction rule: client_step.induct)
  case (act w t p ce p' S)
  from act.prems act.hyps(2) have "patient p (closed_subs (wd_shared w))" "woken_closed (wd_shared w)"
    by (auto simp: patient_inv_def)
  note f = fire_patient [OF act.hyps(3) this]
  have "patient q (closed_subs S)" if "wd_threads w u = Some q" for u q
    using patient_mono [OF patient_inv_get [OF act.prems that]] f by blast
  with act.prems f have "patient_inv (w\<lparr>wd_shared := S\<rparr>)" by (simp add: patient_inv_def)
  with f show ?case by (simp add: patient_inv_thread)
next
  case (timeout w t p p')
  then show ?case using patient_inv_thread expire_patient patient_inv_get by metis
next
  case (rendezvous w t ch f p u d k)
  from patient_inv_get [OF rendezvous.prems rendezvous.hyps(2)] patient_inv_get [OF rendezvous.prems rendezvous.hyps(3)]
  show ?case using rendezvous.prems by (simp add: patient_inv_thread)
next
  case (spawn w t s ch p u)
  from patient_inv_get [OF spawn.prems spawn.hyps(2)] show ?case
    using spawn.prems by (simp add: patient_inv_thread)
next
  case (sub_turn w t s ch)
  then show ?case by (simp add: patient_inv_thread patient_any [OF patient_sub_turn])
next
  case (loop_turn w t l order ev w')
  have "sh_subs (wd_shared w') = sh_subs (wd_shared w)" "wd_crash w' = wd_crash w" "wd_threads w' = wd_threads w"
    using loop_turn.hyps(4) by (cases ev; auto split: if_splits list.splits)+
  with loop_turn.prems have "patient_inv w'" by (simp add: patient_inv_def woken_closed_def closed_subs_def)
  then show ?case by (simp add: patient_inv_thread patient_any [OF patient_loop])
next
  case (user_call w t p)
  then show ?case by (simp add: patient_inv_thread patient_any [OF patient_api])
next
  case (net_frame w fo)
  then show ?case by (simp add: patient_inv_def)
next
  case (net_end w)
  then show ?case by (simp add: patient_inv_def)
qed

lemma patient_inv_reachable: "reachable quote c w \<Longrightarrow> patient_inv w"
proof (induction rule: reachable.induct)
  case (start wr n)
  then show ?case
    by (auto simp: patient_inv_def woken_closed_def start_world_def start_shared_def new_sub_state_def split: if_splits)
next
  case (step w w')
  then show ?case by (auto intro: patient_inv_step)
qed

end
