(* ===== verification/Client_Schedules.thy ===== *)
theory Client_Schedules
  imports Client_World
begin

section \<open>Schedules of a client\<close>

text \<open>
  A schedule names who moves next; \<open>play\<close> performs one move and \<open>play_all\<close> a sequence of them. The
  theorems about particular executions are stated with it.
\<close>

datatype pick = PReadTimeout | PWriteTimeout | PRead | PReadClosed | PRequest | PWriteClosed

definition picked :: "pick \<Rightarrow> World \<Rightarrow> loop_event" where
  "picked pk w =
     (case pk of
        PReadTimeout \<Rightarrow> EvReadTimeout
      | PWriteTimeout \<Rightarrow> EvWriteTimeout
      | PRead \<Rightarrow> EvRead (hd (wd_readCh w))
      | PReadClosed \<Rightarrow> EvReadClosed
      | PRequest \<Rightarrow> EvRequest (hd (sh_writeCh (wd_shared w)))
      | PWriteClosed \<Rightarrow> EvWriteClosed)"

datatype sched_move =
    MAct tid
  | MExpire tid
  | MMeet tid tid
  | MSpawn tid tid
  | MSub tid
  | MLoop tid pick
  | MCall tid "outcome prog"
  | MNet "Frame option"
  | MNetEnd

fun play :: "(string \<Rightarrow> string) \<Rightarrow> ClientConn \<Rightarrow> visit \<Rightarrow> sched_move \<Rightarrow> World \<Rightarrow> World option" where
  "play quote c order (MAct t) w =
     (case wd_threads w t of
        None \<Rightarrow> None
      | Some p \<Rightarrow>
          (case fire t None p (wd_shared w) of
             None \<Rightarrow> None
           | Some (p', S) \<Rightarrow> Some (set_thread t p' (w\<lparr>wd_shared := S\<rparr>))))"
| "play quote c order (MExpire t) w =
     (case wd_threads w t of
        None \<Rightarrow> None
      | Some p \<Rightarrow> map_option (\<lambda>p'. set_thread t p' w) (expire p))"
| "play quote c order (MMeet t u) w =
     (case (wd_threads w t, wd_threads w u) of
        (Some (PutFrame (Some ch) f p), Some (RecvFrame ch' d k)) \<Rightarrow>
          if ch' = ch \<and> \<not> sh_chanClosed (wd_shared w) ch
          then Some (set_thread u (k (Got f)) (set_thread t p w)) else None
      | _ \<Rightarrow> None)"
| "play quote c order (MSpawn t u) w =
     (case (wd_threads w t, wd_threads w u) of
        (Some (Spawn s ch p), None) \<Rightarrow> Some (set_thread u (Return (SubAt s ch)) (set_thread t p w))
      | _ \<Rightarrow> None)"
| "play quote c order (MSub t) w =
     (case wd_threads w t of
        Some (Return (SubAt s ch)) \<Rightarrow> Some (set_thread t (sub_readLoop_turn s ch) w)
      | _ \<Rightarrow> None)"
| "play quote c order (MLoop t pk) w =
     (case wd_threads w t of
        Some (Return (LoopAt l)) \<Rightarrow>
          map_option (set_thread t (client_processLoop_turn quote c order (picked pk w) l)) (take_event c l (picked pk w) w)
      | _ \<Rightarrow> None)"
| "play quote c order (MCall t p) w = (if wd_threads w t = None then Some (set_thread t p w) else None)"
| "play quote c order (MNet fo) w =
     (if \<not> wd_readClosed w \<and> length (wd_readCh w) < cc_readCapacity c
      then Some (w\<lparr>wd_readCh := wd_readCh w @ [fo]\<rparr>) else None)"
| "play quote c order MNetEnd w = Some (w\<lparr>wd_readClosed := True\<rparr>)"

fun play_all :: "(string \<Rightarrow> string) \<Rightarrow> ClientConn \<Rightarrow> visit \<Rightarrow> sched_move list \<Rightarrow> World \<Rightarrow> World option" where
  "play_all quote c order [] w = Some w"
| "play_all quote c order (mv # mvs) w =
     (if crashed w then None
      else case play quote c order mv w of None \<Rightarrow> None | Some w' \<Rightarrow> play_all quote c order mvs w')"

definition calls_ok :: "ClientConn \<Rightarrow> sched_move list \<Rightarrow> bool" where
  "calls_ok c mvs \<longleftrightarrow> (\<forall>t p. MCall t p \<in> set mvs \<longrightarrow> api_call c p)"

lemma play_step:
  assumes "play quote c order mv w = Some w'" and "\<not> crashed w" and "visits order" and "calls_ok c [mv]"
  shows "client_step quote c w w'"
  using assms
  by (cases mv)
     (auto simp: calls_ok_def intro: client_step.intros split: option.splits prod.splits prog.splits outcome.splits if_splits)

lemma play_all_reachable:
  "play_all quote c order mvs w = Some w' \<Longrightarrow> reachable quote c w \<Longrightarrow> visits order \<Longrightarrow> calls_ok c mvs \<Longrightarrow>
     reachable quote c w'"
proof (induction mvs arbitrary: w)
  case Nil
  then show ?case by simp
next
  case (Cons mv mvs)
  then obtain w1 where w1: "\<not> crashed w" "play quote c order mv w = Some w1" "play_all quote c order mvs w1 = Some w'"
    by (auto split: if_splits option.splits)
  have "client_step quote c w w1" using Cons.prems w1 by (intro play_step) (auto simp: calls_ok_def)
  then have "reachable quote c w1" using Cons.prems(2) by (rule reachable.step [rotated])
  with Cons.IH [OF w1(3)] Cons.prems show ?case by (auto simp: calls_ok_def)
qed


lemma play_all_append:
  "play_all quote c order mvs w = Some w1 \<Longrightarrow> play_all quote c order mvs' w1 = Some w2 \<Longrightarrow>
     play_all quote c order (mvs @ mvs') w = Some w2"
  by (induction mvs arbitrary: w) (auto split: if_splits option.splits)

lemma some_visits: "visits (\<lambda>m. SOME vs. map_range m vs)"
  unfolding visits_def
proof (intro allI impI)
  fix m :: channels
  assume "finite (dom m)"
  from finite_distinct_list [OF this] obtain ks where "set ks = dom m \<and> distinct ks" by (rule exE)
  then have "map_range m (map (\<lambda>k. the (m k)) ks)" unfolding map_range_def by blast
  then show "map_range m (SOME vs. map_range m vs)" by (rule someI)
qed

subsection \<open>A connection to play on\<close>

definition sample_client :: ClientConn where
  "sample_client =
     \<lparr>cc_log = StdLogger, cc_version = V12, cc_session = [], cc_server = [], cc_readTimeout = 0, cc_writeTimeout = 0,
      cc_msgSendTimeout = 10 * Second, cc_rcvReceiptTimeout = 30 * Second, cc_disconnectReceiptTimeout = 30 * Second,
      cc_unsubscribeReceiptTimeout = 0, cc_hbGracePeriodMultiplier = Float64 1 0, cc_statsEnabled = False,
      cc_readCapacity = 20, cc_writeCapacity = 20\<rparr>"

definition sample_sub :: ClientSub where
  "sample_sub = \<lparr>cs_ref = 0, cs_id = ''1'', cs_replyToSet = False, cs_destination = ''/queue/a'', cs_ackMode = 0,
     cs_unsubscribeReceiptTimeout = 0\<rparr>"

lemmas play_simps = set_thread_def start_world_def start_shared_def start_loop_def picked_def sample_client_def
  sample_sub_def loop_arm_def upd_sub_def sub_capacity_def new_sub_state_def mk_frame_upd eval_nat_numeral Let_def
  Header_Get_def call_def call_sub_def AckMode_String_def choose_id_def allocateId_def FormatUint.simps
  client_processLoop_turn_def on_request_def on_frame_def note_receipt_def write_request_def

subsection \<open>Three executions\<close>

text \<open>A subscription whose \<open>SUBSCRIBE\<close> frame asks for a receipt, the receipt, and a message.\<close>

definition receipt_subscribe_script :: "sched_move list" where
  "receipt_subscribe_script =
     [MCall 1 (call_sub (Subscribe sample_client ''/queue/a'' 0 [Some (SubscribeOpt_Header Receipt ''r'')]))] @
     replicate 5 (MAct 1) @ [MSpawn 1 2] @ replicate 3 (MAct 1) @ [MLoop 0 PRequest, MAct 0] @
     [MNet (Some (mk_frame RECEIPT [(ReceiptId, ''r'')])), MLoop 0 PRead, MSub 2, MMeet 0 2, MAct 0] @
     [MNet (Some (mk_frame MESSAGE [(SubscriptionHdr, ''1'')])), MLoop 0 PRead, MAct 0]"

lemma receipt_subscribe_crash:
  assumes "ready wr"
  shows "\<exists>w. play_all quote sample_client order receipt_subscribe_script (start_world sample_client wr 0) = Some w \<and>
    wd_crash w = Some ''send on closed channel''"
proof -
  obtain w1 where "Writer_Write (Some (mk_frame SUBSCRIBE [(Destination, ''/queue/a''), (AckHdr, AckAuto),
      (Receipt, ''r''), (IdHdr, ''1'')])) wr = (None, w1)"
    using Writer_Write_ready [OF assms] by blast
  then show ?thesis
    by (simp add: play_simps receipt_subscribe_script_def Subscribe_def SubscribeOpt_Header_def sub_readLoop_turn_def)
qed

text \<open>A send whose receipt comes after its time.\<close>

definition late_receipt_script :: "sched_move list" where
  "late_receipt_script =
     [MCall 1 (call (Send sample_client ''/queue/a'' [] [] [Some SendOpt_Receipt]))] @
     replicate 6 (MAct 1) @ [MLoop 0 PRequest, MAct 0, MExpire 1, MAct 1] @
     [MNet (Some (mk_frame RECEIPT [(ReceiptId, ''1'')])), MLoop 0 PRead]"

lemma late_receipt_world:
  assumes "ready wr"
  shows "\<exists>w p. play_all quote sample_client order late_receipt_script (start_world sample_client wr 0) = Some w \<and>
    wd_threads w =
      [1 \<mapsto> Return (CallResult (Some (StompErr ErrMsgReceiptTimeout))),
       0 \<mapsto> PutFrame (Some 0) (mk_frame RECEIPT [(ReceiptId, ''1'')]) p] \<and>
    \<not> sh_chanClosed (wd_shared w) 0 \<and> 0 < sh_nextChan (wd_shared w)"
proof -
  obtain w1 where "Writer_Write (Some (mk_frame SEND [(ContentLength, ''0''), (Destination, ''/queue/a''),
      (Receipt, ''1'')])) wr = (None, w1)"
    using Writer_Write_ready [OF assms] by blast
  then show ?thesis
    by (simp add: play_simps late_receipt_script_def Send_def post_frame_def createSendFrame_def SendOpt_Receipt_def
        sendDataToWriteChWithTimeout_def readReceiptWithTimeout_def) (rule exI, rule refl)
qed

text \<open>An unsubscription whose receipt arrives between its look at the state and its wait.\<close>

definition lost_wakeup_script :: "sched_move list" where
  "lost_wakeup_script =
     [MCall 1 (call_sub (Subscribe sample_client ''/queue/a'' 0 []))] @
     replicate 5 (MAct 1) @ [MSpawn 1 2] @ replicate 3 (MAct 1) @ [MLoop 0 PRequest, MAct 0] @
     [MCall 3 (call (Unsubscribe sample_client sample_sub []))] @ replicate 8 (MAct 3) @ [MLoop 0 PRequest, MAct 0] @
     [MNet (Some (mk_frame RECEIPT [(ReceiptId, ''1'')])), MLoop 0 PRead, MSub 2, MMeet 0 2, MAct 0] @
     replicate 6 (MAct 2) @ [MAct 3]"

lemma lost_wakeup_world:
  assumes "ready wr"
  shows "\<exists>w k. play_all quote sample_client order lost_wakeup_script (start_world sample_client wr 0) = Some w \<and>
    wd_threads w 3 = Some (CondBlock 0 0 k) \<and> ss_state (sh_subs (wd_shared w) 0) = subStateClosed \<and>
    ss_once (sh_subs (wd_shared w) 0) = OnceDone \<and> ss_woken (sh_subs (wd_shared w) 0) = 0"
proof -
  obtain w1 where w1: "Writer_Write (Some (mk_frame SUBSCRIBE [(Destination, ''/queue/a''), (AckHdr, AckAuto),
      (IdHdr, ''1'')])) wr = (None, w1)" "ready w1"
    using Writer_Write_ready [OF assms] by blast
  obtain w2 where "Writer_Write (Some (mk_frame UNSUBSCRIBE [(IdHdr, ''1''), (Receipt, ''1'')])) w1 = (None, w2)"
    using Writer_Write_ready [OF w1(2)] by blast
  with w1 show ?thesis
    by (simp add: play_simps lost_wakeup_script_def Subscribe_def Unsubscribe_def sendFrame_def sub_readLoop_turn_def
        closeChannel_def)
qed

subsection \<open>A send that nobody receives\<close>

text \<open>
  \<open>shuns ch P p\<close>: the program \<open>p\<close> neither receives from the channel \<open>ch\<close> nor closes it,
  hands it to no reader, and its result satisfies \<open>P\<close>. \<open>harmless ch\<close> is the \<open>P\<close> for a goroutine.
\<close>

definition harmless :: "chan_ref \<Rightarrow> outcome \<Rightarrow> bool" where
  "harmless ch r = (case r of LoopAt l \<Rightarrow> False | SubAt s c \<Rightarrow> c \<noteq> ch | _ \<Rightarrow> True)"

primrec shuns :: "chan_ref \<Rightarrow> ('r \<Rightarrow> bool) \<Rightarrow> 'r prog \<Rightarrow> bool" where
  "shuns ch P (Return r) = P r"
| "shuns ch P (Crash s) = True"
| "shuns ch P (Lock p) = shuns ch P p"
| "shuns ch P (Unlock p) = shuns ch P p"
| "shuns ch P (ReadClosed k) = (\<forall>a. shuns ch P (k a))"
| "shuns ch P (SetClosed p) = shuns ch P p"
| "shuns ch P (CloseConn k) = (\<forall>a. shuns ch P (k a))"
| "shuns ch P (CloseWriteCh p) = shuns ch P p"
| "shuns ch P (AllocId k) = (\<forall>a. shuns ch P (k a))"
| "shuns ch P (MakeChan k) = (\<forall>c. c \<noteq> ch \<longrightarrow> shuns ch P (k c))"
| "shuns ch P (CountWrite p) = shuns ch P p"
| "shuns ch P (PutRequest r d k) = (\<forall>a. shuns ch P (k a))"
| "shuns ch P (RecvFrame c d k) = (c \<noteq> ch \<and> (\<forall>a. shuns ch P (k a)))"
| "shuns ch P (PutFrame c f p) = shuns ch P p"
| "shuns ch P (CloseChan c p) = (c \<noteq> Some ch \<and> shuns ch P p)"
| "shuns ch P (WriteFrame f k) = (\<forall>a. shuns ch P (k a))"
| "shuns ch P (NewSub k) = (\<forall>a. shuns ch P (k a))"
| "shuns ch P (Spawn s c p) = (c \<noteq> ch \<and> shuns ch P p)"
| "shuns ch P (CasState s i j k) = (\<forall>a. shuns ch P (k a))"
| "shuns ch P (LoadState s k) = (\<forall>a. shuns ch P (k a))"
| "shuns ch P (StoreState s i p) = shuns ch P p"
| "shuns ch P (PutMessage s msg p) = shuns ch P p"
| "shuns ch P (TakeMessage s k) = (\<forall>a. shuns ch P (k a))"
| "shuns ch P (CloseC s p) = shuns ch P p"
| "shuns ch P (OnceEnter s k) = (\<forall>a. shuns ch P (k a))"
| "shuns ch P (OnceLeave s p) = shuns ch P p"
| "shuns ch P (LockSub s p) = shuns ch P p"
| "shuns ch P (UnlockSub s p) = shuns ch P p"
| "shuns ch P (CondRegister s p) = shuns ch P p"
| "shuns ch P (CondBlock s d k) = (\<forall>a. shuns ch P (k a))"
| "shuns ch P (Broadcast s p) = shuns ch P p"

lemma shuns_bind: "shuns ch (\<lambda>x. shuns ch P (q x)) p \<Longrightarrow> shuns ch P (bind p q)"
  by (induction p) auto

lemma shuns_mono: "shuns ch Q p \<Longrightarrow> (\<And>x. Q x \<Longrightarrow> P x) \<Longrightarrow> shuns ch P p"
  by (induction p) auto

lemma shuns_then: "shuns ch (\<lambda>_. True) p \<Longrightarrow> (\<And>x. shuns ch P (q x)) \<Longrightarrow> shuns ch P (bind p q)"
  by (rule shuns_bind) (auto intro: shuns_mono)

lemma shuns_ids: "only_ids p \<Longrightarrow> shuns ch (\<lambda>_. True) p"
  by (induction p) auto

lemma shuns_opts:
  "opts_ok opts \<Longrightarrow> shuns ch (\<lambda>_. True) (apply_frame_opts opts f)"
  "opts_ok opts \<Longrightarrow> shuns ch (\<lambda>_. True) (unsubscribe_opts opts f)"
  by (simp_all add: shuns_ids only_ids_opts only_ids_unsubscribe_opts)

lemma shuns_createSendFrame: "opts_ok opts \<Longrightarrow> shuns ch (\<lambda>_. True) (createSendFrame dest ctype body opts)"
  by (auto simp: createSendFrame_def Let_def intro!: shuns_then shuns_opts split: option.split)

lemma shuns_put: "shuns ch (\<lambda>_. True) (sendDataToWriteChWithTimeout r d)"
  by (simp add: sendDataToWriteChWithTimeout_def)

lemma shuns_receipt: "c \<noteq> ch \<Longrightarrow> shuns ch (\<lambda>_. True) (readReceiptWithTimeout c d err)"
  by (simp add: readReceiptWithTimeout_def split: reply.split)

lemma shuns_Send: "opts_ok opts \<Longrightarrow> shuns ch (\<lambda>_. True) (Send c dest ctype body opts)"
  by (auto simp: Send_def post_frame_def intro!: shuns_then shuns_createSendFrame shuns_receipt shuns_put split: sum.split option.split)

lemma shuns_sendFrame: "shuns ch (\<lambda>_. True) (sendFrame c f)"
  by (auto simp: sendFrame_def split: reply.split)

lemma shuns_Subscribe: "opts_ok opts \<Longrightarrow> shuns ch (\<lambda>_. True) (Subscribe c dest ack opts)"
  by (auto simp: Subscribe_def Let_def choose_id_def intro!: shuns_then shuns_opts
      split: go.split option.split)

lemma shuns_MustDisconnect: "shuns ch (\<lambda>_. True) MustDisconnect"
  by (simp add: MustDisconnect_def)

lemma shuns_Disconnect: "shuns ch (\<lambda>_. True) (Disconnect c)"
  by (auto simp: Disconnect_def intro!: shuns_then shuns_receipt split: option.split)

lemma shuns_send_ack: "shuns ch (\<lambda>_. True) (send_ack c r)"
  by (auto simp: send_ack_def shuns_sendFrame split: sum.split option.split)

lemma shuns_finish_tx: "shuns ch (\<lambda>_. True) (finish_tx c cmd tx receipt)"
  by (auto simp: finish_tx_def with_receipt_def intro!: shuns_then shuns_sendFrame split: option.split)

lemma shuns_closeChannel: "shuns ch P p \<Longrightarrow> shuns ch P (closeChannel s mo p)"
  by (auto simp: closeChannel_def Let_def split: option.split)

lemma shuns_unsubscribe_wait: "shuns ch (\<lambda>_. True) (unsubscribe_wait n s err)"
  by (induction n s err rule: unsubscribe_wait.induct) auto

lemma shuns_Unsubscribe: "opts_ok opts \<Longrightarrow> shuns ch (\<lambda>_. True) (Unsubscribe c s opts)"
  by (auto simp: Unsubscribe_def Let_def intro!: shuns_then shuns_opts shuns_sendFrame
      shuns_closeChannel shuns_unsubscribe_wait split: option.split)

lemma shuns_sub_Read: "shuns ch (\<lambda>_. True) (sub_Read s)"
  by (auto simp: sub_Read_def sub_Active_def split: option.split)

lemma shuns_sub_turn: "c \<noteq> ch \<Longrightarrow> shuns ch (harmless ch) (sub_readLoop_turn s c)"
  by (auto simp: sub_readLoop_turn_def harmless_def intro!: shuns_closeChannel split: reply.split)

lemma shuns_api: "api_call c p \<Longrightarrow> shuns ch (harmless ch) p"
  by (induction rule: api_call.induct)
     (auto simp: call_def call_tx_def call_sub_def call_read_def Conn_Ack_def Conn_Nack_def Tx_Ack_def Tx_Nack_def
       Tx_Send_def Tx_abort_def Tx_commit_def BeginWithError_def harmless_def
       intro!: shuns_then shuns_Send shuns_Subscribe shuns_send_ack shuns_finish_tx
         shuns_Unsubscribe shuns_sub_Read shuns_Disconnect shuns_MustDisconnect shuns_sendFrame shuns_createSendFrame
       split: sum.split)

lemma fire_shuns:
  "fire t ce p S = Some (p', S') \<Longrightarrow> shuns ch P p \<Longrightarrow> ch < sh_nextChan S \<Longrightarrow>
     shuns ch P p' \<and> ch < sh_nextChan S' \<and> sh_chanClosed S' ch = sh_chanClosed S ch"
  by (cases p)
     (auto simp: Let_def upd_sub_def split: if_splits option.splits list.splits once.splits prod.splits)

lemma expire_shuns: "expire p = Some p' \<Longrightarrow> shuns ch P p \<Longrightarrow> shuns ch P p'"
  by (cases p) (auto split: if_splits)

text \<open>Goroutine \<open>t\<close> is sending on \<open>ch\<close>, and no other goroutine will ever receive from it or close it.\<close>

definition wedged :: "tid \<Rightarrow> chan_ref \<Rightarrow> Frame \<Rightarrow> outcome prog \<Rightarrow> World \<Rightarrow> bool" where
  "wedged t ch f p w \<longleftrightarrow>
     wd_threads w t = Some (PutFrame (Some ch) f p) \<and> \<not> sh_chanClosed (wd_shared w) ch \<and>
     ch < sh_nextChan (wd_shared w) \<and> (\<forall>u q. u \<noteq> t \<longrightarrow> wd_threads w u = Some q \<longrightarrow> shuns ch (harmless ch) q)"

lemma wedged_other:
  assumes "wedged t ch f p w" and "u \<noteq> t" and "shuns ch (harmless ch) q"
  shows "wedged t ch f p (set_thread u q w)"
  using assms by (auto simp: wedged_def)

lemma take_event_wedged: "take_event c l ev w = Some w' \<Longrightarrow> wedged t ch f p w \<Longrightarrow> wedged t ch f p w'"
  by (cases ev) (auto simp: wedged_def split: if_splits list.splits)

lemma wedged_step: "client_step quote c w w' \<Longrightarrow> wedged t ch f p w \<Longrightarrow> wedged t ch f p w'"
proof (induction rule: client_step.induct)
  case (act w u q ce q' S)
  have "u \<noteq> t" using act by (auto simp: wedged_def)
  with act have q: "shuns ch (harmless ch) q" "ch < sh_nextChan (wd_shared w)" by (auto simp: wedged_def)
  from fire_shuns [OF act.hyps(3) q] act.prems have "wedged t ch f p (w\<lparr>wd_shared := S\<rparr>)"
    by (simp add: wedged_def)
  with fire_shuns [OF act.hyps(3) q] \<open>u \<noteq> t\<close> show ?case by (auto intro: wedged_other)
next
  case (timeout w u q q')
  have "u \<noteq> t" using timeout by (auto simp: wedged_def)
  moreover from this timeout have "shuns ch (harmless ch) q" by (auto simp: wedged_def)
  ultimately show ?case using timeout by (auto intro: wedged_other expire_shuns)
next
  case (rendezvous w u ch' g q v d k)
  have v: "v \<noteq> t" using rendezvous by (auto simp: wedged_def)
  with rendezvous have k: "ch' \<noteq> ch" "\<And>a. shuns ch (harmless ch) (k a)" by (auto simp: wedged_def)
  with rendezvous have u: "u \<noteq> t" by (auto simp: wedged_def)
  with rendezvous have "shuns ch (harmless ch) q" by (auto simp: wedged_def)
  with rendezvous u v k show ?case by (auto intro!: wedged_other)
next
  case (spawn w u s c' q v)
  have "u \<noteq> t" "v \<noteq> t" using spawn by (auto simp: wedged_def)
  moreover from this spawn have "c' \<noteq> ch" "shuns ch (harmless ch) q" by (auto simp: wedged_def)
  ultimately show ?case using spawn by (auto intro!: wedged_other simp: harmless_def)
next
  case (sub_turn w u s c')
  have "u \<noteq> t" using sub_turn by (auto simp: wedged_def)
  moreover from this sub_turn have "c' \<noteq> ch" by (fastforce simp: wedged_def harmless_def)
  ultimately show ?case using sub_turn by (auto intro!: wedged_other shuns_sub_turn)
next
  case (loop_turn w u l order ev w')
  then show ?case by (cases "u = t") (fastforce simp: wedged_def harmless_def)+
next
  case (user_call w u q)
  then have "u \<noteq> t" by (auto simp: wedged_def)
  with user_call show ?case by (auto intro!: wedged_other shuns_api)
next
  case (net_frame w fo)
  then show ?case by (simp add: wedged_def)
next
  case (net_end w)
  then show ?case by (simp add: wedged_def)
qed

lemma wedged_forever: "(client_step quote c)\<^sup>*\<^sup>* w w' \<Longrightarrow> wedged t ch f p w \<Longrightarrow> wedged t ch f p w'"
  by (induction rule: rtranclp_induct) (auto intro: wedged_step)

subsection \<open>Properties of all executions\<close>

text \<open>
  Property C7. Whatever the interleaving, no goroutine of a client puts a request on the write
  channel of a closed connection, closes that channel twice, releases the mutex without holding it, or
  ends while holding it. In particular no call panics with a send on the closed write channel.
\<close>

theorem client_gate_safe:
  assumes "reachable quote c w"
  shows "\<not> gate_misuse w"
  by (rule lock_inv_safe [OF lock_inv_reachable [OF assms]])

theorem client_gate_safe_witness:
  "\<exists>w. play_all id sample_client (\<lambda>m. SOME vs. map_range m vs) [MCall 1 (call MustDisconnect), MAct 1, MAct 1, MAct 1]
     (start_world sample_client (NewWriter None ErrEOF) 0) = Some w \<and>
     sh_writeClosed (wd_shared w) \<and> \<not> sh_closed (wd_shared w) \<and> \<not> gate_misuse w"
proof -
  let ?s = "[MCall 1 (call MustDisconnect), MAct 1, MAct 1, MAct 1]"
  let ?w = "start_world sample_client (NewWriter None ErrEOF) 0"
  obtain w where w: "play_all id sample_client (\<lambda>m. SOME vs. map_range m vs) ?s ?w = Some w"
    "sh_writeClosed (wd_shared w)" "\<not> sh_closed (wd_shared w)"
    by (simp add: play_simps MustDisconnect_def)
  have "calls_ok sample_client ?s" by (auto simp: calls_ok_def intro: api_call.MustDisconnect)
  from client_gate_safe [OF play_all_reachable [OF w(1) reachable.start some_visits this]] w show ?thesis by blast
qed



subsection \<open>Executions that go wrong\<close>




end
