(* ===== verification/Client_Calls.thy ===== *)
theory Client_Calls
  imports Client_Schedules
begin

section \<open>What the operations of a client do\<close>

text \<open>
  The outcome of the calls on every path, the frames that the processing loop writes and the
  channels it feeds, and the messages that a subscription's reader hands to its user.
\<close>

subsection \<open>Calls\<close>

definition solo :: "tid \<Rightarrow> 'r prog \<times> Shared \<Rightarrow> 'r prog \<times> Shared \<Rightarrow> bool" where
  "solo t a b \<longleftrightarrow> fire t None (fst a) (snd a) = Some b"

text \<open>Goroutine \<open>t\<close> runs, undisturbed, from one program and state to another.\<close>

abbreviation runs :: "tid \<Rightarrow> 'r prog \<Rightarrow> Shared \<Rightarrow> 'r prog \<Rightarrow> Shared \<Rightarrow> bool" where
  "runs t p S p' S' \<equiv> (solo t)\<^sup>*\<^sup>* (p, S) (p', S')"

lemma runs_step: "fire t None p S = Some (p1, S1) \<Longrightarrow> runs t p1 S1 p' S' \<Longrightarrow> runs t p S p' S'"
  by (rule converse_rtranclp_into_rtranclp) (auto simp: solo_def)

lemma runs_trans: "runs t p S p1 S1 \<Longrightarrow> runs t p1 S1 p' S' \<Longrightarrow> runs t p S p' S'"
  by (rule rtranclp_trans)

lemma runs_actions:
  "sh_lock S = None \<Longrightarrow> runs t p (S\<lparr>sh_lock := Some t\<rparr>) p' S' \<Longrightarrow> runs t (Lock p) S p' S'"
  "sh_lock S \<noteq> None \<Longrightarrow> runs t p (S\<lparr>sh_lock := None\<rparr>) p' S' \<Longrightarrow> runs t (Unlock p) S p' S'"
  "runs t (k1 (sh_closed S)) S p' S' \<Longrightarrow> runs t (ReadClosed k1) S p' S'"
  "runs t (k2 (fst (allocateId (sh_lastId S)))) (S\<lparr>sh_lastId := snd (allocateId (sh_lastId S))\<rparr>) p' S' \<Longrightarrow>
     runs t (AllocId k2) S p' S'"
  "\<not> sh_writeClosed S \<Longrightarrow> length (sh_writeCh S) < sh_writeCap S \<Longrightarrow>
     runs t (k3 True) (S\<lparr>sh_writeCh := sh_writeCh S @ [r]\<rparr>) p' S' \<Longrightarrow> runs t (PutRequest r d k3) S p' S'"
  "runs t p (S\<lparr>sh_closed := True\<rparr>) p' S' \<Longrightarrow> runs t (SetClosed p) S p' S'"
  "runs t (k4 None) (S\<lparr>sh_connClosed := True\<rparr>) p' S' \<Longrightarrow> runs t (CloseConn k4) S p' S'"
  by (rule runs_step, auto split: prod.split)+

lemma runs_ids:
  "run_ids p (sh_lastId S) = Some (x, n) \<Longrightarrow> runs t (bind p q) S (q x) (S\<lparr>sh_lastId := n\<rparr>)"
proof (induction p arbitrary: S)
  case (Return y)
  moreover have "S\<lparr>sh_lastId := sh_lastId S\<rparr> = S" by (cases S) simp
  ultimately show ?case by auto
next
  case (AllocId k)
  then have "runs t (bind (k (fst (allocateId (sh_lastId S)))) q) (S\<lparr>sh_lastId := snd (allocateId (sh_lastId S))\<rparr>)
      (q x) (S\<lparr>sh_lastId := n\<rparr>)"
    using AllocId.IH [of "k (fst (allocateId (sh_lastId S)))" "S\<lparr>sh_lastId := snd (allocateId (sh_lastId S))\<rparr>"] by auto
  then show ?case by (simp add: runs_actions)
qed simp_all

text \<open>The connection is open, nobody holds the mutex and the write channel has room.\<close>

definition idle :: "Shared \<Rightarrow> bool" where
  "idle S \<longleftrightarrow> sh_lock S = None \<and> \<not> sh_closed S \<and> \<not> sh_writeClosed S \<and> length (sh_writeCh S) < sh_writeCap S"

definition counted :: "Shared \<Rightarrow> Shared" where
  "counted S = (if sh_statsEnabled S then S\<lparr>sh_writesSent := int64 (sh_writesSent S + 1)\<rparr> else S)"

definition queued :: "writeRequest \<Rightarrow> Shared \<Rightarrow> Shared" where
  "queued r S = S\<lparr>sh_writeCh := sh_writeCh S @ [r]\<rparr>"

definition with_chan :: "Shared \<Rightarrow> Shared" where
  "with_chan S =
     S\<lparr>sh_nextChan := Suc (sh_nextChan S), sh_chanClosed := (sh_chanClosed S)(sh_nextChan S := False)\<rparr>"

lemmas state_defs = idle_def counted_def queued_def with_chan_def

lemma runs_counted: "runs t p (counted S) p' S' \<Longrightarrow> runs t (CountWrite p) S p' S'"
  by (rule runs_step) (simp_all add: counted_def)

lemma runs_MakeChan: "runs t (k (sh_nextChan S)) (with_chan S) p' S' \<Longrightarrow> runs t (MakeChan k) S p' S'"
  by (rule runs_step) (simp_all add: with_chan_def)

lemma runs_put:
  assumes "\<not> sh_writeClosed S" and "length (sh_writeCh S) < sh_writeCap S"
    and "runs t (q None) (queued r S) p' S'"
  shows "runs t (bind (sendDataToWriteChWithTimeout r d) q) S p' S'"
  using assms by (simp add: sendDataToWriteChWithTimeout_def queued_def runs_actions)

lemma state_sel [simp]:
  "sh_lock (counted S) = sh_lock S" "sh_writeClosed (counted S) = sh_writeClosed S"
  "sh_writeCh (counted S) = sh_writeCh S" "sh_writeCap (counted S) = sh_writeCap S"
  "sh_nextChan (counted S) = sh_nextChan S" "sh_closed (counted S) = sh_closed S"
  "sh_lock (with_chan S) = sh_lock S" "sh_writeClosed (with_chan S) = sh_writeClosed S"
  "sh_writeCh (with_chan S) = sh_writeCh S" "sh_writeCap (with_chan S) = sh_writeCap S"
  "sh_lock (queued r S) = sh_lock S"
  by (simp_all add: state_defs)

lemma runs_Send:
  assumes "sh_lock S = None" and "\<not> sh_closed S"
    and "run_ids (createSendFrame dest ctype body opts) (sh_lastId S) = Some (r, n)"
    and "runs t (case r of Inl err \<Rightarrow> Unlock (Return (Some (StompErr err))) | Inr f \<Rightarrow> post_frame c f)
       (S\<lparr>sh_lock := Some t, sh_lastId := n\<rparr>) p' S'"
  shows "runs t (Send c dest ctype body opts) S p' S'"
proof -
  let ?q = "\<lambda>r. case r of Inl err \<Rightarrow> Unlock (Return (Some (StompErr err))) | Inr f \<Rightarrow> post_frame c f"
  have "runs t (bind (createSendFrame dest ctype body opts) ?q) (S\<lparr>sh_lock := Some t\<rparr>) p' S'"
    using runs_trans [OF runs_ids [where q = ?q and S = "S\<lparr>sh_lock := Some t\<rparr>"], of _ r n t p' S'] assms by simp
  with assms(1,2) show ?thesis by (simp add: Send_def runs_actions)
qed

lemma relock: "(S\<lparr>sh_lock := x\<rparr>)\<lparr>sh_lock := y\<rparr> = S\<lparr>sh_lock := y\<rparr>" "sh_lock S = None \<Longrightarrow> S\<lparr>sh_lock := None\<rparr> = S"
  by (cases S, simp)+

lemma lock_out:
  "counted (S\<lparr>sh_lock := l, sh_lastId := n\<rparr>) = (counted (S\<lparr>sh_lastId := n\<rparr>))\<lparr>sh_lock := l\<rparr>"
  "with_chan (S\<lparr>sh_lock := l\<rparr>) = (with_chan S)\<lparr>sh_lock := l\<rparr>"
  "queued r (S\<lparr>sh_lock := l\<rparr>) = (queued r S)\<lparr>sh_lock := l\<rparr>"
  by (cases S, simp add: state_defs)+

lemma runs_post_plain:
  assumes "Header_Contains (Hdr f) Receipt = None" and "\<not> sh_writeClosed S" and "length (sh_writeCh S) < sh_writeCap S"
  shows "runs t (post_frame c f) (S\<lparr>sh_lock := Some t, sh_lastId := n\<rparr>) (Return None)
    ((queued \<lparr>req_Frame = f, req_C = None\<rparr> (counted (S\<lparr>sh_lastId := n\<rparr>)))\<lparr>sh_lock := None\<rparr>)"
  using assms by (simp add: post_frame_def lock_out runs_counted runs_put runs_actions)

lemma runs_post_receipt:
  assumes "Header_Contains (Hdr f) Receipt \<noteq> None" and "\<not> sh_writeClosed S" and "length (sh_writeCh S) < sh_writeCap S"
  shows "runs t (post_frame c f) (S\<lparr>sh_lock := Some t, sh_lastId := n\<rparr>)
    (bind (readReceiptWithTimeout (sh_nextChan S) (cc_rcvReceiptTimeout c) ErrMsgReceiptTimeout)
       (\<lambda>err. Unlock (Return (map_option StompErr err))))
    ((queued \<lparr>req_Frame = f, req_C = Some (sh_nextChan S)\<rparr> (with_chan (counted (S\<lparr>sh_lastId := n\<rparr>))))\<lparr>sh_lock := Some t\<rparr>)"
  using assms by (simp add: post_frame_def lock_out runs_counted runs_MakeChan runs_put runs_actions)

text \<open>
  What \<open>Send\<close> does. On a closed connection it fails and changes nothing. On an open
  one, with the mutex free and room in the write channel, it makes its frame; if an option
  fails it returns that error and puts nothing on the channel. Otherwise it puts exactly one request on the
  channel. Without a receipt entry it returns success; with one it waits, holding the mutex, on a
  channel of its own, and then returns success for a \<open>RECEIPT\<close>, the server's error for any other frame,
  and the timeout error when the time is up. Whenever it returns, the mutex is free.
\<close>

theorem send_outcomes:
  assumes "sh_lock S = None" and "\<not> sh_writeClosed S" and "length (sh_writeCh S) < sh_writeCap S"
    and "run_ids (createSendFrame dest ctype body opts) (sh_lastId S) = Some (r, n)"
  shows "if sh_closed S then runs t (Send c dest ctype body opts) S (Return (Some (StompErr ErrAlreadyClosed))) S
    else case r of
      Inl err \<Rightarrow> runs t (Send c dest ctype body opts) S (Return (Some (StompErr err))) (S\<lparr>sh_lastId := n\<rparr>)
    | Inr f \<Rightarrow>
        if Header_Contains (Hdr f) Receipt = None
        then runs t (Send c dest ctype body opts) S (Return None)
               (queued \<lparr>req_Frame = f, req_C = None\<rparr> (counted (S\<lparr>sh_lastId := n\<rparr>)))
        else \<exists>S' k. runs t (Send c dest ctype body opts) S
               (RecvFrame (sh_nextChan S) (max 0 (cc_rcvReceiptTimeout c)) k) (S'\<lparr>sh_lock := Some t\<rparr>) \<and>
             S' = queued \<lparr>req_Frame = f, req_C = Some (sh_nextChan S)\<rparr> (with_chan (counted (S\<lparr>sh_lastId := n\<rparr>))) \<and>
             (\<forall>g. runs t (k (Got g)) (S'\<lparr>sh_lock := Some t\<rparr>)
                (Return (if Command g = RECEIPT then None else Some (StompErr (newError g)))) S') \<and>
             runs t (k Expired) (S'\<lparr>sh_lock := Some t\<rparr>) (Return (Some (StompErr ErrMsgReceiptTimeout))) S'"
proof (cases "sh_closed S")
  case True
  with assms(1) show ?thesis by (simp add: Send_def runs_actions relock)
next
  case opened: False
  show ?thesis
  proof (cases r)
    case (Inl err)
    with opened assms show ?thesis by (simp add: runs_Send runs_actions relock)
  next
    case (Inr f)
    note post = runs_Send [OF assms(1) opened assms(4), of t c]
    show ?thesis
    proof (cases "Header_Contains (Hdr f) Receipt")
      case None
      with post [OF _] runs_post_plain [OF None assms(2,3), of t c n] assms(1) opened Inr show ?thesis
        by (simp add: relock)
    next
      case (Some i)
      let ?S = "queued \<lparr>req_Frame = f, req_C = Some (sh_nextChan S)\<rparr> (with_chan (counted (S\<lparr>sh_lastId := n\<rparr>)))"
      let ?p = "bind (readReceiptWithTimeout (sh_nextChan S) (cc_rcvReceiptTimeout c) ErrMsgReceiptTimeout)
        (\<lambda>err. Unlock (Return (map_option StompErr err)))"
      obtain k where k: "?p = RecvFrame (sh_nextChan S) (max 0 (cc_rcvReceiptTimeout c)) k"
        "\<And>g. k (Got g) = Unlock (Return (if Command g = RECEIPT then None else Some (StompErr (newError g))))"
        "k Expired = Unlock (Return (Some (StompErr ErrMsgReceiptTimeout)))"
        by (simp add: readReceiptWithTimeout_def max_def)
      have "sh_lock ?S = None" using assms(1) by simp
      then have ends: "\<forall>g. runs t (k (Got g)) (?S\<lparr>sh_lock := Some t\<rparr>)
          (Return (if Command g = RECEIPT then None else Some (StompErr (newError g)))) ?S"
        "runs t (k Expired) (?S\<lparr>sh_lock := Some t\<rparr>) (Return (Some (StompErr ErrMsgReceiptTimeout))) ?S"
        using k(2,3) by (simp_all add: runs_actions relock)
      have "runs t (Send c dest ctype body opts) S ?p (?S\<lparr>sh_lock := Some t\<rparr>)"
        using runs_post_receipt [OF _ assms(2,3), of f t c n] Some by (intro post) (simp add: Inr)
      note ends this [unfolded k(1)]
      then have "\<exists>S' k. runs t (Send c dest ctype body opts) S
               (RecvFrame (sh_nextChan S) (max 0 (cc_rcvReceiptTimeout c)) k) (S'\<lparr>sh_lock := Some t\<rparr>) \<and> S' = ?S \<and>
             (\<forall>g. runs t (k (Got g)) (S'\<lparr>sh_lock := Some t\<rparr>)
                (Return (if Command g = RECEIPT then None else Some (StompErr (newError g)))) S') \<and>
             runs t (k Expired) (S'\<lparr>sh_lock := Some t\<rparr>) (Return (Some (StompErr ErrMsgReceiptTimeout))) S'"
        by (intro exI [of _ ?S] exI [of _ k] conjI refl)
      with opened Inr Some show ?thesis by (simp only: sum.case if_False option.distinct(2) not_False_eq_True)
    qed
  qed
qed

theorem send_outcomes_witness:
  "runs 1 (Send sample_client ''/queue/a'' [] ''hi'' []) (start_shared sample_client (NewWriter None ErrEOF) 0) (Return None)
     (queued \<lparr>req_Frame = (mk_frame SEND [(''content-length'', ''2''), (''destination'', ''/queue/a'')])\<lparr>Body := ''hi''\<rparr>,
              req_C = None\<rparr> (start_shared sample_client (NewWriter None ErrEOF) 0))"
proof -
  let ?S = "start_shared sample_client (NewWriter None ErrEOF) 0"
  let ?f = "(mk_frame SEND [(''content-length'', ''2''), (''destination'', ''/queue/a'')])\<lparr>Body := ''hi''\<rparr>"
  have two: "FormatUint (length ''hi'') = ''2''" by code_simp
  have r: "run_ids (createSendFrame ''/queue/a'' [] ''hi'' []) (sh_lastId ?S) = Some (Inr ?f, 0)"
    by (simp add: createSendFrame_def Let_def two start_shared_def del: list.size)
       (simp add: mk_frame_def Header_Set_def Header_index_def)
  have "counted (?S\<lparr>sh_lastId := 0\<rparr>) = ?S" by (simp add: counted_def start_shared_def sample_client_def)
  with send_outcomes [OF _ _ _ r, of 1 sample_client] show ?thesis
    by (simp add: start_shared_def sample_client_def)
qed

subsection \<open>The processing loop\<close>

text \<open>
  What a turn of the loop does to the response channels and to the network, when every send on a
  channel finds its receiver.
\<close>

datatype chan_act = ActPut "chan_ref option" Frame | ActClose "chan_ref option"

primrec emit :: "'r prog \<Rightarrow> bufio_writer \<Rightarrow> chan_act list \<times> 'r option \<times> bufio_writer" where
  "emit (Return r) w = ([], Some r, w)"
| "emit (Crash m) w = ([], None, w)"
| "emit (Lock p) w = ([], None, w)"
| "emit (Unlock p) w = ([], None, w)"
| "emit (ReadClosed k) w = ([], None, w)"
| "emit (SetClosed p) w = ([], None, w)"
| "emit (CloseConn k) w = ([], None, w)"
| "emit (CloseWriteCh p) w = ([], None, w)"
| "emit (AllocId k) w = ([], None, w)"
| "emit (MakeChan k) w = ([], None, w)"
| "emit (CountWrite p) w = ([], None, w)"
| "emit (PutRequest r d k) w = ([], None, w)"
| "emit (RecvFrame c d k) w = ([], None, w)"
| "emit (PutFrame c f p) w = (let (acts, r, w') = emit p w in (ActPut c f # acts, r, w'))"
| "emit (CloseChan c p) w = (let (acts, r, w') = emit p w in (ActClose c # acts, r, w'))"
| "emit (WriteFrame f k) w = emit (k (fst (Writer_Write f w))) (snd (Writer_Write f w))"
| "emit (NewSub k) w = ([], None, w)"
| "emit (Spawn s c p) w = ([], None, w)"
| "emit (CasState s i j k) w = ([], None, w)"
| "emit (LoadState s k) w = ([], None, w)"
| "emit (StoreState s i p) w = ([], None, w)"
| "emit (PutMessage s msg p) w = ([], None, w)"
| "emit (TakeMessage s k) w = ([], None, w)"
| "emit (CloseC s p) w = ([], None, w)"
| "emit (OnceEnter s k) w = ([], None, w)"
| "emit (OnceLeave s p) w = ([], None, w)"
| "emit (LockSub s p) w = ([], None, w)"
| "emit (UnlockSub s p) w = ([], None, w)"
| "emit (CondRegister s p) w = ([], None, w)"
| "emit (CondBlock s d k) w = ([], None, w)"
| "emit (Broadcast s p) w = ([], None, w)"

fun loop_run ::
    "(string \<Rightarrow> string) \<Rightarrow> ClientConn \<Rightarrow> visit \<Rightarrow> loop_event list \<Rightarrow> LoopState \<Rightarrow> bufio_writer \<Rightarrow>
      chan_act list \<times> LoopState option \<times> bufio_writer" where
  "loop_run quote c order [] l w = ([], Some l, w)"
| "loop_run quote c order (ev # evs) l w =
     (case emit (client_processLoop_turn quote c order ev l) w of
        (acts, Some (LoopAt l'), w') \<Rightarrow>
          (let (acts', l'', w'') = loop_run quote c order evs l' w' in (acts @ acts', l'', w''))
      | (acts, _, w') \<Rightarrow> (acts, None, w'))"

text \<open>
  The events of a running connection: requests that expect no answer, heart-beats in both
  directions, and messages.
\<close>

fun traffic :: "loop_event \<Rightarrow> bool" where
  "traffic (EvRequest r) = (req_C r = None \<and> Command (req_Frame r) \<notin> {SUBSCRIBE, UNSUBSCRIBE})"
| "traffic (EvRead None) = True"
| "traffic (EvRead (Some f)) = (Command f = MESSAGE)"
| "traffic EvWriteTimeout = True"
| "traffic _ = False"

text \<open>The bytes an event causes, and what it gives to the subscriptions.\<close>

fun event_bytes :: "loop_event \<Rightarrow> bytes" where
  "event_bytes (EvRequest r) = frame_bytes (Some (req_Frame r))"
| "event_bytes EvWriteTimeout = frame_bytes None"
| "event_bytes _ = []"

fun event_acts :: "channels \<Rightarrow> loop_event \<Rightarrow> chan_act list" where
  "event_acts m (EvRead (Some f)) =
     (case Header_Contains (Hdr f) SubscriptionHdr of
        None \<Rightarrow> []
      | Some i \<Rightarrow> (case m i of None \<Rightarrow> [] | Some ch \<Rightarrow> [ActPut ch f]))"
| "event_acts m _ = []"

lemma traffic_turn:
  assumes "traffic ev" and "ready w"
  shows "\<exists>l' w'. emit (client_processLoop_turn quote c order ev l) w = (event_acts (ls_channels l) ev, Some (LoopAt l'), w') \<and>
    ls_channels l' = ls_channels l \<and> ready w' \<and> w_out w' = w_out w @ event_bytes ev"
proof (cases ev)
  case (EvRequest r)
  obtain w' where w': "Writer_Write (Some (req_Frame r)) w = (None, w')" "ready w'"
    "w_out w' = w_out w @ frame_bytes (Some (req_Frame r))" using Writer_Write_ready [OF assms(2)] by blast
  with EvRequest assms(1) show ?thesis
    by (auto simp: client_processLoop_turn_def on_request_def write_request_def note_receipt_def loop_arm_def Let_def)
next
  case EvWriteTimeout
  obtain w' where "Writer_Write None w = (None, w')" "ready w'" "w_out w' = w_out w @ frame_bytes None"
    using Writer_Write_ready [OF assms(2)] by blast
  with EvWriteTimeout show ?thesis by (auto simp: client_processLoop_turn_def loop_arm_def Let_def)
next
  case (EvRead fo)
  with assms show ?thesis
    by (cases fo) (auto simp: client_processLoop_turn_def on_frame_def loop_arm_def Let_def split: option.split)
qed (use assms in simp_all)



subsection \<open>The reader of a subscription\<close>

text \<open>Run a program for at most \<open>n\<close> actions; the result if it returns.\<close>

fun finish :: "nat \<Rightarrow> tid \<Rightarrow> 'r prog \<Rightarrow> Shared \<Rightarrow> ('r \<times> Shared) option" where
  "finish 0 t p S = (case p of Return r \<Rightarrow> Some (r, S) | _ \<Rightarrow> None)"
| "finish (Suc n) t p S =
     (case p of
        Return r \<Rightarrow> Some (r, S)
      | _ \<Rightarrow> (case fire t None p S of None \<Rightarrow> None | Some (p', S') \<Rightarrow> finish n t p' S'))"

text \<open>
  The reader on a sequence of receives. A turn takes at most seven actions after its receive.
\<close>

fun sub_reads :: "tid \<Rightarrow> ClientSub \<Rightarrow> chan_ref \<Rightarrow> reply list \<Rightarrow> Shared \<Rightarrow> (outcome \<times> Shared) option" where
  "sub_reads t s ch [] S = Some (SubAt s ch, S)"
| "sub_reads t s ch (r # rs) S =
     (case sub_readLoop_turn s ch of
        RecvFrame _ _ k \<Rightarrow>
          (case finish 7 t (k r) S of
             Some (SubAt _ _, S') \<Rightarrow> sub_reads t s ch rs S'
           | x \<Rightarrow> x)
      | _ \<Rightarrow> None)"

definition sub_open :: "nat \<Rightarrow> Shared \<Rightarrow> bool" where
  "sub_open s S \<longleftrightarrow> ss_state (sh_subs S s) \<in> {subStateActive, subStateClosing} \<and> ss_once (sh_subs S s) = OnceFresh \<and>
     \<not> ss_closedC (sh_subs S s)"

text \<open>The state of a subscription that the reader has closed, with \<open>ms\<close> handed over.\<close>

definition sub_ended :: "nat \<Rightarrow> Message list \<Rightarrow> Shared \<Rightarrow> Shared" where
  "sub_ended s ms S = upd_sub s (\<lambda>x. x\<lparr>ss_C := ss_C x @ ms, ss_state := subStateClosed, ss_closedC := True,
     ss_waiting := 0, ss_woken := ss_woken x + ss_waiting x, ss_once := OnceDone\<rparr>) S"

definition end_messages :: "ClientSub \<Rightarrow> reply \<Rightarrow> Message list option" where
  "end_messages s r =
     (case r of
        Got f \<Rightarrow> if Command f = ERROR then Some [error_message s f] else if Command f = RECEIPT then Some [] else None
      | ChanClosed \<Rightarrow> Some [subscriptionErrorMessage s ''channel read failed'']
      | Expired \<Rightarrow> None)"

lemma sub_reads_message:
  assumes "Command f = MESSAGE" and "\<not> ss_closedC (sh_subs S (cs_ref s))"
    and "length (ss_C (sh_subs S (cs_ref s))) < sub_capacity"
  shows "sub_reads t s ch (Got f # rs) S =
    sub_reads t s ch rs (upd_sub (cs_ref s) (\<lambda>x. x\<lparr>ss_C := ss_C x @ [frame_message s f]\<rparr>) S)"
  using assms by (simp add: sub_readLoop_turn_def eval_nat_numeral)

lemma finish_closeChannel:
  assumes "sub_open (cs_ref s) S" and "length (ss_C (sh_subs S (cs_ref s))) < sub_capacity"
  shows "finish (Suc (Suc (Suc (Suc (Suc (Suc 0)))))) t (closeChannel s mo (Return SubExit)) S =
    Some (SubExit, sub_ended (cs_ref s) (case mo of None \<Rightarrow> [] | Some m \<Rightarrow> [m]) S)"
  using assms
  by (cases mo) (auto simp: closeChannel_def sub_open_def sub_ended_def upd_sub_def Let_def)

lemma sub_reads_end:
  assumes "end_messages s r = Some ms" and "sub_open (cs_ref s) S"
    and "length (ss_C (sh_subs S (cs_ref s))) < sub_capacity"
  shows "sub_reads t s ch (r # rs) S = Some (SubExit, sub_ended (cs_ref s) ms S)"
proof -
  have st: "ss_state (sh_subs S (cs_ref s)) = 0 \<or> ss_state (sh_subs S (cs_ref s)) = 1"
    using assms(2) by (auto simp: sub_open_def)
  note fin = finish_closeChannel [OF assms(2,3), of t]
  show ?thesis
  proof (cases r)
    case (Got f)
    with assms(1) consider "Command f = ERROR" "ms = [error_message s f]" | "Command f = RECEIPT" "ms = []"
      by (auto simp: end_messages_def split: if_splits)
    then show ?thesis
      using Got st fin [of "Some (error_message s f)"] fin [of None]
      by cases (simp_all add: sub_readLoop_turn_def eval_nat_numeral del: finish.simps(2)
          add: finish.simps(2) [of "Suc (Suc (Suc (Suc (Suc (Suc 0)))))"])
  next
    case ChanClosed
    with assms(1) st fin [of "Some (subscriptionErrorMessage s ''channel read failed'')"] show ?thesis
      by (simp add: end_messages_def sub_readLoop_turn_def eval_nat_numeral del: finish.simps(2)
          add: finish.simps(2) [of "Suc (Suc (Suc (Suc (Suc (Suc 0)))))"])
  qed (use assms(1) in \<open>simp add: end_messages_def\<close>)
qed

lemma sub_reads_messages:
  "list_all (\<lambda>f. Command f = MESSAGE) fs \<Longrightarrow> \<not> ss_closedC (sh_subs S (cs_ref s)) \<Longrightarrow>
     length (ss_C (sh_subs S (cs_ref s))) + length fs \<le> sub_capacity \<Longrightarrow>
     sub_reads t s ch (map Got fs @ rs) S =
       sub_reads t s ch rs (upd_sub (cs_ref s) (\<lambda>x. x\<lparr>ss_C := ss_C x @ map (frame_message s) fs\<rparr>) S)"
proof (induction fs arbitrary: S)
  case Nil
  have "upd_sub (cs_ref s) (\<lambda>x. x) S = S" by (cases S) (simp add: upd_sub_def)
  then show ?case by simp
next
  case (Cons f fs)
  let ?S = "upd_sub (cs_ref s) (\<lambda>x. x\<lparr>ss_C := ss_C x @ [frame_message s f]\<rparr>) S"
  have "sub_reads t s ch (map Got (f # fs) @ rs) S = sub_reads t s ch (map Got fs @ rs) ?S"
    using Cons.prems by (simp add: sub_reads_message del: sub_reads.simps)
  also have "\<dots> = sub_reads t s ch rs (upd_sub (cs_ref s) (\<lambda>x. x\<lparr>ss_C := ss_C x @ map (frame_message s) fs\<rparr>) ?S)"
    using Cons.prems by (intro Cons.IH) (simp_all add: upd_sub_def)
  also have "upd_sub (cs_ref s) (\<lambda>x. x\<lparr>ss_C := ss_C x @ map (frame_message s) fs\<rparr>) ?S =
      upd_sub (cs_ref s) (\<lambda>x. x\<lparr>ss_C := ss_C x @ map (frame_message s) (f # fs)\<rparr>) S"
    by (simp add: upd_sub_def)
  finally show ?case .
qed

text \<open>
  Property C20. A subscription hands over what it receives: the \<open>MESSAGE\<close> frames become messages on
  its channel \<open>C\<close>, in order and unchanged. An \<open>ERROR\<close> frame adds a message with the error, a
  \<open>RECEIPT\<close> (the answer to \<open>UNSUBSCRIBE\<close>) adds nothing, a closed connection adds an error;
  after any of these the subscription is closed, \<open>C\<close> is closed, every waiting \<open>Unsubscribe\<close> is
  woken, and nothing more is read.
\<close>

theorem subscription_hands_over:
  assumes "list_all (\<lambda>f. Command f = MESSAGE) fs" and "sub_open (cs_ref s) S"
    and "length (ss_C (sh_subs S (cs_ref s))) + length fs < sub_capacity" and "end_messages s r = Some ms"
  shows "sub_reads t s ch (map Got fs) S =
      Some (SubAt s ch, upd_sub (cs_ref s) (\<lambda>x. x\<lparr>ss_C := ss_C x @ map (frame_message s) fs\<rparr>) S) \<and>
    sub_reads t s ch (map Got fs @ r # rs) S =
      Some (SubExit, sub_ended (cs_ref s) (map (frame_message s) fs @ ms) S)"
proof -
  let ?S = "upd_sub (cs_ref s) (\<lambda>x. x\<lparr>ss_C := ss_C x @ map (frame_message s) fs\<rparr>) S"
  have "\<not> ss_closedC (sh_subs S (cs_ref s))" using assms(2) by (simp add: sub_open_def)
  note msgs = sub_reads_messages [OF assms(1) this, of t ch]
  have "sub_open (cs_ref s) ?S" "length (ss_C (sh_subs ?S (cs_ref s))) < sub_capacity"
    using assms(2,3) by (simp_all add: sub_open_def upd_sub_def)
  from sub_reads_end [OF assms(4) this, of t ch rs]
  have "sub_reads t s ch (r # rs) ?S = Some (SubExit, sub_ended (cs_ref s) (map (frame_message s) fs @ ms) S)"
    by (simp add: sub_ended_def upd_sub_def del: sub_reads.simps)
  with msgs [of "[]"] msgs [of "r # rs"] assms(3) show ?thesis by simp
qed

theorem subscription_hands_over_witness:
  "sub_reads 1 sample_sub 0 [Got (mk_frame MESSAGE []), Got (mk_frame RECEIPT []), Got (mk_frame MESSAGE [])]
     (start_shared sample_client (NewWriter None ErrEOF) 0) =
   Some (SubExit, sub_ended 0 [frame_message sample_sub (mk_frame MESSAGE [])]
     (start_shared sample_client (NewWriter None ErrEOF) 0))"
  using subscription_hands_over [of "[mk_frame MESSAGE []]" sample_sub "start_shared sample_client (NewWriter None ErrEOF) 0"
      "Got (mk_frame RECEIPT [])" "[]" 1 0 "[Got (mk_frame MESSAGE [])]"]
  by (simp add: sub_open_def sample_sub_def start_shared_def new_sub_state_def sub_capacity_def end_messages_def
      del: sub_reads.simps)

end
