(* ===== verification/Server_Negotiation.thy ===== *)
theory Server_Negotiation
  imports Stomp_Core "HOL-Library.Char_ord" "HOL-Library.List_Lexorder"
begin

section \<open>Negotiation: server/client/frame.go, util.go, errors.go\<close>

text \<open>
  What the server reads from a \<open>CONNECT\<close> or \<open>STOMP\<close> frame: the protocol version and the
  heart-beat values. \<open>sort.Strings\<close> sorts by bytes, which is the lexicographic order of
  \<open>HOL-Library.List_Lexorder\<close> over the order of \<open>HOL-Library.Char_ord\<close>.
\<close>

subsection \<open>Error messages\<close>

abbreviation notConnected :: go_error where
  "notConnected \<equiv> errorMessage ''expected CONNECT or STOMP frame''"
abbreviation unexpectedCommand :: go_error where
  "unexpectedCommand \<equiv> errorMessage ''unexpected frame command''"
abbreviation unknownCommand :: go_error where
  "unknownCommand \<equiv> errorMessage ''unknown command''"
abbreviation receiptInConnect :: go_error where
  "receiptInConnect \<equiv> errorMessage ''receipt header prohibited in CONNECT or STOMP frame''"
abbreviation authenticationFailed :: go_error where
  "authenticationFailed \<equiv> errorMessage ''authentication failed''"
abbreviation txAlreadyInProgress :: go_error where
  "txAlreadyInProgress \<equiv> errorMessage ''transaction already in progress''"
abbreviation txUnknown :: go_error where
  "txUnknown \<equiv> errorMessage ''unknown transaction''"
abbreviation unsupportedVersion :: go_error where
  "unsupportedVersion \<equiv> errorMessage ''unsupported version''"
abbreviation subscriptionExists :: go_error where
  "subscriptionExists \<equiv> errorMessage ''subscription already exists''"
abbreviation subscriptionNotFound :: go_error where
  "subscriptionNotFound \<equiv> errorMessage ''subscription not found''"
abbreviation unknownVersion :: go_error where
  "unknownVersion \<equiv> errorMessage ''incompatible version''"
abbreviation notConnectFrame :: go_error where
  "notConnectFrame \<equiv> errorMessage ''operation valid for STOMP and CONNECT frames only''"
abbreviation invalidHeartBeat :: go_error where
  "invalidHeartBeat \<equiv> errorMessage ''invalid format for heart-beat''"
abbreviation invalidOperationForFrame :: go_error where
  "invalidOperationForFrame \<equiv> errorMessage ''invalid operation for frame''"

definition missingHeader :: "string \<Rightarrow> go_error" where
  "missingHeader name = errorMessage (''missing header: '' @ name)"

definition prohibitedHeader :: "string \<Rightarrow> go_error" where
  "prohibitedHeader name = errorMessage (''prohibited header: '' @ name)"

subsection \<open>Version\<close>

fun version_step :: "string \<times> go_error option \<Rightarrow> string \<Rightarrow> string \<times> go_error option" where
  "version_step (version, err) v =
     (if v = V10 then (V10, None)
      else if v = V11 then (V11, None)
      else if v = V12 then (V12, None)
      else (version, err))"

definition determineVersion :: "Frame \<Rightarrow> string \<times> go_error option" where
  "determineVersion f =
     (let isConnect = (Command f = CONNECT)
      in if \<not> isConnect \<and> Command f \<noteq> STOMP then ([], Some notConnectFrame)
         else case Header_Contains (Hdr f) AcceptVersion of
                Some acceptVersion \<Rightarrow>
                  foldl version_step ([], Some unknownVersion) (sort (Split acceptVersion (CHR '','')))
              | None \<Rightarrow>
                  if isConnect then (V10, None)
                  else ([], Some (missingHeader AcceptVersion)))"

lemma version_fold:
  "foldl version_step acc vs =
     (let ws = filter (\<lambda>v. v \<in> {V10, V11, V12}) vs in if ws = [] then acc else (last ws, None))"
  by (induction vs arbitrary: acc) (auto simp: Let_def)

lemma version_order: "V10 < V11" "V11 < V12" "V10 < V12"
  by (simp_all add: less_char_def)

lemma last_sorted_max:
  fixes ws :: "string list"
  assumes "sorted ws" and "ws \<noteq> []" and "set ws \<subseteq> {V10, V11, V12}"
  shows "last ws = (if V12 \<in> set ws then V12 else if V11 \<in> set ws then V11 else V10)"
proof -
  have top: "w \<le> last ws" if "w \<in> set ws" for w
    using assms(1) that by (induction ws) (auto split: if_splits)
  have mem: "last ws \<in> set ws" using assms(2) by simp
  with assms(3) have cases3: "last ws \<in> {V10, V11, V12}" by blast
  show ?thesis
    using top [of V12] top [of V11] mem cases3 version_order by fastforce
qed

lemma determineVersion_eq:
  "determineVersion f =
     (if Command f = CONNECT \<or> Command f = STOMP
      then case Header_Contains (Hdr f) AcceptVersion of
             Some av \<Rightarrow>
               (let vs = set (Split av (CHR '',''))
                in if V12 \<in> vs then (V12, None) else if V11 \<in> vs then (V11, None)
                   else if V10 \<in> vs then (V10, None) else ([], Some unknownVersion))
           | None \<Rightarrow> if Command f = CONNECT then (V10, None) else ([], Some (missingHeader AcceptVersion))
      else ([], Some notConnectFrame))"
proof (cases "Header_Contains (Hdr f) AcceptVersion")
  case None
  then show ?thesis by (auto simp: determineVersion_def Let_def)
next
  case (Some av)
  let ?ws = "filter (\<lambda>v. v \<in> {V10, V11, V12}) (sort (Split av (CHR '','')))"
  have set_ws: "set ?ws = set (Split av (CHR '','')) \<inter> {V10, V11, V12}" by auto
  have "last ?ws = (if V12 \<in> set ?ws then V12 else if V11 \<in> set ?ws then V11 else V10)" if "?ws \<noteq> []"
    using that by (intro last_sorted_max) (auto intro: sorted_filter [where f = id, simplified])
  moreover have "?ws = [] \<longleftrightarrow> set ?ws = {}" by (simp only: set_empty)
  ultimately have "foldl version_step ([], Some unknownVersion) (sort (Split av (CHR '',''))) =
      (let vs = set (Split av (CHR '',''))
       in if V12 \<in> vs then (V12, None) else if V11 \<in> vs then (V11, None)
          else if V10 \<in> vs then (V10, None) else ([], Some unknownVersion))"
    unfolding version_fold Let_def set_ws by (auto simp del: set_filter)
  with Some show ?thesis by (simp add: determineVersion_def Let_def)
qed

text \<open>
  Version negotiation picks the latest version both sides know: for a
  \<open>CONNECT\<close> or \<open>STOMP\<close> frame with an \<open>accept-version\<close> entry, in whatever order and with
  whatever unknown versions the client lists them, the result is 1.2 if the client lists it,
  else 1.1, else 1.0, else the error \<open>unknownVersion\<close>. A \<open>CONNECT\<close> frame without the
  entry means 1.0, a \<open>STOMP\<close> frame without it and every other command is an error.
\<close>

theorem determine_version_latest:
  "determineVersion f =
     (if Command f = CONNECT \<or> Command f = STOMP
      then case Header_Contains (Hdr f) AcceptVersion of
             Some av \<Rightarrow>
               (let vs = set (Split av (CHR '',''))
                in if V12 \<in> vs then (V12, None) else if V11 \<in> vs then (V11, None)
                   else if V10 \<in> vs then (V10, None) else ([], Some unknownVersion))
           | None \<Rightarrow> if Command f = CONNECT then (V10, None) else ([], Some (missingHeader AcceptVersion))
      else ([], Some notConnectFrame))"
  by (rule determineVersion_eq)

subsection \<open>Heart-beat\<close>

definition maxHeartBeat :: int where
  "maxHeartBeat = 999999999"

definition heartBeatRegexp9 :: "string \<Rightarrow> bool" where
  "heartBeatRegexp9 s = match_two_numbers (\<lambda>n. 1 \<le> n \<and> n \<le> 9) s"

text \<open>\<open>value, _ := strconv.ParseUint(s, 10, 32)\<close>: on a range error the value is the maximum.\<close>

definition parse_uint32_or_max :: "string \<Rightarrow> int" where
  "parse_uint32_or_max s =
     (case ParseUint s 32 of
        Inr n \<Rightarrow> int n
      | Inl ErrRange \<Rightarrow> 2 ^ 32 - 1
      | Inl ErrSyntax \<Rightarrow> 0)"

definition getHeartBeat :: "Frame \<Rightarrow> int \<times> int \<times> go_error option" where
  "getHeartBeat f =
     (if Command f \<noteq> CONNECT \<and> Command f \<noteq> STOMP \<and> Command f \<noteq> CONNECTED
      then (0, 0, Some invalidOperationForFrame)
      else case Header_Contains (Hdr f) HeartBeat of
             Some heartBeat \<Rightarrow>
               if \<not> heartBeatRegexp9 heartBeat then (0, 0, Some invalidHeartBeat)
               else (case Split heartBeat (CHR '','') of
                       v1 # v2 # _ \<Rightarrow> (parse_uint32_or_max v1, parse_uint32_or_max v2, None)
                     | _ \<Rightarrow> (0, 0, None))
           | None \<Rightarrow> (0, 0, None))"

definition asMilliseconds :: "duration \<Rightarrow> int \<Rightarrow> int" where
  "asMilliseconds d mx =
     (let max64 = (if mx < 0 then 0 else mx);
          msec64 = quot d Millisecond
      in if msec64 > max64 then max64 else msec64)"

lemma dec_val_bound: "\<forall>c \<in> set s. is_digit c \<Longrightarrow> dec_val s < 10 ^ length s"
proof (induction s rule: rev_induct)
  case Nil
  then show ?case by (simp add: dec_val_def)
next
  case (snoc c s)
  then have "dec_val s < 10 ^ length s" "digit_val c < 10"
    by (auto simp: digit_val_def is_digit_def)
  then show ?case by simp
qed

lemma parse_uint32_short:
  assumes "s \<noteq> []" and "list_all is_digit s" and "length s \<le> 9"
  shows "parse_uint32_or_max s = int (dec_val s)" "dec_val s \<le> 999999999"
proof -
  have "dec_val s < 10 ^ length s" using assms(2) by (simp add: dec_val_bound list_all_iff)
  also have "\<dots> \<le> (10::nat) ^ 9" using assms(3) by (intro power_increasing) auto
  finally have small: "dec_val s < 10 ^ 9" .
  then show "dec_val s \<le> 999999999" by simp
  have "ParseUint s 32 = Inr (dec_val s)"
    using assms small by (simp add: ParseUint_Inr list_all_iff)
  then show "parse_uint32_or_max s = int (dec_val s)" by (simp add: parse_uint32_or_max_def)
qed

lemma get_heart_beat_facts:
  assumes "Command f \<in> {CONNECT, STOMP, CONNECTED}"
  shows "getHeartBeat f =
    (case Header_Contains (Hdr f) HeartBeat of
       None \<Rightarrow> (0, 0, None)
     | Some s \<Rightarrow>
         if heartBeatRegexp9 s
         then (int (dec_val (Split s (CHR '','') ! 0)), int (dec_val (Split s (CHR '','') ! 1)), None)
         else (0, 0, Some invalidHeartBeat))"
    and "getHeartBeat f = (cx, cy, err) \<Longrightarrow> 0 \<le> cx \<and> cx \<le> maxHeartBeat \<and> 0 \<le> cy \<and> cy \<le> maxHeartBeat"
proof -
  have val: "getHeartBeat f = (int (dec_val a), int (dec_val b), None) \<and> Split s (CHR '','') = [a, b] \<and>
      dec_val a \<le> 999999999 \<and> dec_val b \<le> 999999999"
    if "Header_Contains (Hdr f) HeartBeat = Some s" "two_numbers (\<lambda>n. 1 \<le> n \<and> n \<le> 9) s a b" for s a b
  proof -
    from that(2) have "parse_uint32_or_max a = int (dec_val a)" "dec_val a \<le> 999999999"
      "parse_uint32_or_max b = int (dec_val b)" "dec_val b \<le> 999999999"
      using parse_uint32_short by (auto simp: two_numbers_def)
    moreover have "heartBeatRegexp9 s" using that(2) by (auto simp: heartBeatRegexp9_def match_two_numbers_iff)
    ultimately show ?thesis
      using assms that(1) two_numbers_Split [OF that(2)] by (auto simp: getHeartBeat_def)
  qed
  show eq: "getHeartBeat f =
    (case Header_Contains (Hdr f) HeartBeat of
       None \<Rightarrow> (0, 0, None)
     | Some s \<Rightarrow>
         if heartBeatRegexp9 s
         then (int (dec_val (Split s (CHR '','') ! 0)), int (dec_val (Split s (CHR '','') ! 1)), None)
         else (0, 0, Some invalidHeartBeat))"
  proof (cases "Header_Contains (Hdr f) HeartBeat")
    case None
    with assms show ?thesis by (auto simp: getHeartBeat_def)
  next
    case (Some s)
    show ?thesis
    proof (cases "heartBeatRegexp9 s")
      case True
      then obtain a b where "two_numbers (\<lambda>n. 1 \<le> n \<and> n \<le> 9) s a b"
        by (auto simp: heartBeatRegexp9_def match_two_numbers_iff)
      with val [OF Some this] Some True show ?thesis by simp
    next
      case False
      with assms Some show ?thesis by (auto simp: getHeartBeat_def)
    qed
  qed
  show "0 \<le> cx \<and> cx \<le> maxHeartBeat \<and> 0 \<le> cy \<and> cy \<le> maxHeartBeat" if r: "getHeartBeat f = (cx, cy, err)"
  proof (cases "\<exists>s a b. Header_Contains (Hdr f) HeartBeat = Some s \<and> two_numbers (\<lambda>n. 1 \<le> n \<and> n \<le> 9) s a b")
    case True
    with val r show ?thesis by (auto simp: maxHeartBeat_def)
  next
    case False
    then have "\<not> heartBeatRegexp9 s" if "Header_Contains (Hdr f) HeartBeat = Some s" for s
      using that by (auto simp: heartBeatRegexp9_def match_two_numbers_iff)
    with eq r show ?thesis by (auto simp: maxHeartBeat_def split: option.splits)
  qed
qed

text \<open>
  The heart-beat of a connect frame: a missing entry is \<open>0,0\<close>; an entry is
  accepted exactly when it is two numbers of one to nine digits with a comma between them,
  and is then read exactly (the ignored errors of \<open>ParseUint\<close> never occur); all values are
  between 0 and \<open>maxHeartBeat\<close>; everything else is an error with the values 0.
\<close>

theorem get_heart_beat_spec:
  assumes "Command f \<in> {CONNECT, STOMP, CONNECTED}"
  shows "getHeartBeat f =
    (case Header_Contains (Hdr f) HeartBeat of
       None \<Rightarrow> (0, 0, None)
     | Some s \<Rightarrow>
         if heartBeatRegexp9 s
         then (int (dec_val (Split s (CHR '','') ! 0)), int (dec_val (Split s (CHR '','') ! 1)), None)
         else (0, 0, Some invalidHeartBeat)) \<and>
    fst (getHeartBeat f) \<in> {0..maxHeartBeat} \<and> fst (snd (getHeartBeat f)) \<in> {0..maxHeartBeat}"
proof -
  obtain cx cy err where r: "getHeartBeat f = (cx, cy, err)" using prod_cases3 by blast
  from get_heart_beat_facts(2) [OF assms r] r
  have "fst (getHeartBeat f) \<in> {0..maxHeartBeat} \<and> fst (snd (getHeartBeat f)) \<in> {0..maxHeartBeat}" by simp
  with get_heart_beat_facts(1) [OF assms] show ?thesis by blast
qed

theorem get_heart_beat_witness:
  "getHeartBeat (mk_frame CONNECT [(''heart-beat'', ''1000,0'')]) = (1000, 0, None)"
proof -
  let ?f = "mk_frame CONNECT [(''heart-beat'', ''1000,0'')]"
  have "Command ?f \<in> {CONNECT, STOMP, CONNECTED}" by simp
  from get_heart_beat_spec [OF this] show ?thesis
    by (simp add: heartBeatRegexp9_def match_two_numbers_def is_digit_def dec_val_def digit_val_def)
qed

text \<open>
  \<open>asMilliseconds\<close> of a non-negative duration is its whole milliseconds, cut off
  at \<open>max\<close> (at 0 for a negative \<open>max\<close>); of a negative duration it is not positive, so the
  result never exceeds the bound.
\<close>

theorem as_milliseconds_spec:
  "asMilliseconds d mx \<le> max 0 mx \<and>
   (0 \<le> d \<longrightarrow> asMilliseconds d mx = min (d div Millisecond) (max 0 mx)) \<and>
   (d < 0 \<longrightarrow> asMilliseconds d mx = - (- d div Millisecond))"
proof -
  have neg: "quot d Millisecond = - (- d div Millisecond)" if "d < 0"
    using that by (simp add: quot_def sgn_if)
  have "0 \<le> - d div Millisecond" if "d < 0" using that by (simp add: pos_imp_zdiv_nonneg_iff)
  with neg show ?thesis
    by (cases "d < 0") (auto simp: asMilliseconds_def Let_def quot_def sgn_if)
qed

theorem as_milliseconds_witness: "asMilliseconds 1500000 maxHeartBeat = 1"
  using as_milliseconds_spec [of 1500000 maxHeartBeat] by (simp add: maxHeartBeat_def)

end
