(* ===== verification/Server_Subscription.thy ===== *)
theory Server_Subscription
  imports Server_Negotiation
begin

section \<open>Subscriptions: server/client/subscription.go, subscription_list.go, request.go\<close>

text \<open>
  A \<open>Subscription\<close> is an object that the connection, a queue or topic, and the channels share
  by pointer; it is modelled in an explicit store \<open>sub_store\<close> from references to records, so
  that a change made by one holder is seen by the others. A \<open>SubscriptionList\<close> is the list of
  references it holds; \<open>list_ref\<close> names the list objects, for the back pointer \<open>subList\<close>
  of a subscription.

  Sending to a channel of a connection is returned as a \<open>Delivery\<close>; the goroutine that
  performs the send blocks until the channel has room (theory \<open>Server_Processor\<close>).
\<close>

type_synonym conn_ref = nat
type_synonym sub_ref = nat

datatype list_ref = ConnList conn_ref | QueueList string

record Subscription =
  sub_conn :: conn_ref
  sub_dest :: string
  sub_id :: string
  sub_ack :: string
  sub_msgId :: "64 word"
  sub_subList :: "list_ref option"
  sub_frame :: "Frame option"

type_synonym sub_store = "sub_ref \<Rightarrow> Subscription"

text \<open>Requests from a connection to the upper layer (\<open>request.go\<close>).\<close>

datatype Request =
    SubscribeOp sub_ref
  | UnsubscribeOp sub_ref
  | EnqueueOp Frame
  | RequeueOp "Frame option"
  | ConnectedOp conn_ref
  | DisconnectedOp conn_ref

text \<open>Sends from the upper layer to the channels of a connection.\<close>

datatype Delivery =
    ToSubChannel conn_ref sub_ref
  | ToWriteChannel conn_ref Frame

subsection \<open>Operations of a subscription\<close>

definition newSubscription :: "conn_ref \<Rightarrow> string \<Rightarrow> string \<Rightarrow> string \<Rightarrow> Subscription" where
  "newSubscription c dest i ack =
     \<lparr>sub_conn = c, sub_dest = dest, sub_id = i, sub_ack = ack, sub_msgId = 0,
      sub_subList = None, sub_frame = None\<rparr>"

definition IsAckedBy :: "Subscription \<Rightarrow> 64 word \<Rightarrow> bool go" where
  "IsAckedBy s msgId =
     (if sub_ack s = AckAuto then Ret True
      else if sub_ack s = AckClient then Ret (msgId \<ge> sub_msgId s)
      else if sub_ack s = AckClientIndividual then Ret (msgId = sub_msgId s)
      else Panic ''invalid value for subscript.ack'')"

definition IsNackedBy :: "Subscription \<Rightarrow> 64 word \<Rightarrow> bool" where
  "IsNackedBy s msgId \<longleftrightarrow> msgId = sub_msgId s"

definition setSubscriptionHeader :: "Subscription \<Rightarrow> Frame \<Rightarrow> Frame go" where
  "setSubscriptionHeader s f =
     (if sub_frame s \<noteq> None then Panic ''subscription already has a frame pending''
      else Ret (f\<lparr>Hdr := Header_Set (Hdr f) SubscriptionHdr (sub_id s)\<rparr>))"

definition SendQueueFrame :: "sub_ref \<Rightarrow> Frame \<Rightarrow> sub_store \<Rightarrow> (sub_store \<times> Delivery) go" where
  "SendQueueFrame s f st =
     go_bind (setSubscriptionHeader (st s) f)
       (\<lambda>f'. Ret (st(s := (st s)\<lparr>sub_frame := Some f'\<rparr>), ToSubChannel (sub_conn (st s)) s))"

definition SendTopicFrame :: "sub_ref \<Rightarrow> Frame \<Rightarrow> sub_store \<Rightarrow> Delivery go" where
  "SendTopicFrame s f st =
     go_bind (setSubscriptionHeader (st s) f)
       (\<lambda>f'. Ret (ToWriteChannel (sub_conn (st s)) f'))"

subsection \<open>Operations of a subscription list\<close>

definition SL_Add :: "list_ref \<Rightarrow> sub_ref \<Rightarrow> sub_ref list \<Rightarrow> sub_store \<Rightarrow> (sub_ref list \<times> sub_store) go" where
  "SL_Add sl s subs st =
     (if sub_subList (st s) \<noteq> None then Panic ''subscription is already in a subscription list''
      else Ret (subs @ [s], st(s := (st s)\<lparr>sub_subList := Some sl\<rparr>)))"

definition SL_Get :: "sub_ref list \<Rightarrow> sub_store \<Rightarrow> sub_ref option \<times> sub_ref list \<times> sub_store" where
  "SL_Get subs st =
     (case subs of
        [] \<Rightarrow> (None, [], st)
      | s # rest \<Rightarrow> (Some s, rest, st(s := (st s)\<lparr>sub_subList := None\<rparr>)))"

fun SL_Remove :: "sub_ref \<Rightarrow> sub_ref list \<Rightarrow> sub_store \<Rightarrow> sub_ref list \<times> sub_store" where
  "SL_Remove s [] st = ([], st)"
| "SL_Remove s (e # rest) st =
     (if e = s then (rest, st(s := (st s)\<lparr>sub_subList := None\<rparr>))
      else let (rest', st') = SL_Remove s rest st in (e # rest', st'))"

fun SL_FindByIdAndRemove :: "string \<Rightarrow> sub_ref list \<Rightarrow> sub_store \<Rightarrow> sub_ref option \<times> sub_ref list" where
  "SL_FindByIdAndRemove i [] st = (None, [])"
| "SL_FindByIdAndRemove i (e # rest) st =
     (if sub_id (st e) = i then (Some e, rest)
      else let (found, rest') = SL_FindByIdAndRemove i rest st in (found, e # rest'))"

text \<open>
  \<open>Ack\<close> and \<open>Nack\<close> run a callback on every subscription they remove. The callback may change
  the store and the caller's variables (\<open>'r\<close>: the requests the connection sends). Neither
  clears the back pointer of what it removes, unlike \<open>Get\<close> and \<open>Remove\<close>.
\<close>

fun SL_Ack :: "64 word \<Rightarrow> (sub_ref \<Rightarrow> sub_store \<times> 'r \<Rightarrow> sub_store \<times> 'r) \<Rightarrow>
    sub_ref list \<Rightarrow> sub_store \<times> 'r \<Rightarrow> (sub_ref list \<times> sub_store \<times> 'r) go" where
  "SL_Ack msgId callback [] w = Ret ([], w)"
| "SL_Ack msgId callback (e # rest) w =
     (case IsAckedBy (fst w e) msgId of
        Panic m \<Rightarrow> Panic m
      | Ret acked \<Rightarrow>
          if acked then SL_Ack msgId callback rest (callback e w)
          else (case SL_Ack msgId callback rest w of
                  Panic m \<Rightarrow> Panic m
                | Ret (rest', w') \<Rightarrow> Ret (e # rest', w')))"

fun SL_Nack :: "64 word \<Rightarrow> (sub_ref \<Rightarrow> sub_store \<times> 'r \<Rightarrow> sub_store \<times> 'r) \<Rightarrow>
    sub_ref list \<Rightarrow> sub_store \<times> 'r \<Rightarrow> sub_ref list \<times> sub_store \<times> 'r" where
  "SL_Nack msgId callback [] w = ([], w)"
| "SL_Nack msgId callback (e # rest) w =
     (if IsNackedBy (fst w e) msgId then SL_Nack msgId callback rest (callback e w)
      else let (rest', w') = SL_Nack msgId callback rest w in (e # rest', w'))"

fun SL_ForEach :: "(sub_ref \<Rightarrow> bool \<Rightarrow> 'w \<Rightarrow> 'w) \<Rightarrow> sub_ref list \<Rightarrow> 'w \<Rightarrow> 'w" where
  "SL_ForEach callback [] w = w"
| "SL_ForEach callback (e # rest) w = SL_ForEach callback rest (callback e (rest = []) w)"

subsection \<open>The invariant of a list\<close>

text \<open>
  A list holds no subscription twice, and each one it holds points back to it. Since a
  subscription has one back pointer, it is in at most one list.
\<close>

definition list_inv :: "list_ref \<Rightarrow> sub_ref list \<Rightarrow> sub_store \<Rightarrow> bool" where
  "list_inv sl subs st \<longleftrightarrow> distinct subs \<and> (\<forall>s \<in> set subs. sub_subList (st s) = Some sl)"

lemma SL_Add_inv:
  assumes "SL_Add sl s subs st = Ret (subs', st')" and "list_inv sl subs st"
  shows "list_inv sl subs' st'" "subs' = subs @ [s]" "s \<notin> set subs"
  using assms by (auto simp: SL_Add_def list_inv_def split: if_splits)

lemma SL_Add_other:
  assumes "SL_Add sl s subs st = Ret (subs', st')" and "list_inv sl2 subs2 st"
  shows "sl2 = sl \<or> list_inv sl2 subs2 st'"
  using assms by (auto simp: SL_Add_def list_inv_def split: if_splits)

lemma SL_Get_inv:
  assumes "SL_Get subs st = (so, subs', st')" and "list_inv sl subs st"
  shows "list_inv sl subs' st'"
    and "so = None \<longleftrightarrow> subs = []"
    and "so = Some s \<Longrightarrow> subs = s # subs' \<and> sub_subList (st' s) = None"
  using assms by (auto simp: SL_Get_def list_inv_def split: list.splits)

lemma SL_Remove_remove1:
  "SL_Remove s subs st =
     (remove1 s subs, if s \<in> set subs then st(s := (st s)\<lparr>sub_subList := None\<rparr>) else st)"
  by (induction s subs st rule: SL_Remove.induct) auto

lemma SL_Remove_inv:
  assumes "SL_Remove s subs st = (subs', st')" and "list_inv sl subs st"
  shows "list_inv sl subs' st'" "s \<notin> set subs'"
  using assms by (auto simp: SL_Remove_remove1 list_inv_def)

lemma SL_Find_spec:
  "SL_FindByIdAndRemove i subs st = (found, subs') \<Longrightarrow>
     (case found of
        None \<Rightarrow> subs' = subs \<and> (\<forall>s \<in> set subs. sub_id (st s) \<noteq> i)
      | Some s \<Rightarrow> sub_id (st s) = i \<and> (\<exists>xs ys. subs = xs @ s # ys \<and> subs' = xs @ ys \<and>
          (\<forall>x \<in> set xs. sub_id (st x) \<noteq> i)))"
proof (induction i subs st arbitrary: found subs' rule: SL_FindByIdAndRemove.induct)
  case (1 i st)
  then show ?case by simp
next
  case (2 i e rest st)
  show ?case
  proof (cases "sub_id (st e) = i")
    case True
    with 2 have "found = Some e" "subs' = rest" by simp_all
    moreover have "e # rest = [] @ e # rest \<and> rest = [] @ rest \<and> (\<forall>x \<in> set []. sub_id (st x) \<noteq> i)" by simp
    ultimately show ?thesis using True by (simp only: option.case) blast
  next
    case False
    obtain f r where r: "SL_FindByIdAndRemove i rest st = (f, r)" by fastforce
    with 2 False have IH: "case f of
        None \<Rightarrow> r = rest \<and> (\<forall>s \<in> set rest. sub_id (st s) \<noteq> i)
      | Some s \<Rightarrow> sub_id (st s) = i \<and> (\<exists>xs ys. rest = xs @ s # ys \<and> r = xs @ ys \<and>
          (\<forall>x \<in> set xs. sub_id (st x) \<noteq> i))" by simp
    from 2 False r have eq: "found = f" "subs' = e # r" by auto
    show ?thesis
    proof (cases f)
      case None
      with IH eq False show ?thesis by simp
    next
      case (Some s)
      with IH obtain xs ys where "rest = xs @ s # ys" "r = xs @ ys" "\<forall>x \<in> set xs. sub_id (st x) \<noteq> i"
        "sub_id (st s) = i" by auto
      with eq False have "e # rest = (e # xs) @ s # ys" "subs' = (e # xs) @ ys"
        "\<forall>x \<in> set (e # xs). sub_id (st x) \<noteq> i" "found = Some s" "sub_id (st s) = i"
        using Some by simp_all
      then show ?thesis by (simp only: option.case) blast
    qed
  qed
qed

text \<open>\<open>ForEach\<close> visits the list in order and marks the last element only.\<close>

lemma SL_ForEach_snoc:
  "SL_ForEach callback (xs @ [x]) w = callback x True (fold (\<lambda>e w. callback e False w) xs w)"
  by (induction xs arbitrary: w) auto

subsection \<open>The contract of an acknowledgement callback\<close>

text \<open>
  The callbacks that \<open>handleAck\<close> and \<open>handleNack\<close> pass leave the acknowledgement mode and
  the message id of every subscription alone. That is all \<open>Ack\<close> and \<open>Nack\<close> need in order
  to decide each element on the store they started with.
\<close>

definition valid_ack :: "string \<Rightarrow> bool" where
  "valid_ack a \<longleftrightarrow> a \<in> {AckAuto, AckClient, AckClientIndividual}"

definition acked :: "64 word \<Rightarrow> Subscription \<Rightarrow> bool" where
  "acked msgId s \<longleftrightarrow> IsAckedBy s msgId = Ret True"

lemma IsAckedBy_valid: "valid_ack (sub_ack s) \<Longrightarrow> IsAckedBy s msgId = Ret (acked msgId s)"
  by (auto simp: valid_ack_def acked_def IsAckedBy_def)

lemma IsAckedBy_panics: "panics (IsAckedBy s msgId) \<longleftrightarrow> \<not> valid_ack (sub_ack s)"
  by (auto simp: valid_ack_def IsAckedBy_def)

definition same_ids :: "sub_store \<Rightarrow> sub_store \<Rightarrow> bool" where
  "same_ids st st' \<longleftrightarrow>
     (\<forall>s. sub_ack (st' s) = sub_ack (st s) \<and> sub_msgId (st' s) = sub_msgId (st s))"

lemma same_ids_trans: "same_ids a b \<Longrightarrow> same_ids b c \<Longrightarrow> same_ids a c"
  by (simp add: same_ids_def)

lemma same_ids_acked: "same_ids st st' \<Longrightarrow> acked m (st' s) = acked m (st s)"
  by (simp add: same_ids_def acked_def IsAckedBy_def)

locale ack_callback =
  fixes callback :: "sub_ref \<Rightarrow> sub_store \<times> 'r \<Rightarrow> sub_store \<times> 'r"
  assumes callback_ids: "same_ids (fst w) (fst (callback s w))"
begin

lemma fold_ids: "same_ids (fst w) (fst (fold callback xs w))"
proof (induction xs arbitrary: w)
  case Nil
  show ?case by (simp add: same_ids_def)
next
  case (Cons x xs)
  then show ?case using callback_ids same_ids_trans by fastforce
qed

lemma ack_partition:
  "(\<forall>s \<in> set subs. valid_ack (sub_ack (fst w s))) \<Longrightarrow>
     SL_Ack msgId callback subs w =
       Ret (filter (\<lambda>s. \<not> acked msgId (fst w s)) subs,
            fold callback (filter (\<lambda>s. acked msgId (fst w s)) subs) w)"
proof (induction subs arbitrary: w)
  case Nil
  then show ?case by simp
next
  case (Cons e rest)
  have keep: "same_ids (fst w) (fst (callback e w))" by (rule callback_ids)
  then have "\<forall>s \<in> set rest. valid_ack (sub_ack (fst (callback e w) s))"
    using Cons.prems by (simp add: same_ids_def)
  with Cons keep show ?case
    by (simp add: IsAckedBy_valid same_ids_acked)
qed

lemma nack_partition:
  "SL_Nack msgId callback subs w =
     (filter (\<lambda>s. \<not> IsNackedBy (fst w s) msgId) subs,
      fold callback (filter (\<lambda>s. IsNackedBy (fst w s) msgId) subs) w)"
proof (induction subs arbitrary: w)
  case Nil
  then show ?case by simp
next
  case (Cons e rest)
  have "IsNackedBy (fst (callback e w) s) m = IsNackedBy (fst w s) m" for s m
    using callback_ids [of w e] by (simp add: same_ids_def IsNackedBy_def)
  with Cons show ?case by simp
qed

end

text \<open>
  The closures of \<open>handleAck\<close> (\<open>conn.go\<close>, lines 689 to 696) and \<open>handleNack\<close> (lines 732 to
  742). The requests are appended to the ones the connection has still to send.
\<close>

definition ack_closure :: "sub_ref \<Rightarrow> sub_store \<times> Request list \<Rightarrow> sub_store \<times> Request list" where
  "ack_closure s w =
     ((fst w)(s := (fst w s)\<lparr>sub_frame := None\<rparr>), snd w @ [SubscribeOp s])"

definition nack_closure :: "sub_ref \<Rightarrow> sub_store \<times> Request list \<Rightarrow> sub_store \<times> Request list" where
  "nack_closure s w =
     ((fst w)(s := (fst w s)\<lparr>sub_frame := None\<rparr>),
      snd w @ [RequeueOp (sub_frame (fst w s)), SubscribeOp s])"

interpretation ack_cb: ack_callback ack_closure
  by unfold_locales (simp add: ack_closure_def same_ids_def)

interpretation nack_cb: ack_callback nack_closure
  by unfold_locales (simp add: nack_closure_def same_ids_def)

lemma fold_ack_closure:
  "fold ack_closure xs w =
     ((\<lambda>s. if s \<in> set xs then (fst w s)\<lparr>sub_frame := None\<rparr> else fst w s), snd w @ map SubscribeOp xs)"
  by (induction xs arbitrary: w) (auto simp: ack_closure_def fun_eq_iff prod_eq_iff)

lemma fold_nack_closure:
  "distinct xs \<Longrightarrow> fold nack_closure xs w =
     ((\<lambda>s. if s \<in> set xs then (fst w s)\<lparr>sub_frame := None\<rparr> else fst w s),
      snd w @ concat (map (\<lambda>s. [RequeueOp (sub_frame (fst w s)), SubscribeOp s]) xs))"
proof (induction xs arbitrary: w)
  case Nil
  then show ?case by (simp add: prod_eq_iff)
next
  case (Cons x xs)
  have same: "map (\<lambda>s. [RequeueOp (sub_frame (fst (nack_closure x w) s)), SubscribeOp s]) xs =
      map (\<lambda>s. [RequeueOp (sub_frame (fst w s)), SubscribeOp s]) xs"
    using Cons.prems by (auto simp: nack_closure_def)
  have "fold nack_closure (x # xs) w = fold nack_closure xs (nack_closure x w)" by simp
  also have "\<dots> = ((\<lambda>s. if s \<in> set xs then (fst (nack_closure x w) s)\<lparr>sub_frame := None\<rparr>
        else fst (nack_closure x w) s),
      snd (nack_closure x w) @ concat (map (\<lambda>s. [RequeueOp (sub_frame (fst w s)), SubscribeOp s]) xs))"
    by (subst Cons.IH) (use Cons.prems in simp, simp only: same)
  also have "\<dots> = ((\<lambda>s. if s \<in> set (x # xs) then (fst w s)\<lparr>sub_frame := None\<rparr> else fst w s),
      snd w @ concat (map (\<lambda>s. [RequeueOp (sub_frame (fst w s)), SubscribeOp s]) (x # xs)))"
    by (auto simp: nack_closure_def fun_eq_iff)
  finally show ?case .
qed

end
