(* ===== verification/Server_TxStore.thy ===== *)
theory Server_TxStore
  imports Server_Negotiation
begin

section \<open>Transactions: server/client/tx_store.go\<close>

text \<open>
  The store maps a transaction identifier to the frames that wait for its commit, in order of
  arrival. The Go map is nil before the first \<open>Begin\<close> and after \<open>Init\<close>; reading a nil map
  finds nothing. \<open>Commit\<close> hands each frame to a callback of the connection, which has the
  store among its own state: it is modelled over any state with a \<open>get\<close> and a \<open>put\<close> for the
  store. The list that \<open>Commit\<close> empties is the one in the store, so the frames that are left
  when the callback fails stay there, as in the code.
\<close>

record txStore =
  transactions :: "(string \<rightharpoonup> Frame list) option"

definition tx_new :: txStore where
  "tx_new = \<lparr>transactions = None\<rparr>"

definition tx_lookup :: "txStore \<Rightarrow> string \<Rightarrow> Frame list option" where
  "tx_lookup txs tx = (case transactions txs of None \<Rightarrow> None | Some m \<Rightarrow> m tx)"

definition tx_assign :: "string \<Rightarrow> Frame list option \<Rightarrow> txStore \<Rightarrow> txStore" where
  "tx_assign tx l txs =
     txs\<lparr>transactions := (case transactions txs of None \<Rightarrow> None | Some m \<Rightarrow> Some (m(tx := l)))\<rparr>"

definition tx_Init :: "txStore \<Rightarrow> txStore" where
  "tx_Init txs = txs\<lparr>transactions := None\<rparr>"

definition tx_Begin :: "string \<Rightarrow> txStore \<Rightarrow> go_error option \<times> txStore" where
  "tx_Begin tx txs =
     (let m = (case transactions txs of None \<Rightarrow> Map.empty | Some m \<Rightarrow> m);
          txs1 = txs\<lparr>transactions := Some m\<rparr>
      in case m tx of
           Some l \<Rightarrow> (Some txAlreadyInProgress, txs1)
         | None \<Rightarrow> (None, txs1\<lparr>transactions := Some (m(tx \<mapsto> []))\<rparr>))"

definition tx_Abort :: "string \<Rightarrow> txStore \<Rightarrow> go_error option \<times> txStore" where
  "tx_Abort tx txs =
     (case tx_lookup txs tx of
        Some l \<Rightarrow> (None, tx_assign tx None txs)
      | None \<Rightarrow> (Some txUnknown, txs))"

definition tx_Add :: "string \<Rightarrow> Frame \<Rightarrow> txStore \<Rightarrow> go_error option \<times> txStore" where
  "tx_Add tx f txs =
     (case tx_lookup txs tx of
        Some l \<Rightarrow>
          (None, tx_assign tx (Some (l @ [f\<lparr>Hdr := Header_Del (Hdr f) Transaction\<rparr>])) txs)
      | None \<Rightarrow> (Some txUnknown, txs))"

fun commit_loop :: "('st \<Rightarrow> txStore) \<Rightarrow> (txStore \<Rightarrow> 'st \<Rightarrow> 'st) \<Rightarrow> string \<Rightarrow>
    (Frame \<Rightarrow> 'st \<Rightarrow> (go_error option \<times> 'st) go) \<Rightarrow> Frame list \<Rightarrow> 'st \<Rightarrow> (go_error option \<times> 'st) go" where
  "commit_loop get put tx commitFunc [] st = Ret (None, st)"
| "commit_loop get put tx commitFunc (f # rest) st =
     (case commitFunc f (put (tx_assign tx (Some rest) (get st)) st) of
        Panic m \<Rightarrow> Panic m
      | Ret (Some err, st') \<Rightarrow> Ret (Some err, st')
      | Ret (None, st') \<Rightarrow> commit_loop get put tx commitFunc rest st')"

definition tx_Commit :: "('st \<Rightarrow> txStore) \<Rightarrow> (txStore \<Rightarrow> 'st \<Rightarrow> 'st) \<Rightarrow> string \<Rightarrow>
    (Frame \<Rightarrow> 'st \<Rightarrow> (go_error option \<times> 'st) go) \<Rightarrow> 'st \<Rightarrow> (go_error option \<times> 'st) go" where
  "tx_Commit get put tx commitFunc st =
     (case tx_lookup (get st) tx of
        None \<Rightarrow> Ret (Some txUnknown, st)
      | Some l \<Rightarrow>
          (case commit_loop get put tx commitFunc l st of
             Panic m \<Rightarrow> Panic m
           | Ret (Some err, st') \<Rightarrow> Ret (Some err, st')
           | Ret (None, st') \<Rightarrow> Ret (None, put (tx_assign tx None (get st')) st')))"

subsection \<open>Lookups after the operations\<close>

lemma tx_lookup_assign [simp]:
  "tx_lookup txs tx \<noteq> None \<Longrightarrow> tx_lookup (tx_assign tx l txs) = (tx_lookup txs)(tx := l)"
  by (auto simp: tx_lookup_def tx_assign_def fun_eq_iff split: option.splits)

lemma tx_assign_assign [simp]: "tx_assign tx l (tx_assign tx l' txs) = tx_assign tx l txs"
  by (auto simp: tx_assign_def split: option.splits)

lemma tx_assign_same: "tx_lookup txs tx = Some l \<Longrightarrow> tx_assign tx (Some l) txs = txs"
  by (cases txs) (auto simp: tx_lookup_def tx_assign_def split: option.splits)

lemma tx_lookup_new [simp]: "tx_lookup tx_new = Map.empty" "tx_lookup (tx_Init txs) = Map.empty"
  by (auto simp: tx_lookup_def tx_new_def tx_Init_def fun_eq_iff)

lemma tx_Begin_lookup:
  "tx_Begin tx txs = (err, txs') \<Longrightarrow>
     (err = None \<and> tx_lookup txs tx = None \<and> tx_lookup txs' = (tx_lookup txs)(tx \<mapsto> [])) \<or>
     (err = Some txAlreadyInProgress \<and> tx_lookup txs tx \<noteq> None \<and> tx_lookup txs' = tx_lookup txs)"
  by (cases "transactions txs") (auto simp: tx_Begin_def tx_lookup_def Let_def intro!: ext split: option.splits)

lemma tx_Abort_lookup:
  "tx_Abort tx txs = (err, txs') \<Longrightarrow>
     (err = None \<and> tx_lookup txs tx \<noteq> None \<and> tx_lookup txs' = (tx_lookup txs)(tx := None)) \<or>
     (err = Some txUnknown \<and> tx_lookup txs tx = None \<and> txs' = txs)"
  by (auto simp: tx_Abort_def split: option.splits)

lemma tx_Add_lookup:
  "tx_Add tx f txs = (err, txs') \<Longrightarrow>
     (\<exists>l. err = None \<and> tx_lookup txs tx = Some l \<and>
        tx_lookup txs' = (tx_lookup txs)(tx \<mapsto> l @ [f\<lparr>Hdr := Header_Del (Hdr f) Transaction\<rparr>])) \<or>
     (err = Some txUnknown \<and> tx_lookup txs tx = None \<and> txs' = txs)"
  by (auto simp: tx_Add_def split: option.splits)

subsection \<open>The invariant\<close>

text \<open>
  A frame in the store has lost its transaction header, so committing it cannot reach the
  store again.
\<close>

definition tx_frame_ok :: "Frame \<Rightarrow> bool" where
  "tx_frame_ok f \<longleftrightarrow> header_ok (Hdr f) \<and> Header_Contains (Hdr f) Transaction = None"

definition tx_inv :: "txStore \<Rightarrow> bool" where
  "tx_inv txs \<longleftrightarrow> (\<forall>tx l. tx_lookup txs tx = Some l \<longrightarrow> list_all tx_frame_ok l)"

lemma tx_inv_new [simp]: "tx_inv tx_new" "tx_inv (tx_Init txs)"
  by (simp_all add: tx_inv_def)

lemma tx_inv_Begin: "tx_inv txs \<Longrightarrow> tx_Begin tx txs = (err, txs') \<Longrightarrow> tx_inv txs'"
  by (drule tx_Begin_lookup) (auto simp: tx_inv_def split: if_splits)

lemma tx_inv_Abort: "tx_inv txs \<Longrightarrow> tx_Abort tx txs = (err, txs') \<Longrightarrow> tx_inv txs'"
  by (drule tx_Abort_lookup) (auto simp: tx_inv_def split: if_splits)

lemma tx_inv_Add:
  "tx_inv txs \<Longrightarrow> header_ok (Hdr f) \<Longrightarrow> tx_Add tx f txs = (err, txs') \<Longrightarrow> tx_inv txs'"
  by (drule tx_Add_lookup) (auto simp: tx_inv_def tx_frame_ok_def hm.invar_del hm.del_same split: if_splits)

lemma tx_inv_assign:
  "tx_inv txs \<Longrightarrow> list_all tx_frame_ok (case l of None \<Rightarrow> [] | Some l \<Rightarrow> l) \<Longrightarrow> tx_inv (tx_assign tx l txs)"
  by (auto simp: tx_inv_def tx_lookup_def tx_assign_def split: option.splits if_splits)

subsection \<open>The contract of the commit callback\<close>

text \<open>
  Running frames one after the other, stopping at the first error; the frames after the
  failing one are returned.
\<close>

fun run_frames :: "(Frame \<Rightarrow> 'st \<Rightarrow> (go_error option \<times> 'st) go) \<Rightarrow> Frame list \<Rightarrow> 'st \<Rightarrow>
    (go_error option \<times> Frame list \<times> 'st) go" where
  "run_frames step [] st = Ret (None, [], st)"
| "run_frames step (f # rest) st =
     (case step f st of
        Panic m \<Rightarrow> Panic m
      | Ret (Some err, st') \<Rightarrow> Ret (Some err, rest, st')
      | Ret (None, st') \<Rightarrow> run_frames step rest st')"

text \<open>
  A connection as \<open>Commit\<close> sees it: a state with a transaction store inside, and a callback
  that neither reads nor writes the store for the frames that can be in it.
\<close>

definition put_result :: "('b \<Rightarrow> 'st \<Rightarrow> 'st) \<Rightarrow> 'b \<Rightarrow> ('a \<times> 'st) go \<Rightarrow> ('a \<times> 'st) go" where
  "put_result put b r = (case r of Ret (a, st) \<Rightarrow> Ret (a, put b st) | Panic m \<Rightarrow> Panic m)"

lemma put_result_simps [simp]:
  "put_result put b (Ret (a, st)) = Ret (a, put b st)" "put_result put b (Panic m) = Panic m"
  by (simp_all add: put_result_def)

locale commit_target =
  fixes get :: "'st \<Rightarrow> txStore"
    and put :: "txStore \<Rightarrow> 'st \<Rightarrow> 'st"
    and step :: "Frame \<Rightarrow> 'st \<Rightarrow> (go_error option \<times> 'st) go"
  assumes get_put [simp]: "get (put txs st) = txs"
    and put_put [simp]: "put txs' (put txs st) = put txs' st"
    and put_get [simp]: "put (get st) st = st"
    and step_put: "tx_frame_ok f \<Longrightarrow> step f (put txs st) = put_result put txs (step f st)"
begin

lemma step_get: "tx_frame_ok f \<Longrightarrow> step f st = Ret (r, st') \<Longrightarrow> get st' = get st"
  using step_put [of f "get st" st] by (metis get_put go.inject(1) prod.inject put_get put_result_simps(1))

lemma step_put_Ret:
  "tx_frame_ok f \<Longrightarrow> step f st = Ret (r, st') \<Longrightarrow> step f (put txs st) = Ret (r, put txs st')"
  by (simp add: step_put)

lemma run_frames_put:
  "list_all tx_frame_ok l \<Longrightarrow>
     run_frames step l (put txs st) =
       (case run_frames step l st of
          Panic m \<Rightarrow> Panic m
        | Ret (err, rest, st') \<Rightarrow> Ret (err, rest, put txs st'))"
proof (induction l arbitrary: st)
  case Nil
  then show ?case by simp
next
  case (Cons f l)
  then have f: "step f (put txs st) = put_result put txs (step f st)" by (simp add: step_put)
  show ?case
  proof (cases "step f st")
    case (Panic m)
    with f show ?thesis by simp
  next
    case (Ret r)
    obtain e st' where r: "r = (e, st')" by fastforce
    with Ret f Cons show ?thesis by (cases e) simp_all
  qed
qed

lemma commit_loop_run:
  "list_all tx_frame_ok l \<Longrightarrow> tx_lookup (get st) tx = Some l \<Longrightarrow>
     commit_loop get put tx step l st =
       (case run_frames step l st of
          Panic m \<Rightarrow> Panic m
        | Ret (err, rest, st') \<Rightarrow> Ret (err, put (tx_assign tx (Some rest) (get st)) st'))"
proof (induction l arbitrary: st)
  case Nil
  then show ?case by (simp add: tx_assign_same)
next
  case (Cons f l)
  let ?txs = "tx_assign tx (Some l) (get st)"
  from Cons.prems have ok: "tx_frame_ok f" "list_all tx_frame_ok l" by simp_all
  show ?case
  proof (cases "step f st")
    case (Panic m)
    with ok show ?thesis by (simp add: step_put)
  next
    case (Ret r)
    obtain e st' where r: "r = (e, st')" by fastforce
    have s: "step f (put ?txs st) = Ret (e, put ?txs st')"
      using step_put_Ret [OF ok(1)] Ret r by simp
    show ?thesis
    proof (cases e)
      case (Some err)
      with Ret r s show ?thesis by simp
    next
      case None
      have "tx_lookup (get (put ?txs st')) tx = Some l"
        using Cons.prems(2) by simp
      from Cons.IH [OF ok(2) this] run_frames_put [OF ok(2), of ?txs st'] Ret r s None
      show ?thesis by (auto split: go.splits prod.splits)
    qed
  qed
qed

lemma commit_run:
  assumes "tx_inv (get st)" and "tx_lookup (get st) tx = Some l"
  shows "tx_Commit get put tx step st =
    (case run_frames step l st of
       Panic m \<Rightarrow> Panic m
     | Ret (None, rest, st') \<Rightarrow> Ret (None, put (tx_assign tx None (get st)) st')
     | Ret (Some err, rest, st') \<Rightarrow> Ret (Some err, put (tx_assign tx (Some rest) (get st)) st'))"
proof -
  from assms have "list_all tx_frame_ok l" by (auto simp: tx_inv_def)
  from commit_loop_run [OF this assms(2)] assms(2) show ?thesis
    by (auto simp: tx_Commit_def split: go.splits prod.splits option.splits)
qed

end

subsection \<open>Histories of the store\<close>

text \<open>The operations that fill a store, as a sequence.\<close>

datatype tx_op = OpBegin string | OpAbort string | OpAdd string Frame

fun tx_apply :: "tx_op \<Rightarrow> txStore \<Rightarrow> txStore" where
  "tx_apply (OpBegin tx) txs = snd (tx_Begin tx txs)"
| "tx_apply (OpAbort tx) txs = snd (tx_Abort tx txs)"
| "tx_apply (OpAdd tx f) txs = snd (tx_Add tx f txs)"

text \<open>
  The abstract meaning of a history for one transaction: what was added since it was begun,
  whatever happens to the other transactions in between.
\<close>

fun tx_history :: "string \<Rightarrow> Frame list option \<Rightarrow> tx_op list \<Rightarrow> Frame list option" where
  "tx_history tx l [] = l"
| "tx_history tx l (OpBegin t # ops) =
     tx_history tx (if t = tx \<and> l = None then Some [] else l) ops"
| "tx_history tx l (OpAbort t # ops) = tx_history tx (if t = tx then None else l) ops"
| "tx_history tx l (OpAdd t f # ops) =
     tx_history tx
       (if t = tx then map_option (\<lambda>l. l @ [f\<lparr>Hdr := Header_Del (Hdr f) Transaction\<rparr>]) l else l) ops"

lemma tx_apply_lookup:
  "tx_lookup (tx_apply op txs) tx = tx_history tx (tx_lookup txs tx) [op]"
proof (cases op)
  case (OpBegin t)
  obtain e txs' where r: "tx_Begin t txs = (e, txs')" by fastforce
  from tx_Begin_lookup [OF r] r OpBegin show ?thesis by auto
next
  case (OpAbort t)
  obtain e txs' where r: "tx_Abort t txs = (e, txs')" by fastforce
  from tx_Abort_lookup [OF r] r OpAbort show ?thesis by auto
next
  case (OpAdd t f)
  obtain e txs' where r: "tx_Add t f txs = (e, txs')" by fastforce
  from tx_Add_lookup [OF r] r OpAdd show ?thesis by auto
qed

text \<open>
  The transaction store implements its abstract meaning: after any sequence of
  \<open>Begin\<close>, \<open>Abort\<close> and \<open>Add\<close>, successful or not, the frames kept for a transaction are
  exactly the ones added to it since it was begun, in order and without their transaction
  header; what happens to other transactions does not matter.
\<close>

theorem tx_store_refines_history:
  "tx_lookup (fold tx_apply ops tx_new) tx = tx_history tx None ops"
proof -
  have "tx_lookup (fold tx_apply ops txs) tx = tx_history tx (tx_lookup txs tx) ops" for txs
  proof (induction ops arbitrary: txs)
    case Nil
    show ?case by simp
  next
    case (Cons op ops)
    have "tx_history tx (tx_lookup txs tx) (op # ops) =
        tx_history tx (tx_history tx (tx_lookup txs tx) [op]) ops"
      by (cases op) simp_all
    with Cons tx_apply_lookup [of op txs tx] show ?case by simp
  qed
  then show ?thesis by simp
qed

text \<open>
  Errors of the store: \<open>Begin\<close> fails with \<open>txAlreadyInProgress\<close> exactly for a
  transaction in progress, \<open>Abort\<close> and \<open>Add\<close> fail with \<open>txUnknown\<close> exactly for a
  transaction that is not; a failing call changes no transaction.
\<close>

theorem tx_store_errors:
  "(fst (tx_Begin tx txs) = (if tx_lookup txs tx = None then None else Some txAlreadyInProgress)) \<and>
   (fst (tx_Abort tx txs) = (if tx_lookup txs tx = None then Some txUnknown else None)) \<and>
   (fst (tx_Add tx f txs) = (if tx_lookup txs tx = None then Some txUnknown else None)) \<and>
   (if tx_lookup txs tx = None then snd (tx_Abort tx txs) = txs \<and> snd (tx_Add tx f txs) = txs
    else tx_lookup (snd (tx_Begin tx txs)) = tx_lookup txs)"
  by (auto simp: tx_Begin_def tx_Abort_def tx_Add_def tx_lookup_def Let_def fun_eq_iff split: option.splits)

end
