(* ===== verification/Server_Conn.thy ===== *)
theory Server_Conn
  imports Server_Subscription Server_TxStore
begin

section \<open>A connection of the server: server/client/conn.go, config.go\<close>

text \<open>
  The state of one \<open>Conn\<close> and the functions that its two goroutines run. The subscriptions
  are objects shared with the queues, so the functions work on a \<open>View\<close>: the connection, the
  store of subscriptions with the next free reference, and the requests that the goroutine
  has put on \<open>requestChannel\<close>, in order. A send on that channel blocks until the upper
  layer has room; nothing a handler does after a send depends on when the send completes.

  The writer of the connection is the \<open>bufio\<close> writer of \<open>Frame_Codec\<close>, so an outcome of a
  handler includes the bytes on the wire and every point at which the network may fail.
\<close>

subsection \<open>Configuration\<close>

text \<open>The interface \<open>client.Config\<close>; the logger may be \<open>nil\<close>.\<close>

record Config =
  Authenticate :: "string \<Rightarrow> string \<Rightarrow> bool"
  cfg_HeartBeat :: duration
  cfg_Logger :: "Logger option"

subsection \<open>State\<close>

datatype ConnState = Connecting | Connected

text \<open>Where the processing goroutine is: in its loop, or in a phase of \<open>cleanupConn\<close>.\<close>

datatype ConnPc = InLoop | Cleanup nat | Closed

definition maxPendingWrites :: nat where "maxPendingWrites = 16"

definition maxPendingReads :: nat where "maxPendingReads = 16"

record Conn =
  c_self :: conn_ref
  c_writer :: bufio_writer
  c_subChannel :: "sub_ref list"
  c_writeChannel :: "Frame list"
  c_readChannel :: "Frame list"
  c_readClosed :: bool
  c_state :: ConnState
  c_writeTimeout :: duration
  c_version :: string
  c_txStore :: txStore
  c_lastMsgId :: "64 word"
  c_subList :: "sub_ref list"
  c_subs :: "string \<rightharpoonup> sub_ref"
  c_validator :: "Validator option"
  c_timer :: bool
  c_pc :: ConnPc
  c_rwClosed :: bool

record View = Conn +
  v_store :: sub_store
  v_fresh :: sub_ref
  v_req :: "Request list"

type_synonym handler_result = "go_error option \<times> Frame \<times> View"

definition NewConn :: "conn_ref \<Rightarrow> bufio_writer \<Rightarrow> Conn" where
  "NewConn self w =
     \<lparr>c_self = self, c_writer = w, c_subChannel = [], c_writeChannel = [], c_readChannel = [],
      c_readClosed = False, c_state = Connecting, c_writeTimeout = 0, c_version = [],
      c_txStore = tx_new, c_lastMsgId = 0, c_subList = [], c_subs = Map.empty,
      c_validator = None, c_timer = False, c_pc = InLoop, c_rwClosed = False\<rparr>"

definition send_request :: "Request \<Rightarrow> View \<Rightarrow> View" where
  "send_request r v = v\<lparr>v_req := v_req v @ [r]\<rparr>"

definition put_tx :: "txStore \<Rightarrow> View \<Rightarrow> View" where
  "put_tx txs v = v\<lparr>c_txStore := txs\<rparr>"

subsection \<open>Sending frames to the client\<close>

definition sendImmediately :: "Frame option \<Rightarrow> View \<Rightarrow> go_error option \<times> View" where
  "sendImmediately f v =
     (let (err, w) = Writer_Write f (c_writer v) in (err, v\<lparr>c_writer := w\<rparr>))"

definition sendErrorImmediately :: "(string \<Rightarrow> string) \<Rightarrow> go_error \<Rightarrow> Frame option \<Rightarrow> View \<Rightarrow> View" where
  "sendErrorImmediately quote err fo v =
     (let errorFrame = mk_frame ERROR [(MessageHdr, Error_text quote err)];
          errorFrame' =
            (case fo of
               None \<Rightarrow> errorFrame
             | Some f \<Rightarrow>
                 (case Header_Contains (Hdr f) Receipt of
                    Some receipt \<Rightarrow> errorFrame\<lparr>Hdr := Header_Add (Hdr errorFrame) ReceiptId receipt\<rparr>
                  | None \<Rightarrow> errorFrame))
      in snd (sendImmediately (Some errorFrame') v))"

definition sendReceiptImmediately :: "Frame \<Rightarrow> View \<Rightarrow> handler_result" where
  "sendReceiptImmediately f v =
     (case Header_Contains (Hdr f) Receipt of
        Some receipt \<Rightarrow>
          (let f' = f\<lparr>Hdr := Header_Del (Hdr f) Receipt\<rparr>;
               (err, v') = sendImmediately (Some (mk_frame RECEIPT [(ReceiptId, receipt)])) v
           in (err, f', v'))
      | None \<Rightarrow> (None, f, v))"

definition allocateMessageId :: "Frame \<Rightarrow> Subscription option \<Rightarrow> View \<Rightarrow> Frame \<times> View" where
  "allocateMessageId f sub v =
     (if Command f = MESSAGE \<or> Command f = ACK
      then
        let n = c_lastMsgId v + 1;
            messageId = FormatUint (unat n);
            h1 = Header_Set (Hdr f) MessageId messageId;
            h2 = Header_Set h1 IdHdr messageId;
            h3 = (if (case sub of None \<Rightarrow> True | Some s \<Rightarrow> sub_ack s = AckAuto)
                  then Header_Del h2 AckHdr
                  else Header_Set h2 AckHdr messageId)
        in (f\<lparr>Hdr := h3\<rparr>, v\<lparr>c_lastMsgId := n\<rparr>)
      else (f, v))"

subsection \<open>Handlers\<close>

definition handleConnect :: "Config \<Rightarrow> Frame \<Rightarrow> View \<Rightarrow> handler_result" where
  "handleConnect cfg f v =
     (if Header_Contains (Hdr f) Receipt \<noteq> None then (Some receiptInConnect, f, v)
      else
        let login = Header_Get (Hdr f) Login;
            passcode = Header_Get (Hdr f) Passcode
        in if \<not> Authenticate cfg login passcode then (Some authenticationFailed, f, v)
           else
             let (ver, verr) = determineVersion f;
                 v1 = v\<lparr>c_version := ver\<rparr>
             in case verr of
                  Some err \<Rightarrow> (Some err, f, v1)
                | None \<Rightarrow>
                    let v2 = v1\<lparr>c_validator := Some (NewValidator ver)\<rparr>
                    in if ver = V10 then (Some unsupportedVersion, f, v2)
                       else
                         let (cx, cy, herr) = getHeartBeat f
                         in case herr of
                              Some err \<Rightarrow> (Some err, f, v2)
                            | None \<Rightarrow>
                                let mn = asMilliseconds (cfg_HeartBeat cfg) maxHeartBeat;
                                    cx' = (if cx > 0 \<and> cx < mn then mn else cx);
                                    cy' = (if cy > 0 \<and> cy < mn then mn else cy);
                                    v3 = v2\<lparr>c_writeTimeout := int64 (cy' * Millisecond)\<rparr>;
                                    response = mk_frame CONNECTED
                                      [(VersionHdr, ver), (ServerHdr, ''stompd/x.y.z''),
                                       (HeartBeat, FormatInt cy' @ '','' @ FormatInt cx')];
                                    v4 = (snd (sendImmediately (Some response) v3))\<lparr>c_state := Connected\<rparr>
                                in (None, f, send_request (ConnectedOp (c_self v)) v4))"

definition handleDisconnect :: "Frame \<Rightarrow> View \<Rightarrow> handler_result" where
  "handleDisconnect f v =
     (let (_, f', v') = sendReceiptImmediately f v in (None, f', v'))"

definition handleBegin :: "Frame \<Rightarrow> View \<Rightarrow> handler_result" where
  "handleBegin f v =
     (case Header_Contains (Hdr f) Transaction of
        Some tx \<Rightarrow>
          (case sendReceiptImmediately f v of
             (Some err, f', v') \<Rightarrow> (Some err, f', v')
           | (None, f', v') \<Rightarrow>
               (let (err, txs) = tx_Begin tx (c_txStore v') in (err, f', put_tx txs v')))
      | None \<Rightarrow> (Some (missingHeader Transaction), f, v))"

definition handleAbort :: "Frame \<Rightarrow> View \<Rightarrow> handler_result" where
  "handleAbort f v =
     (case Header_Contains (Hdr f) Transaction of
        Some tx \<Rightarrow>
          (case sendReceiptImmediately f v of
             (Some err, f', v') \<Rightarrow> (Some err, f', v')
           | (None, f', v') \<Rightarrow>
               (let (err, txs) = tx_Abort tx (c_txStore v') in (err, f', put_tx txs v')))
      | None \<Rightarrow> (Some (missingHeader Transaction), f, v))"

text \<open>
  \<open>handleCommit\<close> passes the state function of the connection to the store; it is an argument
  here, and \<open>run_state\<close> below ties the knot. The callback drops the frame it was given.
\<close>

definition commit_func :: "(Frame \<Rightarrow> View \<Rightarrow> handler_result go) \<Rightarrow> Frame \<Rightarrow> View \<Rightarrow> (go_error option \<times> View) go" where
  "commit_func stateFunc f v = go_bind (stateFunc f v) (\<lambda>(err, f', v'). Ret (err, v'))"

definition handleCommit :: "(Frame \<Rightarrow> View \<Rightarrow> handler_result go) \<Rightarrow> Frame \<Rightarrow> View \<Rightarrow> handler_result go" where
  "handleCommit stateFunc f v =
     (case Header_Contains (Hdr f) Transaction of
        Some tx \<Rightarrow>
          (case sendReceiptImmediately f v of
             (Some err, f', v') \<Rightarrow> Ret (Some err, f', v')
           | (None, f', v') \<Rightarrow>
               go_bind (tx_Commit c_txStore put_tx tx (commit_func stateFunc) v')
                 (\<lambda>(err, v''). Ret (err, f', v'')))
      | None \<Rightarrow> Ret (Some (missingHeader Transaction), f, v))"

definition handleSubscribe :: "Frame \<Rightarrow> View \<Rightarrow> handler_result" where
  "handleSubscribe f v =
     (case Header_Contains (Hdr f) IdHdr of
        None \<Rightarrow> (Some (missingHeader IdHdr), f, v)
      | Some i \<Rightarrow>
          (case Header_Contains (Hdr f) Destination of
             None \<Rightarrow> (Some (missingHeader Destination), f, v)
           | Some dest \<Rightarrow>
               (let ack = (case Header_Contains (Hdr f) AckHdr of Some a \<Rightarrow> a | None \<Rightarrow> AckAuto)
                in if c_subs v i \<noteq> None then (Some subscriptionExists, f, v)
                   else
                     let s = v_fresh v;
                         v1 = v\<lparr>v_fresh := Suc s,
                                v_store := (v_store v)(s := newSubscription (c_self v) dest i ack),
                                c_subs := (c_subs v)(i \<mapsto> s)\<rparr>
                     in (None, f, send_request (SubscribeOp s) v1))))"

definition handleUnsubscribe :: "Frame \<Rightarrow> View \<Rightarrow> handler_result" where
  "handleUnsubscribe f v =
     (case Header_Contains (Hdr f) IdHdr of
        None \<Rightarrow> (Some (missingHeader IdHdr), f, v)
      | Some i \<Rightarrow>
          (case c_subs v i of
             None \<Rightarrow> (Some subscriptionNotFound, f, v)
           | Some s \<Rightarrow>
               (None, f, send_request (UnsubscribeOp s) (v\<lparr>c_subs := (c_subs v)(i := None)\<rparr>))))"

text \<open>The message id that an \<open>ACK\<close> or \<open>NACK\<close> frame names: both handlers start with it.\<close>

definition ack_message_id :: "Frame \<Rightarrow> go_error + 64 word" where
  "ack_message_id f =
     (let msgId = (case Header_Contains (Hdr f) AckHdr of
                     Some a \<Rightarrow> Some a
                   | None \<Rightarrow> Header_Contains (Hdr f) MessageId)
      in case msgId of
           None \<Rightarrow> Inl (missingHeader MessageId)
         | Some s \<Rightarrow>
             (case ParseUint s 64 of
                Inl e \<Rightarrow> Inl (NumError s e)
              | Inr n \<Rightarrow> Inr (of_nat n)))"

text \<open>A frame with a transaction entry is stored; \<open>Add\<close> removes the entry from the frame.\<close>

definition store_in_tx :: "string \<Rightarrow> Frame \<Rightarrow> View \<Rightarrow> handler_result" where
  "store_in_tx tx f v =
     (case tx_Add tx f (c_txStore v) of
        (Some err, txs) \<Rightarrow> (Some err, f, put_tx txs v)
      | (None, txs) \<Rightarrow> (None, f\<lparr>Hdr := Header_Del (Hdr f) Transaction\<rparr>, put_tx txs v))"

definition handleAck :: "Frame \<Rightarrow> View \<Rightarrow> handler_result go" where
  "handleAck f v =
     (case ack_message_id f of
        Inl err \<Rightarrow> Ret (Some err, f, v)
      | Inr msgId \<Rightarrow>
          (case sendReceiptImmediately f v of
             (Some err, f', v') \<Rightarrow> Ret (Some err, f', v')
           | (None, f', v') \<Rightarrow>
               (case Header_Contains (Hdr f') Transaction of
                  Some tx \<Rightarrow> Ret (store_in_tx tx f' v')
                | None \<Rightarrow>
                    go_bind (SL_Ack msgId ack_closure (c_subList v') (v_store v', v_req v'))
                      (\<lambda>(sl, st, rs). Ret (None, f', v'\<lparr>c_subList := sl, v_store := st, v_req := rs\<rparr>)))))"

definition handleNack :: "Frame \<Rightarrow> View \<Rightarrow> handler_result" where
  "handleNack f v =
     (case ack_message_id f of
        Inl err \<Rightarrow> (Some err, f, v)
      | Inr msgId \<Rightarrow>
          (case sendReceiptImmediately f v of
             (Some err, f', v') \<Rightarrow> (Some err, f', v')
           | (None, f', v') \<Rightarrow>
               (case Header_Contains (Hdr f') Transaction of
                  Some tx \<Rightarrow> store_in_tx tx f' v'
                | None \<Rightarrow>
                    (let (sl, st, rs) = SL_Nack msgId nack_closure (c_subList v') (v_store v', v_req v')
                     in (None, f', v'\<lparr>c_subList := sl, v_store := st, v_req := rs\<rparr>)))))"

definition handleSend :: "Frame \<Rightarrow> View \<Rightarrow> handler_result" where
  "handleSend f v =
     (case sendReceiptImmediately f v of
        (Some err, f', v') \<Rightarrow> (Some err, f', v')
      | (None, f', v') \<Rightarrow>
          (case Header_Contains (Hdr f') Transaction of
             Some tx \<Rightarrow> store_in_tx tx f' v'
           | None \<Rightarrow>
               (let f'' = f'\<lparr>Command := MESSAGE\<rparr> in (None, f'', send_request (EnqueueOp f'') v'))))"

subsection \<open>State functions\<close>

definition connecting :: "Config \<Rightarrow> Frame \<Rightarrow> View \<Rightarrow> handler_result" where
  "connecting cfg f v =
     (if Command f = CONNECT \<or> Command f = STOMP then handleConnect cfg f v
      else (Some notConnected, f, v))"

definition connected :: "(Frame \<Rightarrow> View \<Rightarrow> handler_result go) \<Rightarrow> Frame \<Rightarrow> View \<Rightarrow> handler_result go" where
  "connected stateFunc f v =
     (if Command f = CONNECT \<or> Command f = STOMP then Ret (Some unexpectedCommand, f, v)
      else if Command f = DISCONNECT then Ret (handleDisconnect f v)
      else if Command f = BEGIN then Ret (handleBegin f v)
      else if Command f = ABORT then Ret (handleAbort f v)
      else if Command f = COMMIT then handleCommit stateFunc f v
      else if Command f = SEND then Ret (handleSend f v)
      else if Command f = SUBSCRIBE then Ret (handleSubscribe f v)
      else if Command f = UNSUBSCRIBE then Ret (handleUnsubscribe f v)
      else if Command f = ACK then handleAck f v
      else if Command f = NACK then Ret (handleNack f v)
      else if Command f = MESSAGE \<or> Command f = RECEIPT \<or> Command f = ERROR
        then Ret (Some unexpectedCommand, f, v)
      else Ret (Some unknownCommand, f, v))"

text \<open>
  \<open>c.stateFunc(c, f)\<close>. A commit calls it again for each stored frame; the first argument bounds
  the depth of that recursion, whose exhaustion is the stack overflow that ends a Go process.
  Two levels are always enough (\<open>run_state_depth\<close>).
\<close>

fun run_state :: "nat \<Rightarrow> Config \<Rightarrow> Frame \<Rightarrow> View \<Rightarrow> handler_result go" where
  "run_state 0 cfg f v = Panic ''stack overflow''"
| "run_state (Suc n) cfg f v =
     (case c_state v of
        Connecting \<Rightarrow> Ret (connecting cfg f v)
      | Connected \<Rightarrow> connected (run_state n cfg) f v)"

definition stateFunc :: "Config \<Rightarrow> Frame \<Rightarrow> View \<Rightarrow> handler_result go" where
  "stateFunc cfg f v = run_state 2 cfg f v"

subsection \<open>The processing loop\<close>

text \<open>
  What a \<open>select\<close> of \<open>processLoop\<close> may receive; \<open>None\<close> is a closed channel. One turn of the
  loop returns whether the loop goes on.
\<close>

datatype select_case =
    SelWrite "Frame option"
  | SelRead "Frame option"
  | SelSub "sub_ref option"
  | SelTimer

definition loop_prologue :: "View \<Rightarrow> View" where
  "loop_prologue v = (if c_writeTimeout v > 0 \<and> \<not> c_timer v then v\<lparr>c_timer := True\<rparr> else v)"

definition on_write :: "Frame \<Rightarrow> View \<Rightarrow> bool \<times> View" where
  "on_write f v =
     (let (f', v1) = allocateMessageId f None (v\<lparr>c_timer := False\<rparr>);
          (err, v2) = sendImmediately (Some f') v1
      in if err \<noteq> None then (False, v2) else (Command f' \<noteq> ERROR, v2))"

definition on_read :: "(string \<Rightarrow> string) \<Rightarrow> Config \<Rightarrow> Frame \<Rightarrow> View \<Rightarrow> (bool \<times> View) go" where
  "on_read quote cfg f v =
     (case (case c_validator v of None \<Rightarrow> None | Some vd \<Rightarrow> Validate vd f) of
        Some err \<Rightarrow> Ret (False, sendErrorImmediately quote err (Some f) v)
      | None \<Rightarrow>
          go_bind (stateFunc cfg f v)
            (\<lambda>(err, f', v'). case err of
                Some e \<Rightarrow> Ret (False, sendErrorImmediately quote e (Some f') v')
              | None \<Rightarrow> Ret (True, v')))"

definition on_sub :: "sub_ref \<Rightarrow> View \<Rightarrow> (bool \<times> View) go" where
  "on_sub s v =
     (let v0 = v\<lparr>c_timer := False\<rparr>; sub = v_store v s
      in case c_subs v (sub_id sub) of
           Some _ \<Rightarrow>
             (case sub_frame sub of
                None \<Rightarrow> Panic ''nil pointer dereference''
              | Some f \<Rightarrow>
                  let (f', v1) = allocateMessageId f (Some sub) v0;
                      v2 = v1\<lparr>v_store := (v_store v1)(s := sub\<lparr>sub_frame := Some f'\<rparr>)\<rparr>;
                      (err, v3) = sendImmediately (Some f') v2
                  in if err \<noteq> None then Ret (False, v3)
                     else if sub_ack sub = AckAuto
                       then Ret (True, send_request (SubscribeOp s)
                              (v3\<lparr>v_store := (v_store v3)(s := sub\<lparr>sub_frame := None\<rparr>)\<rparr>))
                     else go_bind (SL_Add (ConnList (c_self v3)) s (c_subList v3) (v_store v3))
                            (\<lambda>(sl, st). Ret (True, v3\<lparr>c_subList := sl, v_store := st\<rparr>)))
         | None \<Rightarrow> Ret (True, send_request (RequeueOp (sub_frame sub)) v0))"

definition on_timer :: "View \<Rightarrow> bool \<times> View" where
  "on_timer v =
     (let (err, v') = sendImmediately None (v\<lparr>c_timer := False\<rparr>) in (err = None, v'))"

definition processLoop_turn :: "(string \<Rightarrow> string) \<Rightarrow> Config \<Rightarrow> select_case \<Rightarrow> View \<Rightarrow> (bool \<times> View) go" where
  "processLoop_turn quote cfg sel v =
     (let v0 = loop_prologue v
      in case sel of
           SelWrite None \<Rightarrow> Ret (False, v0)
         | SelWrite (Some f) \<Rightarrow> Ret (on_write f v0)
         | SelRead None \<Rightarrow> Ret (False, v0)
         | SelRead (Some f) \<Rightarrow> on_read quote cfg f v0
         | SelSub None \<Rightarrow> Ret (False, v0)
         | SelSub (Some s) \<Rightarrow> on_sub s v0
         | SelTimer \<Rightarrow> Ret (on_timer v0))"

text \<open>The loop over a sequence of receives, until it leaves or the sequence ends.\<close>

fun processLoop :: "(string \<Rightarrow> string) \<Rightarrow> Config \<Rightarrow> select_case list \<Rightarrow> View \<Rightarrow> (bool \<times> View) go" where
  "processLoop quote cfg [] v = Ret (True, v)"
| "processLoop quote cfg (sel # sels) v =
     go_bind (processLoop_turn quote cfg sel v)
       (\<lambda>(continue, v'). if continue then processLoop quote cfg sels v' else Ret (False, v'))"

subsection \<open>Closing a connection\<close>

text \<open>
  \<open>cleanupConn\<close> in the phases between which the goroutine may be blocked on
  \<open>requestChannel\<close>, and the upper layer may still put frames on the two channels of the
  connection. \<open>order\<close> is the order in which \<open>range\<close> visits the map of subscriptions.
\<close>

function requeue_unacked :: "sub_ref list \<Rightarrow> sub_store \<Rightarrow> Request list \<Rightarrow> sub_store \<times> Request list" where
  "requeue_unacked subs st rs =
     (case SL_Get subs st of
        (None, subs', st') \<Rightarrow> (st', rs)
      | (Some s, subs', st') \<Rightarrow> requeue_unacked subs' st' (rs @ [RequeueOp (sub_frame (st' s))]))"
  by pat_completeness auto
termination
  by (relation "measure (\<lambda>(subs, st, rs). length subs)") (auto simp: SL_Get_def split: list.splits)

declare requeue_unacked.simps [simp del]

definition discardWriteChannelFrames :: "View \<Rightarrow> View" where
  "discardWriteChannelFrames v = v\<lparr>c_writeChannel := []\<rparr>"

fun cleanup_sub_loop :: "sub_ref list \<Rightarrow> sub_store \<Rightarrow> Request list \<Rightarrow> Request list" where
  "cleanup_sub_loop [] st rs = rs"
| "cleanup_sub_loop (s # rest) st rs = cleanup_sub_loop rest st (rs @ [RequeueOp (sub_frame (st s))])"

definition cleanupSubChannel :: "View \<Rightarrow> View" where
  "cleanupSubChannel v =
     v\<lparr>c_subChannel := [], v_req := cleanup_sub_loop (c_subChannel v) (v_store v) (v_req v)\<rparr>"

definition cleanup_unsubscribe :: "sub_ref list \<Rightarrow> View \<Rightarrow> View" where
  "cleanup_unsubscribe order v =
     (let v1 = discardWriteChannelFrames (put_tx (tx_Init (c_txStore v)) v)
      in fold (\<lambda>s v. send_request (UnsubscribeOp s) v) order v1)"

definition cleanup_requeue :: "View \<Rightarrow> View" where
  "cleanup_requeue v =
     (let (st, rs) = requeue_unacked (c_subList v) (v_store v) (v_req v)
      in v\<lparr>c_subs := Map.empty, c_subList := [], v_store := st, v_req := rs\<rparr>)"

definition cleanup_drain :: "View \<Rightarrow> View" where
  "cleanup_drain v = cleanupSubChannel (discardWriteChannelFrames v)"

definition cleanup_disconnected :: "View \<Rightarrow> View" where
  "cleanup_disconnected v = send_request (DisconnectedOp (c_self v)) v"

definition cleanup_close :: "View \<Rightarrow> View" where
  "cleanup_close v = (cleanup_drain v)\<lparr>c_rwClosed := True\<rparr>"

text \<open>
  One phase, chosen by the program counter; \<open>cleanupConn\<close> is the phases in sequence, with
  \<open>env k\<close> standing for what the upper layer does to the view while phase \<open>k\<close> is blocked.
\<close>

definition cleanup_phase :: "sub_ref list \<Rightarrow> nat \<Rightarrow> View \<Rightarrow> View" where
  "cleanup_phase order k v =
     (if k = 0 then (cleanup_unsubscribe order v)\<lparr>c_pc := Cleanup 1\<rparr>
      else if k = 1 then (cleanup_requeue v)\<lparr>c_pc := Cleanup 2\<rparr>
      else if k = 2 then (cleanup_drain v)\<lparr>c_pc := Cleanup 3\<rparr>
      else if k = 3 then (cleanup_disconnected v)\<lparr>c_pc := Cleanup 4\<rparr>
      else (cleanup_close v)\<lparr>c_pc := Closed\<rparr>)"

definition cleanupConn :: "sub_ref list \<Rightarrow> (nat \<Rightarrow> View \<Rightarrow> View) \<Rightarrow> View \<Rightarrow> View" where
  "cleanupConn order env v =
     fold (\<lambda>k v. env k (cleanup_phase order k v)) [0, 1, 2, 3, 4] v"

subsection \<open>The reading loop\<close>

record ReadLoop =
  rl_expectingConnect :: bool
  rl_readTimeout :: duration

definition rl_init :: ReadLoop where
  "rl_init = \<lparr>rl_expectingConnect = True, rl_readTimeout = 0\<rparr>"

text \<open>The deadline of the next read, relative to now; \<open>None\<close> is no deadline.\<close>

definition read_deadline :: "ReadLoop \<Rightarrow> duration option" where
  "read_deadline rl =
     (if rl_readTimeout rl = 0 then None else Some (int64 (rl_readTimeout rl * 2)))"

definition note_connect :: "Config \<Rightarrow> Frame \<Rightarrow> ReadLoop \<Rightarrow> ReadLoop" where
  "note_connect cfg f rl =
     (if rl_expectingConnect rl
      then
        let (cx, _, err) = getHeartBeat f
        in if err = None
           then
             let mn = asMilliseconds (cfg_HeartBeat cfg) maxHeartBeat;
                 cx' = (if cx > 0 \<and> cx < mn then mn else cx)
             in rl\<lparr>rl_readTimeout := int64 (cx' * Millisecond), rl_expectingConnect := False\<rparr>
           else rl
      else rl)"

text \<open>
  The loop on the input of the connection: the frames it puts on \<open>readChannel\<close>, in order,
  and the error that closes the channel. Every read consumes input, so a loop over a finite
  input ends.
\<close>

function readLoop :: "Config \<Rightarrow> go_error \<Rightarrow> stream \<Rightarrow> ReadLoop \<Rightarrow> Frame list \<times> go_error \<times> ReadLoop" where
  "readLoop cfg e cs rl =
     (case Reader_Read e cs of
        Inl err \<Rightarrow> ([], err, rl)
      | Inr (None, cs') \<Rightarrow> readLoop cfg e cs' rl
      | Inr (Some f, cs') \<Rightarrow>
          (let rl' = note_connect cfg f rl; (fs, err, rl'') = readLoop cfg e cs' rl'
           in (f # fs, err, rl'')))"
  by pat_completeness auto
termination
  by (relation "measure (\<lambda>(cfg, e, cs, rl). length (concat cs))") (auto dest: Reader_Read_shorter)

declare readLoop.simps [simp del]

subsection \<open>Frame lemmas: what a handler leaves alone\<close>

lemma sendImmediately_frame:
  "sendImmediately fo v = (err, v') \<Longrightarrow> \<exists>w. v' = v\<lparr>c_writer := w\<rparr>"
  by (auto simp: sendImmediately_def split: prod.splits)

lemma sendReceipt_frame:
  "sendReceiptImmediately f v = (err, f', v') \<Longrightarrow>
     (\<exists>w. v' = v\<lparr>c_writer := w\<rparr>) \<and> (f' = f \<or> f' = f\<lparr>Hdr := Header_Del (Hdr f) Receipt\<rparr>)"
  by (auto simp: sendReceiptImmediately_def Let_def split: option.splits prod.splits
      dest: sendImmediately_frame intro: exI [of _ "c_writer v"])

lemma sendReceipt_Contains:
  assumes "sendReceiptImmediately f v = (err, f', v')" and "header_ok (Hdr f)"
  shows "header_ok (Hdr f')" "Header_Contains (Hdr f') Receipt = None"
    "k \<noteq> Receipt \<Longrightarrow> Header_Contains (Hdr f') k = Header_Contains (Hdr f) k"
    "Command f' = Command f" "Body f' = Body f"
  using assms
  by (auto simp: sendReceiptImmediately_def Let_def hm.del_same hm.del_other split: option.splits prod.splits)

subsection \<open>Commit reaches the store once\<close>

text \<open>
  A frame without a transaction entry is handled without reading or writing the transaction
  store. This is the contract \<open>commit_target\<close> for the connection.
\<close>

definition map_view :: "(View \<Rightarrow> View) \<Rightarrow> handler_result \<Rightarrow> handler_result" where
  "map_view g r = (case r of (err, f, v) \<Rightarrow> (err, f, g v))"

definition map_view_go :: "(View \<Rightarrow> View) \<Rightarrow> handler_result go \<Rightarrow> handler_result go" where
  "map_view_go g r = go_bind r (\<lambda>x. Ret (map_view g x))"

lemma map_view_simps [simp]:
  "map_view g (err, f, v) = (err, f, g v)"
  "map_view_go g (Ret x) = Ret (map_view g x)" "map_view_go g (Panic m) = Panic m"
  by (simp_all add: map_view_def map_view_go_def)

lemma sendImmediately_put:
  "sendImmediately fo (put_tx txs v) = map_prod id (put_tx txs) (sendImmediately fo v)"
  by (simp add: sendImmediately_def put_tx_def split: prod.split)

lemma sendReceipt_put:
  "sendReceiptImmediately f (put_tx txs v) = map_view (put_tx txs) (sendReceiptImmediately f v)"
  by (simp add: sendReceiptImmediately_def sendImmediately_put Let_def split: option.split prod.split)

lemma put_tx_sel [simp]:
  "c_state (put_tx txs v) = c_state v" "c_subs (put_tx txs v) = c_subs v" "c_self (put_tx txs v) = c_self v"
  "c_subList (put_tx txs v) = c_subList v" "v_store (put_tx txs v) = v_store v"
  "v_req (put_tx txs v) = v_req v" "v_fresh (put_tx txs v) = v_fresh v" "c_txStore (put_tx txs v) = txs"
  "put_tx txs' (put_tx txs v) = put_tx txs' v" "put_tx (c_txStore v) v = v"
  by (simp_all add: put_tx_def)

lemma send_request_put [simp]: "send_request r (put_tx txs v) = put_tx txs (send_request r v)"
  by (simp add: send_request_def put_tx_def)

lemma put_tx_upd [simp]:
  "(put_tx txs v)\<lparr>c_subList := sl\<rparr> = put_tx txs (v\<lparr>c_subList := sl\<rparr>)"
  "(put_tx txs v)\<lparr>v_store := st\<rparr> = put_tx txs (v\<lparr>v_store := st\<rparr>)"
  "(put_tx txs v)\<lparr>v_req := rs\<rparr> = put_tx txs (v\<lparr>v_req := rs\<rparr>)"
  "(put_tx txs v)\<lparr>v_fresh := n\<rparr> = put_tx txs (v\<lparr>v_fresh := n\<rparr>)"
  "(put_tx txs v)\<lparr>c_subs := m\<rparr> = put_tx txs (v\<lparr>c_subs := m\<rparr>)"
  by (simp_all add: put_tx_def)

lemma connecting_put: "connecting cfg f (put_tx txs v) = map_view (put_tx txs) (connecting cfg f v)"
  by (simp add: connecting_def handleConnect_def Let_def send_request_def sendImmediately_def put_tx_def
      split: prod.split option.split)

lemma handleSend_put:
  assumes "tx_frame_ok f"
  shows "handleSend f (put_tx txs v) = map_view (put_tx txs) (handleSend f v)"
proof -
  obtain err f' v' where r: "sendReceiptImmediately f v = (err, f', v')" using prod_cases3 by blast
  from sendReceipt_Contains [OF r] assms have "Header_Contains (Hdr f') Transaction = None"
    by (auto simp: tx_frame_ok_def)
  with r show ?thesis by (simp add: handleSend_def sendReceipt_put Let_def split: option.split)
qed

lemma handleNack_put:
  assumes "tx_frame_ok f"
  shows "handleNack f (put_tx txs v) = map_view (put_tx txs) (handleNack f v)"
proof -
  obtain err f' v' where r: "sendReceiptImmediately f v = (err, f', v')" using prod_cases3 by blast
  from sendReceipt_Contains [OF r] assms have "Header_Contains (Hdr f') Transaction = None"
    by (auto simp: tx_frame_ok_def)
  with r show ?thesis
    by (simp add: handleNack_def sendReceipt_put split: option.split sum.split prod.split)
qed

lemma handleAck_put:
  assumes "tx_frame_ok f"
  shows "handleAck f (put_tx txs v) = map_view_go (put_tx txs) (handleAck f v)"
proof -
  obtain err f' v' where r: "sendReceiptImmediately f v = (err, f', v')" using prod_cases3 by blast
  from sendReceipt_Contains [OF r] assms have tx: "Header_Contains (Hdr f') Transaction = None"
    by (auto simp: tx_frame_ok_def)
  show ?thesis
  proof (cases "ack_message_id f")
    case (Inl e)
    then show ?thesis by (simp add: handleAck_def)
  next
    case (Inr m)
    with r tx show ?thesis
      by (cases "SL_Ack m ack_closure (c_subList v') (v_store v', v_req v')")
         (auto simp: handleAck_def sendReceipt_put split: option.split prod.split)
  qed
qed

lemma connected_put:
  assumes "tx_frame_ok f"
  shows "connected g f (put_tx txs v) = map_view_go (put_tx txs) (connected g' f v)"
proof -
  from assms have "Header_Contains (Hdr f) Transaction = None" by (simp add: tx_frame_ok_def)
  then show ?thesis
    using handleSend_put [OF assms, of txs v] handleNack_put [OF assms, of txs v] handleAck_put [OF assms, of txs v]
    by (simp add: connected_def handleBegin_def handleAbort_def handleCommit_def handleDisconnect_def
        handleSubscribe_def handleUnsubscribe_def sendReceipt_put Let_def
        split: prod.split option.split)
qed

lemma run_state_put:
  "tx_frame_ok f \<Longrightarrow>
     run_state (Suc n) cfg f (put_tx txs v) = map_view_go (put_tx txs) (run_state (Suc n') cfg f v)"
  by (cases "c_state v") (simp_all add: connecting_put connected_put)

interpretation conn_tx: commit_target c_txStore put_tx "commit_func (run_state (Suc n) cfg)" for n cfg
proof
  fix f txs v
  assume "tx_frame_ok f"
  then show "commit_func (run_state (Suc n) cfg) f (put_tx txs v) =
      put_result put_tx txs (commit_func (run_state (Suc n) cfg) f v)"
    by (cases "run_state (Suc n) cfg f v")
       (auto simp: commit_func_def run_state_put [where n' = n] simp del: run_state.simps)
qed simp_all

lemma run_state_Suc:
  assumes "tx_frame_ok f"
  shows "run_state (Suc n) cfg f v = run_state (Suc 0) cfg f v"
  using run_state_put [OF assms, of n cfg "c_txStore v" v 0] run_state_put [OF assms, of 0 cfg "c_txStore v" v 0]
  by simp

lemma run_frames_cong:
  "(\<And>f st. f \<in> set l \<Longrightarrow> step f st = step' f st) \<Longrightarrow> run_frames step l st = run_frames step' l st"
  by (induction l arbitrary: st) (auto split: go.splits option.splits)

lemma tx_Commit_depth:
  assumes "tx_inv (c_txStore v)"
  shows "tx_Commit c_txStore put_tx tx (commit_func (run_state (Suc n) cfg)) v =
    tx_Commit c_txStore put_tx tx (commit_func (run_state (Suc 0) cfg)) v"
proof (cases "tx_lookup (c_txStore v) tx")
  case None
  then show ?thesis by (simp add: tx_Commit_def)
next
  case (Some l)
  with assms have "list_all tx_frame_ok l" by (auto simp: tx_inv_def)
  then have "run_frames (commit_func (run_state (Suc n) cfg)) l v = run_frames (commit_func (run_state (Suc 0) cfg)) l v"
    by (intro run_frames_cong) (simp add: commit_func_def run_state_Suc [of _ n] list_all_iff del: run_state.simps)
  then show ?thesis
    using conn_tx.commit_run [OF assms Some, of n cfg] conn_tx.commit_run [OF assms Some, of 0 cfg] by simp
qed

lemma handleCommit_depth:
  assumes "tx_inv (c_txStore v)"
  shows "handleCommit (run_state (Suc n) cfg) f v = handleCommit (run_state (Suc 0) cfg) f v"
proof -
  obtain err f' v' where r: "sendReceiptImmediately f v = (err, f', v')" using prod_cases3 by blast
  with sendReceipt_frame [OF r] assms have "tx_inv (c_txStore v')" by auto
  with r show ?thesis
    by (simp add: handleCommit_def tx_Commit_depth [of v' _ n] del: run_state.simps split: option.split)
qed

lemma connected_depth:
  "tx_inv (c_txStore v) \<Longrightarrow> connected (run_state (Suc n) cfg) f v = connected (run_state (Suc 0) cfg) f v"
  by (simp add: connected_def handleCommit_depth [of v n] del: run_state.simps)

lemma run_state_depth:
  assumes "tx_inv (c_txStore v)" and "2 \<le> n"
  shows "run_state n cfg f v = stateFunc cfg f v"
proof -
  obtain m where "n = Suc (Suc m)" using assms(2) by (auto simp: numeral_2_eq_2 le_iff_add)
  with assms(1) show ?thesis
    by (simp add: stateFunc_def numeral_2_eq_2 connected_depth [of v m] del: run_state.simps(2))
       (simp add: connected_depth [of v m] del: run_state.simps(2) split: ConnState.split
          add: run_state.simps(2) [of "Suc m"] run_state.simps(2) [of "Suc 0"])
qed

subsection \<open>A connection that can be written to\<close>

definition receipt_bytes :: "Frame \<Rightarrow> bytes" where
  "receipt_bytes f =
     (case Header_Contains (Hdr f) Receipt of
        None \<Rightarrow> []
      | Some r \<Rightarrow> frame_bytes (Some (mk_frame RECEIPT [(ReceiptId, r)])))"

definition no_receipt :: "Frame \<Rightarrow> Frame" where
  "no_receipt f = f\<lparr>Hdr := Header_Del (Hdr f) Receipt\<rparr>"

definition stripped :: "Frame \<Rightarrow> Frame" where
  "stripped f = f\<lparr>Hdr := Header_Del (Header_Del (Hdr f) Receipt) Transaction\<rparr>"

lemma no_receipt_sel [simp]:
  "Command (no_receipt f) = Command f" "Body (no_receipt f) = Body f"
  by (simp_all add: no_receipt_def)

lemma no_receipt_Contains [simp]:
  "header_ok (Hdr f) \<Longrightarrow> header_ok (Hdr (no_receipt f))"
  "header_ok (Hdr f) \<Longrightarrow> Header_Contains (Hdr (no_receipt f)) k =
     (if k = Receipt then None else Header_Contains (Hdr f) k)"
  by (simp_all add: no_receipt_def hm.lookup_del)

lemma stripped_no_receipt: "stripped f = (no_receipt f)\<lparr>Hdr := Header_Del (Hdr (no_receipt f)) Transaction\<rparr>"
  by (simp add: stripped_def no_receipt_def)

lemma stripped_Contains:
  "header_ok (Hdr f) \<Longrightarrow> header_ok (Hdr (stripped f))"
  "header_ok (Hdr f) \<Longrightarrow> Header_Contains (Hdr (stripped f)) k =
     (if k = Receipt \<or> k = Transaction then None else Header_Contains (Hdr f) k)"
  "Command (stripped f) = Command f"
  by (simp_all add: stripped_def hm.lookup_del)

lemma sendImmediately_ready:
  assumes "ready (c_writer v)"
  obtains w where "sendImmediately fo v = (None, v\<lparr>c_writer := w\<rparr>)" "ready w"
    "w_out w = w_out (c_writer v) @ frame_bytes fo"
proof -
  obtain w where "Writer_Write fo (c_writer v) = (None, w)" "ready w"
    "w_out w = w_out (c_writer v) @ frame_bytes fo"
    using Writer_Write_ready [OF assms] by blast
  with that [of w] show thesis by (simp add: sendImmediately_def)
qed

lemma sendReceipt_ready:
  assumes "ready (c_writer v)" and "header_ok (Hdr f)"
  obtains w where "sendReceiptImmediately f v = (None, no_receipt f, v\<lparr>c_writer := w\<rparr>)" "ready w"
    "w_out w = w_out (c_writer v) @ receipt_bytes f"
proof (cases "Header_Contains (Hdr f) Receipt")
  case None
  with assms(2) have "no_receipt f = f" by (simp add: no_receipt_def Del_absent)
  with None assms that [of "c_writer v"] show thesis
    by (simp add: sendReceiptImmediately_def receipt_bytes_def)
next
  case (Some r)
  obtain w where "sendImmediately (Some (mk_frame RECEIPT [(ReceiptId, r)])) v = (None, v\<lparr>c_writer := w\<rparr>)" "ready w"
    "w_out w = w_out (c_writer v) @ frame_bytes (Some (mk_frame RECEIPT [(ReceiptId, r)]))"
    using sendImmediately_ready [OF assms(1)] by blast
  with Some that [of w] show thesis
    by (simp add: sendReceiptImmediately_def receipt_bytes_def no_receipt_def)
qed

subsection \<open>Frames in a transaction\<close>

lemma run_state_send:
  assumes "c_state v = Connected" and "Command f = SEND"
    and "Header_Contains (Hdr f) Receipt = None" and "Header_Contains (Hdr f) Transaction = None"
  shows "run_state (Suc n) cfg f v =
    Ret (None, f\<lparr>Command := MESSAGE\<rparr>, send_request (EnqueueOp (f\<lparr>Command := MESSAGE\<rparr>)) v)"
  using assms by (simp add: connected_def handleSend_def sendReceiptImmediately_def Let_def)

lemma run_frames_sends:
  "c_state v = Connected \<Longrightarrow>
   list_all (\<lambda>f. Command f = SEND \<and> Header_Contains (Hdr f) Receipt = None \<and>
     Header_Contains (Hdr f) Transaction = None) l \<Longrightarrow>
     run_frames (commit_func (run_state (Suc n) cfg)) l v =
       Ret (None, [], v\<lparr>v_req := v_req v @ map (\<lambda>f. EnqueueOp (f\<lparr>Command := MESSAGE\<rparr>)) l\<rparr>)"
proof (induction l arbitrary: v)
  case Nil
  then show ?case by simp
next
  case (Cons f l)
  let ?v = "send_request (EnqueueOp (f\<lparr>Command := MESSAGE\<rparr>)) v"
  have "commit_func (run_state (Suc n) cfg) f v = Ret (None, ?v)"
    using Cons.prems by (simp add: commit_func_def run_state_send del: run_state.simps)
  moreover have "run_frames (commit_func (run_state (Suc n) cfg)) l ?v =
      Ret (None, [], ?v\<lparr>v_req := v_req ?v @ map (\<lambda>f. EnqueueOp (f\<lparr>Command := MESSAGE\<rparr>)) l\<rparr>)"
    using Cons.prems by (intro Cons.IH) (simp_all add: send_request_def)
  ultimately show ?case by (simp add: send_request_def del: run_state.simps)
qed

text \<open>
  The turns of a transaction change the writer, the timer and the store of the connection, and
  nothing else.
\<close>

definition tx_turn :: "View \<Rightarrow> txStore \<Rightarrow> View \<Rightarrow> bool" where
  "tx_turn v txs v' \<longleftrightarrow> (\<exists>w b. ready w \<and> v' = v\<lparr>c_writer := w, c_timer := b, c_txStore := txs\<rparr>)"

lemma tx_turnI: "ready w \<Longrightarrow> tx_turn v txs (v\<lparr>c_timer := b, c_writer := w, c_txStore := txs\<rparr>)"
  unfolding tx_turn_def by (intro exI [of _ w] exI [of _ b]) simp

lemma tx_turn_trans: "tx_turn v txs v1 \<Longrightarrow> tx_turn v1 txs' v2 \<Longrightarrow> tx_turn v txs' v2"
  unfolding tx_turn_def by (elim exE conjE, intro exI conjI, assumption, simp)

lemma tx_turn_sel:
  "tx_turn v txs v' \<Longrightarrow> c_state v' = c_state v \<and> c_txStore v' = txs \<and> v_req v' = v_req v \<and> ready (c_writer v')"
  by (auto simp: tx_turn_def)

lemma prologue_timer: "\<exists>b. loop_prologue v = v\<lparr>c_timer := b\<rparr>"
proof (cases "c_writeTimeout v > 0 \<and> \<not> c_timer v")
  case True
  then have "loop_prologue v = v\<lparr>c_timer := True\<rparr>" by (simp add: loop_prologue_def)
  then show ?thesis by blast
next
  case False
  then have "loop_prologue v = v\<lparr>c_timer := c_timer v\<rparr>" by (auto simp: loop_prologue_def)
  then show ?thesis by blast
qed

lemma on_read_state:
  "on_read quote cfg f v =
     go_bind (stateFunc cfg f v)
       (\<lambda>(err, f', v'). case err of
            Some e \<Rightarrow> Ret (False, sendErrorImmediately quote e (Some f') v') | None \<Rightarrow> Ret (True, v'))"
  by (simp add: on_read_def Validate_def split: option.split Validator.split)

lemma turn_read:
  assumes "\<And>b. \<exists>f' v'. stateFunc cfg f (v\<lparr>c_timer := b\<rparr>) = Ret (None, f', v') \<and> P v'"
  shows "\<exists>v'. processLoop_turn quote cfg (SelRead (Some f)) v = Ret (True, v') \<and> P v'"
proof -
  obtain b where b: "loop_prologue v = v\<lparr>c_timer := b\<rparr>" using prologue_timer by blast
  from assms [of b] obtain f' v' where "stateFunc cfg f (v\<lparr>c_timer := b\<rparr>) = Ret (None, f', v')" "P v'" by blast
  with b show ?thesis by (simp add: processLoop_turn_def on_read_state)
qed

lemma stateFunc_connected:
  "c_state v = Connected \<Longrightarrow> stateFunc cfg f v = connected (run_state (Suc 0) cfg) f v"
  by (simp add: stateFunc_def numeral_2_eq_2 del: run_state.simps(2) add: run_state.simps(2) [of "Suc 0"])

lemma begin_turn:
  assumes "c_state v = Connected" and "ready (c_writer v)" and "Command f = BEGIN" and "header_ok (Hdr f)"
    and "Header_Contains (Hdr f) Transaction = Some tx" and "tx_lookup (c_txStore v) tx = None"
  shows "\<exists>v'. processLoop_turn quote cfg (SelRead (Some f)) v = Ret (True, v') \<and>
    tx_turn v (snd (tx_Begin tx (c_txStore v))) v'"
proof (rule turn_read)
  fix b
  let ?v = "v\<lparr>c_timer := b\<rparr>"
  obtain w where w: "sendReceiptImmediately f ?v = (None, no_receipt f, ?v\<lparr>c_writer := w\<rparr>)" "ready w"
    using sendReceipt_ready [of ?v f] assms by auto
  obtain txs where txs: "tx_Begin tx (c_txStore v) = (None, txs)"
    using assms(6) tx_Begin_lookup by (metis prod.exhaust)
  have "stateFunc cfg f ?v = Ret (None, no_receipt f, ?v\<lparr>c_writer := w, c_txStore := txs\<rparr>)"
    using assms w txs
    by (simp add: stateFunc_connected connected_def handleBegin_def put_tx_def del: run_state.simps)
  with w txs show "\<exists>f' v'. stateFunc cfg f ?v = Ret (None, f', v') \<and> tx_turn v (snd (tx_Begin tx (c_txStore v))) v'"
    using tx_turnI [OF w(2), of v txs b] by auto
qed

lemma send_turn:
  assumes "c_state v = Connected" and "ready (c_writer v)" and "Command f = SEND" and "header_ok (Hdr f)"
    and "Header_Contains (Hdr f) Transaction = Some tx" and "tx_lookup (c_txStore v) tx = Some l"
  shows "\<exists>v'. processLoop_turn quote cfg (SelRead (Some f)) v = Ret (True, v') \<and>
    tx_turn v (tx_assign tx (Some (l @ [stripped f])) (c_txStore v)) v'"
proof (rule turn_read)
  fix b
  let ?v = "v\<lparr>c_timer := b\<rparr>"
  obtain w where w: "sendReceiptImmediately f ?v = (None, no_receipt f, ?v\<lparr>c_writer := w\<rparr>)" "ready w"
    using sendReceipt_ready [of ?v f] assms by auto
  have "stateFunc cfg f ?v = Ret (None, stripped f,
      ?v\<lparr>c_writer := w, c_txStore := tx_assign tx (Some (l @ [stripped f])) (c_txStore v)\<rparr>)"
    using assms w
    by (simp add: stateFunc_connected connected_def handleSend_def store_in_tx_def tx_Add_def put_tx_def
        stripped_no_receipt del: run_state.simps)
  with w show "\<exists>f' v'. stateFunc cfg f ?v = Ret (None, f', v') \<and>
      tx_turn v (tx_assign tx (Some (l @ [stripped f])) (c_txStore v)) v'"
    using tx_turnI [OF w(2), of v _ b] by auto
qed

lemma abort_turn:
  assumes "c_state v = Connected" and "ready (c_writer v)" and "Command f = ABORT" and "header_ok (Hdr f)"
    and "Header_Contains (Hdr f) Transaction = Some tx" and "tx_lookup (c_txStore v) tx = Some l"
  shows "\<exists>v'. processLoop_turn quote cfg (SelRead (Some f)) v = Ret (True, v') \<and>
    tx_turn v (tx_assign tx None (c_txStore v)) v'"
proof (rule turn_read)
  fix b
  let ?v = "v\<lparr>c_timer := b\<rparr>"
  obtain w where w: "sendReceiptImmediately f ?v = (None, no_receipt f, ?v\<lparr>c_writer := w\<rparr>)" "ready w"
    using sendReceipt_ready [of ?v f] assms by auto
  have "stateFunc cfg f ?v = Ret (None, no_receipt f, ?v\<lparr>c_writer := w, c_txStore := tx_assign tx None (c_txStore v)\<rparr>)"
    using assms w
    by (simp add: stateFunc_connected connected_def handleAbort_def tx_Abort_def put_tx_def del: run_state.simps)
  with w show "\<exists>f' v'. stateFunc cfg f ?v = Ret (None, f', v') \<and> tx_turn v (tx_assign tx None (c_txStore v)) v'"
    using tx_turnI [OF w(2), of v _ b] by auto
qed

lemma commit_turn:
  assumes "c_state v = Connected" and "ready (c_writer v)" and "Command f = COMMIT" and "header_ok (Hdr f)"
    and "Header_Contains (Hdr f) Transaction = Some tx" and "tx_lookup (c_txStore v) tx = Some l"
    and "tx_inv (c_txStore v)"
    and "list_all (\<lambda>f. Command f = SEND \<and> Header_Contains (Hdr f) Receipt = None) l"
  shows "\<exists>v'. processLoop_turn quote cfg (SelRead (Some f)) v = Ret (True, v') \<and>
    tx_turn (v\<lparr>v_req := v_req v @ map (\<lambda>f. EnqueueOp (f\<lparr>Command := MESSAGE\<rparr>)) l\<rparr>)
      (tx_assign tx None (c_txStore v)) v'"
proof (rule turn_read)
  fix b
  let ?v = "v\<lparr>c_timer := b\<rparr>" and ?rs = "v_req v @ map (\<lambda>f. EnqueueOp (f\<lparr>Command := MESSAGE\<rparr>)) l"
  let ?txs = "tx_assign tx None (c_txStore v)"
  obtain w where w: "sendReceiptImmediately f ?v = (None, no_receipt f, ?v\<lparr>c_writer := w\<rparr>)" "ready w"
    using sendReceipt_ready [of ?v f] assms by auto
  have "list_all (\<lambda>f. Command f = SEND \<and> Header_Contains (Hdr f) Receipt = None \<and>
      Header_Contains (Hdr f) Transaction = None) l"
    using assms(6-8) by (auto simp: tx_inv_def tx_frame_ok_def list_all_iff)
  then have run: "run_frames (commit_func (run_state (Suc 0) cfg)) l (?v\<lparr>c_writer := w\<rparr>) =
      Ret (None, [], ?v\<lparr>c_writer := w, v_req := ?rs\<rparr>)"
    using run_frames_sends [of "?v\<lparr>c_writer := w\<rparr>" l 0 cfg] assms(1) by simp
  have "tx_Commit c_txStore put_tx tx (commit_func (run_state (Suc 0) cfg)) (?v\<lparr>c_writer := w\<rparr>) =
      Ret (None, ?v\<lparr>c_writer := w, v_req := ?rs, c_txStore := ?txs\<rparr>)"
    using conn_tx.commit_run [of "?v\<lparr>c_writer := w\<rparr>" tx l 0 cfg] assms(6,7) run by (simp add: put_tx_def)
  then have "stateFunc cfg f ?v = Ret (None, no_receipt f, ?v\<lparr>c_writer := w, v_req := ?rs, c_txStore := ?txs\<rparr>)"
    using assms w by (simp add: stateFunc_connected connected_def handleCommit_def del: run_state.simps)
  moreover have "tx_turn (v\<lparr>v_req := ?rs\<rparr>) ?txs (v\<lparr>v_req := ?rs, c_timer := b, c_writer := w, c_txStore := ?txs\<rparr>)"
    by (rule tx_turnI [OF w(2)])
  moreover have "v\<lparr>v_req := ?rs, c_timer := b, c_writer := w, c_txStore := ?txs\<rparr> =
      ?v\<lparr>c_writer := w, v_req := ?rs, c_txStore := ?txs\<rparr>" by (cases v) simp
  ultimately show "\<exists>f' v'. stateFunc cfg f ?v = Ret (None, f', v') \<and> tx_turn (v\<lparr>v_req := ?rs\<rparr>) ?txs v'" by metis
qed

lemma processLoop_append:
  "processLoop quote cfg (xs @ ys) v =
     go_bind (processLoop quote cfg xs v) (\<lambda>(continue, v'). if continue then processLoop quote cfg ys v' else Ret (False, v'))"
  by (induction xs arbitrary: v) (auto simp: go_bind_def split: go.split)

definition tx_send :: "string \<Rightarrow> Frame \<Rightarrow> bool" where
  "tx_send tx f \<longleftrightarrow> Command f = SEND \<and> header_ok (Hdr f) \<and> Header_Contains (Hdr f) Transaction = Some tx"

definition tx_command :: "string \<Rightarrow> string \<Rightarrow> Frame \<Rightarrow> bool" where
  "tx_command cmd tx f \<longleftrightarrow> Command f = cmd \<and> header_ok (Hdr f) \<and> Header_Contains (Hdr f) Transaction = Some tx"

abbreviation reads :: "Frame list \<Rightarrow> select_case list" where
  "reads fs \<equiv> map (\<lambda>f. SelRead (Some f)) fs"

lemma sends_turns:
  "c_state v = Connected \<Longrightarrow> ready (c_writer v) \<Longrightarrow> tx_inv (c_txStore v) \<Longrightarrow>
   tx_lookup (c_txStore v) tx = Some l \<Longrightarrow> list_all (tx_send tx) fs \<Longrightarrow>
     \<exists>v' txs. processLoop quote cfg (reads fs) v = Ret (True, v') \<and> tx_turn v txs v' \<and> tx_inv txs \<and>
       tx_lookup txs = (tx_lookup (c_txStore v))(tx \<mapsto> l @ map stripped fs)"
proof (induction fs arbitrary: v l)
  case Nil
  have "v = v\<lparr>c_timer := c_timer v, c_writer := c_writer v, c_txStore := c_txStore v\<rparr>" by simp
  with Nil tx_turnI [of "c_writer v" v "c_txStore v" "c_timer v"] show ?case by (auto simp: fun_upd_idem)
next
  case (Cons f fs)
  from Cons.prems(5) have f: "Command f = SEND" "header_ok (Hdr f)" "Header_Contains (Hdr f) Transaction = Some tx"
    by (simp_all add: tx_send_def)
  let ?txs = "tx_assign tx (Some (l @ [stripped f])) (c_txStore v)"
  obtain v1 where v1: "processLoop_turn quote cfg (SelRead (Some f)) v = Ret (True, v1)" "tx_turn v ?txs v1"
    using send_turn [OF Cons.prems(1,2) f Cons.prems(4)] by blast
  have "list_all tx_frame_ok (l @ [stripped f])"
    using Cons.prems(3,4) f(2) by (auto simp: tx_inv_def tx_frame_ok_def stripped_Contains)
  then have inv1: "tx_inv ?txs" using Cons.prems(3) by (intro tx_inv_assign) simp_all
  have look1: "tx_lookup ?txs = (tx_lookup (c_txStore v))(tx \<mapsto> l @ [stripped f])"
    using Cons.prems(4) by simp
  have "c_state v1 = Connected" "ready (c_writer v1)" "tx_inv (c_txStore v1)"
    "tx_lookup (c_txStore v1) tx = Some (l @ [stripped f])" "list_all (tx_send tx) fs"
    using Cons.prems(1,5) tx_turn_sel [OF v1(2)] inv1 look1 by simp_all
  from Cons.IH [OF this] obtain v2 txs
    where v2: "processLoop quote cfg (reads fs) v1 = Ret (True, v2)" "tx_turn v1 txs v2" "tx_inv txs"
      "tx_lookup txs = (tx_lookup (c_txStore v1))(tx \<mapsto> (l @ [stripped f]) @ map stripped fs)" by blast
  then have "processLoop quote cfg (reads (f # fs)) v = Ret (True, v2)" using v1(1) by simp
  moreover have "tx_lookup txs = (tx_lookup (c_txStore v))(tx \<mapsto> l @ map stripped (f # fs))"
    using v2(4) look1 tx_turn_sel [OF v1(2)] by simp
  ultimately show ?case using v2(3) tx_turn_trans [OF v1(2) v2(2)] by blast
qed

lemma transaction_open:
  assumes "c_state v = Connected" and "ready (c_writer v)" and "tx_inv (c_txStore v)"
    and "tx_lookup (c_txStore v) tx = None" and "tx_command BEGIN tx b" and "list_all (tx_send tx) fs"
  shows "\<exists>v' txs. processLoop quote cfg (reads (b # fs)) v = Ret (True, v') \<and> tx_turn v txs v' \<and> tx_inv txs \<and>
    tx_lookup txs = (tx_lookup (c_txStore v))(tx \<mapsto> map stripped fs)"
proof -
  let ?txs = "snd (tx_Begin tx (c_txStore v))"
  obtain v1 where v1: "processLoop_turn quote cfg (SelRead (Some b)) v = Ret (True, v1)" "tx_turn v ?txs v1"
    using begin_turn [OF assms(1,2) _ _ _ assms(4), of b] assms(5) unfolding tx_command_def by blast
  obtain err txs1 where bg: "tx_Begin tx (c_txStore v) = (err, txs1)" by fastforce
  with assms(4) have look: "tx_lookup txs1 = (tx_lookup (c_txStore v))(tx \<mapsto> [])"
    using tx_Begin_lookup [OF bg] by simp
  have inv: "tx_inv txs1" using tx_inv_Begin [OF assms(3) bg] .
  have "c_state v1 = Connected" "ready (c_writer v1)" "tx_inv (c_txStore v1)"
    "tx_lookup (c_txStore v1) tx = Some []"
    using tx_turn_sel [OF v1(2)] assms(1) bg look inv by simp_all
  from sends_turns [OF this assms(6)] obtain v2 txs
    where v2: "processLoop quote cfg (reads fs) v1 = Ret (True, v2)" "tx_turn v1 txs v2" "tx_inv txs"
      "tx_lookup txs = (tx_lookup (c_txStore v1))(tx \<mapsto> [] @ map stripped fs)" by blast
  then have "processLoop quote cfg (reads (b # fs)) v = Ret (True, v2)" using v1(1) by simp
  moreover have "tx_lookup txs = (tx_lookup (c_txStore v))(tx \<mapsto> map stripped fs)"
    using v2(4) look bg tx_turn_sel [OF v1(2)] by simp
  ultimately show ?thesis using v2(3) tx_turn_trans [OF v1(2) v2(2)] by blast
qed

lemma stripped_sends:
  "list_all (tx_send tx) fs \<Longrightarrow>
     list_all (\<lambda>f. Command f = SEND \<and> Header_Contains (Hdr f) Receipt = None) (map stripped fs)"
  by (auto simp: list_all_iff tx_send_def stripped_Contains)

end
