(* ===== verification/Server_Session.thy ===== *)
theory Server_Session
  imports Server_Conn
begin

section \<open>Properties of a connection of the server\<close>

text \<open>
  What a client can rely on when it talks to one connection (\<open>server/client/conn.go\<close>): the
  handshake, transactions, receipts, acknowledgements, message identifiers, and what happens
  to the messages in flight when the connection closes. The definitions are in
  \<open>Server_Conn\<close>.
\<close>

subsection \<open>Commit terminates\<close>

lemma SL_Ack_Panic: "SL_Ack m callback l w = Panic s \<Longrightarrow> s = ''invalid value for subscript.ack''"
  by (induction m callback l w rule: SL_Ack.induct)
     (auto simp: IsAckedBy_def split: go.splits if_splits prod.splits)

lemma handleAck_Panic: "handleAck f v = Panic s \<Longrightarrow> s = ''invalid value for subscript.ack''"
  by (auto simp: handleAck_def go_bind_eq_Panic split: sum.splits prod.splits option.splits dest: SL_Ack_Panic)

lemma connected_Panic:
  "connected g f v = Panic s \<Longrightarrow> handleCommit g f v = Panic s \<or> s = ''invalid value for subscript.ack''"
  by (auto simp: connected_def dest: handleAck_Panic split: if_splits)

lemma run_frames_Panic:
  "run_frames step l st = Panic s \<Longrightarrow> \<exists>f st. f \<in> set l \<and> step f st = Panic s"
  by (induction l arbitrary: st) (auto split: go.splits option.splits prod.splits, blast+)

lemma commit_func_Panic:
  assumes "tx_frame_ok f" and "commit_func (run_state (Suc 0) cfg) f v = Panic s"
  shows "s = ''invalid value for subscript.ack''"
proof (cases "c_state v")
  case Connecting
  with assms show ?thesis by (simp add: commit_func_def go_bind_eq_Panic split: prod.splits)
next
  case Connected
  with assms have "connected (run_state 0 cfg) f v = Panic s"
    by (auto simp: commit_func_def go_bind_eq_Panic split: prod.splits)
  moreover have "handleCommit (run_state 0 cfg) f v \<noteq> Panic s"
    using assms(1) by (simp add: handleCommit_def tx_frame_ok_def)
  ultimately show ?thesis using connected_Panic by blast
qed

lemma stateFunc_Panic:
  assumes "tx_inv (c_txStore v)" and "stateFunc cfg f v = Panic s"
  shows "s = ''invalid value for subscript.ack''"
proof (cases "c_state v")
  case Connecting
  with assms(2) show ?thesis
    by (simp add: stateFunc_def numeral_2_eq_2)
next
  case Connected
  show ?thesis
  proof (rule ccontr)
    assume no: "s \<noteq> ''invalid value for subscript.ack''"
    have "handleCommit (run_state (Suc 0) cfg) f v = Panic s"
      using assms(2) Connected no connected_Panic by (auto simp: stateFunc_connected)
    then obtain tx f' v' where r: "sendReceiptImmediately f v = (None, f', v')"
      and c: "tx_Commit c_txStore put_tx tx (commit_func (run_state (Suc 0) cfg)) v' = Panic s"
      by (auto simp: handleCommit_def go_bind_eq_Panic simp del: run_state.simps split: option.splits prod.splits)
    from sendReceipt_frame [OF r] assms(1) have inv: "tx_inv (c_txStore v')" by auto
    from c obtain l where l: "tx_lookup (c_txStore v') tx = Some l"
      by (auto simp: tx_Commit_def split: option.splits)
    from c conn_tx.commit_run [OF inv l, of 0 cfg]
    have "run_frames (commit_func (run_state (Suc 0) cfg)) l v' = Panic s"
      by (simp del: run_state.simps split: go.splits prod.splits option.splits)
    from run_frames_Panic [OF this]
    obtain g u where "g \<in> set l" "commit_func (run_state (Suc 0) cfg) g u = Panic s" by blast
    moreover from inv l \<open>g \<in> set l\<close> have "tx_frame_ok g" by (auto simp: tx_inv_def list_all_iff)
    ultimately show False using commit_func_Panic no by blast
  qed
qed


text \<open>A connection that has just been accepted, and one that has finished its handshake.\<close>

definition sample_cfg :: Config where
  "sample_cfg = \<lparr>Authenticate = (\<lambda>login passcode. login = ''guest''), cfg_HeartBeat = Minute, cfg_Logger = Some StdLogger\<rparr>"

definition fresh_view :: View where
  "fresh_view =
     Conn.extend (NewConn 1 (NewWriter None ErrEOF))
       \<lparr>v_store = (\<lambda>s. newSubscription 0 [] [] []), v_fresh = 0, v_req = []\<rparr>"

definition connected_view :: View where
  "connected_view = fresh_view\<lparr>c_state := Connected, c_version := V12\<rparr>"

lemma fresh_view_sel [simp]:
  "c_state fresh_view = Connecting" "c_txStore fresh_view = tx_new" "ready (c_writer fresh_view)"
  "w_out (c_writer fresh_view) = []" "c_subs fresh_view = Map.empty" "v_req fresh_view = []" "c_self fresh_view = 1"
  "c_subList fresh_view = []" "c_lastMsgId fresh_view = 0"
  by (simp_all add: fresh_view_def Conn.extend_def NewConn_def NewWriter_def NewWriterSize_def ready_def)

lemma connected_view_sel [simp]:
  "c_state connected_view = Connected" "c_txStore connected_view = tx_new" "ready (c_writer connected_view)"
  "w_out (c_writer connected_view) = []" "c_subs connected_view = Map.empty" "v_req connected_view = []"
  "c_self connected_view = 1" "c_subList connected_view = []" "c_lastMsgId connected_view = 0"
  by (simp_all add: connected_view_def)


subsection \<open>Transactions\<close>

lemma transaction_commits:
  assumes "c_state v = Connected" and "ready (c_writer v)" and "tx_inv (c_txStore v)"
    and "tx_lookup (c_txStore v) tx = None"
    and "tx_command BEGIN tx b" and "list_all (tx_send tx) fs" and "tx_command COMMIT tx c"
  shows "\<exists>v2. processLoop quote cfg (reads (b # fs @ [c])) v = Ret (True, v2) \<and>
    v_req v2 = v_req v @ map (\<lambda>f. EnqueueOp ((stripped f)\<lparr>Command := MESSAGE\<rparr>)) fs \<and>
    tx_lookup (c_txStore v2) = tx_lookup (c_txStore v)"
proof -
  obtain v1 txs where v1: "processLoop quote cfg (reads (b # fs)) v = Ret (True, v1)" "tx_turn v txs v1" "tx_inv txs"
    "tx_lookup txs = (tx_lookup (c_txStore v))(tx \<mapsto> map stripped fs)"
    using transaction_open [OF assms(1-6)] by blast
  note s1 = tx_turn_sel [OF v1(2)]
  have look: "tx_lookup (c_txStore v1) tx = Some (map stripped fs)" using v1(4) s1 by simp
  have gone: "tx_lookup (tx_assign tx None (c_txStore v1)) = tx_lookup (c_txStore v)"
    using look v1(4) s1 assms(4) by (simp add: fun_upd_idem)
  have c: "Command c = COMMIT" "header_ok (Hdr c)" "Header_Contains (Hdr c) Transaction = Some tx"
    using assms(7) by (simp_all add: tx_command_def)
  have "c_state v1 = Connected" "ready (c_writer v1)" "tx_inv (c_txStore v1)" using s1 v1(3) assms(1) by simp_all
  note commit_turn [OF this(1,2) c look this(3) stripped_sends [OF assms(6)]]
  then obtain v2 where v2: "processLoop_turn quote cfg (SelRead (Some c)) v1 = Ret (True, v2)"
    "tx_turn (v1\<lparr>v_req := v_req v1 @ map (\<lambda>f. EnqueueOp (f\<lparr>Command := MESSAGE\<rparr>)) (map stripped fs)\<rparr>)
      (tx_assign tx None (c_txStore v1)) v2" by blast
  have "processLoop quote cfg (reads (b # fs @ [c])) v = Ret (True, v2)"
    using processLoop_append [of quote cfg "reads (b # fs)" "[SelRead (Some c)]" v] v1(1) v2(1) by simp
  with tx_turn_sel [OF v2(2)] gone s1 show ?thesis by (intro exI [of _ v2]) (simp add: comp_def)
qed

text \<open>
  Property C2. Transactions are atomic. On a connection that can be written to, after \<open>BEGIN\<close>
  and any number of \<open>SEND\<close> frames of the transaction, with or without receipts, no request has
  reached the upper layer. \<open>COMMIT\<close> then sends all messages, in order and without their
  transaction and receipt entries, and \<open>ABORT\<close> sends none; either way the transaction is gone,
  all others are as before, and the connection stays open.
\<close>

theorem transaction_atomic:
  assumes "c_state v = Connected" and "ready (c_writer v)" and "tx_inv (c_txStore v)"
    and "tx_lookup (c_txStore v) tx = None"
    and "tx_command BEGIN tx b" and "list_all (tx_send tx) fs" and "tx_command COMMIT tx c" and "tx_command ABORT tx a"
  shows "(\<exists>v1. processLoop quote cfg (reads (b # fs)) v = Ret (True, v1) \<and> v_req v1 = v_req v \<and>
            tx_lookup (c_txStore v1) = (tx_lookup (c_txStore v))(tx \<mapsto> map stripped fs)) \<and>
         (\<exists>v2. processLoop quote cfg (reads (b # fs @ [c])) v = Ret (True, v2) \<and>
            v_req v2 = v_req v @ map (\<lambda>f. EnqueueOp ((stripped f)\<lparr>Command := MESSAGE\<rparr>)) fs \<and>
            tx_lookup (c_txStore v2) = tx_lookup (c_txStore v)) \<and>
         (\<exists>v3. processLoop quote cfg (reads (b # fs @ [a])) v = Ret (True, v3) \<and> v_req v3 = v_req v \<and>
            tx_lookup (c_txStore v3) = tx_lookup (c_txStore v))"
proof -
  obtain v1 txs where v1: "processLoop quote cfg (reads (b # fs)) v = Ret (True, v1)" "tx_turn v txs v1" "tx_inv txs"
    "tx_lookup txs = (tx_lookup (c_txStore v))(tx \<mapsto> map stripped fs)"
    using transaction_open [OF assms(1-6)] by blast
  note s1 = tx_turn_sel [OF v1(2)]
  have look: "tx_lookup (c_txStore v1) tx = Some (map stripped fs)" using v1(4) s1 by simp
  have gone: "tx_lookup (tx_assign tx None (c_txStore v1)) = tx_lookup (c_txStore v)"
    using look v1(4) s1 assms(4) by (simp add: fun_upd_idem)
  have one: "\<exists>v1. processLoop quote cfg (reads (b # fs)) v = Ret (True, v1) \<and> v_req v1 = v_req v \<and>
      tx_lookup (c_txStore v1) = (tx_lookup (c_txStore v))(tx \<mapsto> map stripped fs)"
    using v1 s1 by (intro exI [of _ v1]) simp
  have a: "Command a = ABORT" "header_ok (Hdr a)" "Header_Contains (Hdr a) Transaction = Some tx"
    using assms(8) by (simp_all add: tx_command_def)
  obtain v3 where v3: "processLoop_turn quote cfg (SelRead (Some a)) v1 = Ret (True, v3)"
    "tx_turn v1 (tx_assign tx None (c_txStore v1)) v3"
    using abort_turn [OF _ _ a look, of quote cfg] s1 assms(1) by auto
  have "processLoop quote cfg (reads (b # fs @ [a])) v = Ret (True, v3)"
    using processLoop_append [of quote cfg "reads (b # fs)" "[SelRead (Some a)]" v] v1(1) v3(1) by simp
  then have "\<exists>v3. processLoop quote cfg (reads (b # fs @ [a])) v = Ret (True, v3) \<and> v_req v3 = v_req v \<and>
      tx_lookup (c_txStore v3) = tx_lookup (c_txStore v)"
    using tx_turn_sel [OF v3(2)] gone s1 by (intro exI [of _ v3]) simp
  with one transaction_commits [OF assms(1-7), of quote cfg] show ?thesis by blast
qed

theorem transaction_atomic_witness:
  "\<exists>v2. processLoop id sample_cfg
      (reads [mk_frame BEGIN [(''transaction'', ''t'')],
              mk_frame SEND [(''destination'', ''/queue/a''), (''transaction'', ''t''), (''receipt'', ''r'')],
              mk_frame COMMIT [(''transaction'', ''t'')]]) connected_view = Ret (True, v2) \<and>
     v_req v2 = [EnqueueOp (mk_frame MESSAGE [(''destination'', ''/queue/a'')])]"
proof -
  let ?b = "mk_frame BEGIN [(''transaction'', ''t'')]" and ?c = "mk_frame COMMIT [(''transaction'', ''t'')]"
  let ?a = "mk_frame ABORT [(''transaction'', ''t'')]"
  let ?f = "mk_frame SEND [(''destination'', ''/queue/a''), (''transaction'', ''t''), (''receipt'', ''r'')]"
  have "(stripped ?f)\<lparr>Command := MESSAGE\<rparr> = mk_frame MESSAGE [(''destination'', ''/queue/a'')]"
    by code_simp
  with transaction_atomic [of connected_view "''t''" ?b "[?f]" ?c ?a id sample_cfg] show ?thesis
    by (auto simp: tx_command_def tx_send_def simp del: processLoop.simps)
qed

subsection \<open>The handshake\<close>

text \<open>What makes a connect frame acceptable, and the heart-beat value the server insists on.\<close>

definition connect_ok :: "Config \<Rightarrow> Frame \<Rightarrow> bool" where
  "connect_ok cfg f \<longleftrightarrow>
     Command f \<in> {CONNECT, STOMP} \<and> Header_Contains (Hdr f) Receipt = None \<and>
     Authenticate cfg (Header_Get (Hdr f) Login) (Header_Get (Hdr f) Passcode) \<and>
     determineVersion f \<in> {(V11, None), (V12, None)} \<and> snd (snd (getHeartBeat f)) = None"

definition negotiated :: "Config \<Rightarrow> int \<Rightarrow> int" where
  "negotiated cfg c =
     (if c = 0 then 0 else max c (asMilliseconds (cfg_HeartBeat cfg) maxHeartBeat))"

definition connected_frame :: "Config \<Rightarrow> Frame \<Rightarrow> Frame" where
  "connected_frame cfg f =
     (let (cx, cy, _) = getHeartBeat f
      in mk_frame CONNECTED
           [(VersionHdr, fst (determineVersion f)), (ServerHdr, ''stompd/x.y.z''),
            (HeartBeat, FormatInt (negotiated cfg cy) @ '','' @ FormatInt (negotiated cfg cx))])"

lemma version_fold_known:
  assumes "foldl version_step ([], Some unknownVersion) vs = (ver, None)"
  shows "ver \<in> {V10, V11, V12}"
proof -
  let ?ws = "filter (\<lambda>v. v \<in> {V10, V11, V12}) vs"
  from assms have "?ws \<noteq> []" "ver = last ?ws"
    unfolding version_fold Let_def by (auto split: if_splits)
  then have "ver \<in> set ?ws" using last_in_set by blast
  then show ?thesis by simp
qed

lemma determineVersion_known:
  assumes "determineVersion f = (ver, None)"
  shows "ver \<in> {V10, V11, V12}"
proof (cases "Header_Contains (Hdr f) AcceptVersion")
  case None
  with assms show ?thesis by (simp add: determineVersion_def Let_def split: if_splits)
next
  case (Some av)
  with assms have "foldl version_step ([], Some unknownVersion) (sort (Split av (CHR '',''))) = (ver, None)"
    by (simp add: determineVersion_def Let_def split: if_splits)
  then show ?thesis by (rule version_fold_known)
qed

lemma getHeartBeat_range:
  assumes "Command f \<in> {CONNECT, STOMP}" and "getHeartBeat f = (cx, cy, err)"
  shows "0 \<le> cx" "cx \<le> maxHeartBeat" "0 \<le> cy" "cy \<le> maxHeartBeat"
  using get_heart_beat_facts(2) [OF _ assms(2)] assms(1) by auto

lemma asMilliseconds_max: "asMilliseconds d maxHeartBeat \<le> maxHeartBeat"
  by (simp add: asMilliseconds_def Let_def maxHeartBeat_def)

lemma negotiated_clamp:
  assumes "0 \<le> c"
  shows "(if c > 0 \<and> c < asMilliseconds (cfg_HeartBeat cfg) maxHeartBeat
          then asMilliseconds (cfg_HeartBeat cfg) maxHeartBeat else c) = negotiated cfg c"
  using assms by (auto simp: negotiated_def max_def)

lemma negotiated_range: "0 \<le> c \<Longrightarrow> c \<le> maxHeartBeat \<Longrightarrow> 0 \<le> negotiated cfg c \<and> negotiated cfg c \<le> maxHeartBeat"
  using asMilliseconds_max [of "cfg_HeartBeat cfg"] by (auto simp: negotiated_def max_def)

lemma connecting_state: "c_state v = Connecting \<Longrightarrow> stateFunc cfg f v = Ret (connecting cfg f v)"
  by (simp add: stateFunc_def numeral_2_eq_2)

lemma connecting_rejects:
  assumes "\<not> connect_ok cfg f"
  obtains err ver vd where "connecting cfg f v = (Some err, f, v\<lparr>c_version := ver, c_validator := vd\<rparr>)"
proof -
  have "\<exists>err ver vd. connecting cfg f v = (Some err, f, v\<lparr>c_version := ver, c_validator := vd\<rparr>)"
  proof (cases "Command f \<in> {CONNECT, STOMP} \<and> Header_Contains (Hdr f) Receipt = None \<and>
      Authenticate cfg (Header_Get (Hdr f) Login) (Header_Get (Hdr f) Passcode)")
    case False
    then have "\<exists>err. connecting cfg f v = (Some err, f, v)"
      by (auto simp: connecting_def handleConnect_def)
    then obtain err where "connecting cfg f v = (Some err, f, v\<lparr>c_version := c_version v, c_validator := c_validator v\<rparr>)"
      by auto
    then show ?thesis by blast
  next
    case True
    obtain ver verr where dv: "determineVersion f = (ver, verr)" by fastforce
    obtain cx cy herr where hb: "getHeartBeat f = (cx, cy, herr)" using prod_cases3 by blast
    show ?thesis
    proof (cases verr)
      case (Some e)
      with True dv have "connecting cfg f v = (Some e, f, v\<lparr>c_version := ver, c_validator := c_validator v\<rparr>)"
        by (auto simp: connecting_def handleConnect_def)
      then show ?thesis by blast
    next
      case None
      with assms True dv hb determineVersion_known [of f ver] have "ver = V10 \<or> herr \<noteq> None"
        by (auto simp: connect_ok_def)
      then have "\<exists>err. connecting cfg f v = (Some err, f, v\<lparr>c_version := ver, c_validator := Some (NewValidator ver)\<rparr>)"
        using True dv hb None by (auto simp: connecting_def handleConnect_def Let_def)
      then show ?thesis by blast
    qed
  qed
  with that show thesis by blast
qed

lemma connecting_accepts:
  assumes ok: "connect_ok cfg f"
  obtains w where "connecting cfg f v =
    (None, f, v\<lparr>c_version := fst (determineVersion f), c_validator := Some validatorNull,
       c_writeTimeout := negotiated cfg (fst (snd (getHeartBeat f))) * Millisecond, c_writer := w,
       c_state := Connected, v_req := v_req v @ [ConnectedOp (c_self v)]\<rparr>)"
    and "w = snd (Writer_Write (Some (connected_frame cfg f)) (c_writer v))"
proof -
  obtain cx cy herr where hb: "getHeartBeat f = (cx, cy, herr)" using prod_cases3 by blast
  from ok hb obtain ver where ver: "determineVersion f = (ver, None)" "ver \<noteq> V10" and h: "herr = None"
    by (auto simp: connect_ok_def)
  note range = getHeartBeat_range [OF _ hb]
  from ok have cmd: "Command f \<in> {CONNECT, STOMP}" by (simp add: connect_ok_def)
  have small: "int64 (negotiated cfg cy * Millisecond) = negotiated cfg cy * Millisecond"
    using negotiated_range [OF range(3,4) [OF cmd], of cfg] by (intro int64_id) (auto simp: maxHeartBeat_def)
  obtain e w where w: "Writer_Write (Some (connected_frame cfg f)) (c_writer v) = (e, w)" by fastforce
  have "connecting cfg f v =
    (None, f, v\<lparr>c_version := fst (determineVersion f), c_validator := Some validatorNull,
       c_writeTimeout := negotiated cfg cy * Millisecond, c_writer := w,
       c_state := Connected, v_req := v_req v @ [ConnectedOp (c_self v)]\<rparr>)"
    using ok hb ver h w small range [OF cmd]
    by (simp add: connecting_def handleConnect_def connect_ok_def negotiated_clamp connected_frame_def Let_def
        sendImmediately_def send_request_def NewValidator_def)
  with that hb w show thesis by simp
qed

text \<open>
  Property C19. The handshake. Before it, a frame is accepted exactly when it is a \<open>CONNECT\<close> or
  \<open>STOMP\<close> frame without a receipt, with credentials the configuration accepts, a version 1.1
  or 1.2 in common, and a well-formed heart-beat. Then the client receives exactly one
  \<open>CONNECTED\<close> frame with the version and the heart-beats the server insists on, the upper
  layer is told, and the write time-out is the negotiated one, without overflow. Otherwise
  nothing is written or requested by the handler and the connection stays unconnected.
\<close>

theorem connect_handshake:
  assumes "c_state v = Connecting" and "ready (c_writer v)"
  shows "\<exists>err v'. stateFunc cfg f v = Ret (err, f, v') \<and> (err = None) = connect_ok cfg f \<and>
    (if err = None
     then c_state v' = Connected \<and> c_version v' \<in> {V11, V12} \<and>
          v_req v' = v_req v @ [ConnectedOp (c_self v)] \<and>
          w_out (c_writer v') = w_out (c_writer v) @ frame_bytes (Some (connected_frame cfg f)) \<and>
          c_writeTimeout v' = negotiated cfg (fst (snd (getHeartBeat f))) * Millisecond
     else c_state v' = Connecting \<and> v_req v' = v_req v \<and> c_writer v' = c_writer v)"
proof (cases "connect_ok cfg f")
  case True
  obtain w where w: "connecting cfg f v =
    (None, f, v\<lparr>c_version := fst (determineVersion f), c_validator := Some validatorNull,
       c_writeTimeout := negotiated cfg (fst (snd (getHeartBeat f))) * Millisecond, c_writer := w,
       c_state := Connected, v_req := v_req v @ [ConnectedOp (c_self v)]\<rparr>)"
    "w = snd (Writer_Write (Some (connected_frame cfg f)) (c_writer v))"
    using connecting_accepts [OF True, of v] by blast
  obtain w' where "Writer_Write (Some (connected_frame cfg f)) (c_writer v) = (None, w')"
    "w_out w' = w_out (c_writer v) @ frame_bytes (Some (connected_frame cfg f))"
    using Writer_Write_ready [OF assms(2)] by blast
  moreover have "fst (determineVersion f) \<in> {V11, V12}" using True by (auto simp: connect_ok_def)
  ultimately show ?thesis using w True assms(1) by (simp add: connecting_state)
next
  case False
  obtain err ver vd where "connecting cfg f v = (Some err, f, v\<lparr>c_version := ver, c_validator := vd\<rparr>)"
    using connecting_rejects [OF False, of v] by blast
  with False assms(1) show ?thesis by (simp add: connecting_state)
qed

theorem connect_handshake_witness:
  "\<exists>v'. stateFunc sample_cfg
      (mk_frame CONNECT [(''login'', ''guest''), (''accept-version'', ''1.2,1.1''), (''heart-beat'', ''5,90000'')])
      fresh_view =
     Ret (None, mk_frame CONNECT [(''login'', ''guest''), (''accept-version'', ''1.2,1.1''), (''heart-beat'', ''5,90000'')], v') \<and>
     c_state v' = Connected \<and> v_req v' = [ConnectedOp 1] \<and> c_writeTimeout v' = 90 * Second"
proof -
  let ?f = "mk_frame CONNECT [(''login'', ''guest''), (''accept-version'', ''1.2,1.1''), (''heart-beat'', ''5,90000'')]"
  have dv: "determineVersion ?f = (V12, None)" by code_simp
  have hb: "getHeartBeat ?f = (5, 90000, None)"
    using get_heart_beat_facts(1) [of ?f]
    by (simp add: heartBeatRegexp9_def match_two_numbers_def is_digit_def dec_val_def digit_val_def)
  have "connect_ok sample_cfg ?f" using dv hb by (simp add: connect_ok_def sample_cfg_def Header_Get_def)
  moreover have "negotiated sample_cfg 90000 = 90000"
    by (simp add: negotiated_def sample_cfg_def asMilliseconds_def Let_def quot_def sgn_if maxHeartBeat_def)
  ultimately show ?thesis
    using connect_handshake [of fresh_view sample_cfg ?f] hb by auto
qed

lemma on_sub_unsubscribed:
  "c_subs v = Map.empty \<Longrightarrow> on_sub s v = Ret (True, send_request (RequeueOp (sub_frame (v_store v s))) (v\<lparr>c_timer := False\<rparr>))"
  by (simp add: on_sub_def Let_def)

text \<open>A turn before the handshake, without an acceptable connect frame.\<close>

definition quiet :: "View \<Rightarrow> bool" where
  "quiet v \<longleftrightarrow> c_state v = Connecting \<and> c_subs v = Map.empty"

definition only_requeues :: "View \<Rightarrow> View \<Rightarrow> bool" where
  "only_requeues v v' \<longleftrightarrow> (\<exists>fos. v_req v' = v_req v @ map RequeueOp fos)"

lemma only_requeues_same: "v_req v' = v_req v \<Longrightarrow> only_requeues v v'"
  unfolding only_requeues_def by (intro exI [of _ "[]"]) simp

lemma only_requeues_trans: "only_requeues v v1 \<Longrightarrow> only_requeues v1 v2 \<Longrightarrow> only_requeues v v2"
  by (auto simp: only_requeues_def) (metis map_append)

lemma sendImmediately_sel:
  "sendImmediately fo v = (err, v') \<Longrightarrow>
     c_state v' = c_state v \<and> c_subs v' = c_subs v \<and> v_req v' = v_req v \<and> c_txStore v' = c_txStore v \<and>
     v_store v' = v_store v \<and> c_subList v' = c_subList v \<and> c_self v' = c_self v \<and> v_fresh v' = v_fresh v \<and>
     c_lastMsgId v' = c_lastMsgId v"
  by (drule sendImmediately_frame) auto

lemma sendErrorImmediately_sel:
  "c_state (sendErrorImmediately quote e fo v) = c_state v \<and> c_subs (sendErrorImmediately quote e fo v) = c_subs v \<and>
   v_req (sendErrorImmediately quote e fo v) = v_req v"
  using sendImmediately_sel [of _ v] by (auto simp: sendErrorImmediately_def Let_def split: option.splits)
     (metis prod.collapse)+

lemma allocateMessageId_view: "\<exists>n. snd (allocateMessageId f sub v) = v\<lparr>c_lastMsgId := n\<rparr>"
proof (cases "Command f = MESSAGE \<or> Command f = ACK")
  case True
  then have "snd (allocateMessageId f sub v) = v\<lparr>c_lastMsgId := c_lastMsgId v + 1\<rparr>"
    by (simp add: allocateMessageId_def Let_def)
  then show ?thesis by blast
next
  case False
  then have "snd (allocateMessageId f sub v) = v\<lparr>c_lastMsgId := c_lastMsgId v\<rparr>"
    by (simp add: allocateMessageId_def)
  then show ?thesis by blast
qed

lemma on_write_view: "\<exists>n w. snd (on_write f v) = v\<lparr>c_timer := False, c_lastMsgId := n, c_writer := w\<rparr>"
proof -
  obtain f' v1 where a: "allocateMessageId f None (v\<lparr>c_timer := False\<rparr>) = (f', v1)" by fastforce
  obtain err v2 where s: "sendImmediately (Some f') v1 = (err, v2)" by fastforce
  obtain n where "v1 = v\<lparr>c_timer := False, c_lastMsgId := n\<rparr>"
    using allocateMessageId_view [of f None "v\<lparr>c_timer := False\<rparr>"] a by auto
  moreover obtain w where "v2 = v1\<lparr>c_writer := w\<rparr>" using sendImmediately_frame [OF s] by blast
  ultimately show ?thesis using a s by (auto simp: on_write_def)
qed

lemma on_timer_view: "\<exists>w. snd (on_timer v) = v\<lparr>c_timer := False, c_writer := w\<rparr>"
proof -
  obtain err v2 where s: "sendImmediately None (v\<lparr>c_timer := False\<rparr>) = (err, v2)" by fastforce
  with sendImmediately_frame [OF s] show ?thesis by (auto simp: on_timer_def)
qed

lemma quiet_read:
  assumes "quiet v" and "\<not> connect_ok cfg f"
  shows "\<exists>v'. on_read quote cfg f v = Ret (False, v') \<and> quiet v' \<and> v_req v' = v_req v"
proof -
  obtain err ver vd where "connecting cfg f v = (Some err, f, v\<lparr>c_version := ver, c_validator := vd\<rparr>)"
    using connecting_rejects [OF assms(2), of v] by blast
  with assms(1) sendErrorImmediately_sel [of quote err "Some f" "v\<lparr>c_version := ver, c_validator := vd\<rparr>"]
  show ?thesis by (simp add: on_read_state connecting_state quiet_def)
qed

lemma quiet_turn:
  assumes "quiet v" and "\<And>f. sel = SelRead (Some f) \<Longrightarrow> \<not> connect_ok cfg f"
  shows "\<exists>b v'. processLoop_turn quote cfg sel v = Ret (b, v') \<and> quiet v' \<and> only_requeues v v'"
proof -
  obtain tm where p: "loop_prologue v = v\<lparr>c_timer := tm\<rparr>" using prologue_timer by blast
  have q: "quiet (v\<lparr>c_timer := tm\<rparr>)" using assms(1) by (simp add: quiet_def)
  show ?thesis
  proof (cases sel)
    case (SelWrite fo)
    show ?thesis
    proof (cases fo)
      case None
      with SelWrite p q show ?thesis by (simp add: processLoop_turn_def only_requeues_same ex_bool_eq)
    next
      case (Some f)
      obtain n w where "snd (on_write f (v\<lparr>c_timer := tm\<rparr>)) = v\<lparr>c_timer := False, c_lastMsgId := n, c_writer := w\<rparr>"
        using on_write_view [of f "v\<lparr>c_timer := tm\<rparr>"] by auto
      then obtain b where "on_write f (v\<lparr>c_timer := tm\<rparr>) = (b, v\<lparr>c_timer := False, c_lastMsgId := n, c_writer := w\<rparr>)"
        by (metis prod.collapse)
      with SelWrite Some p q show ?thesis
        by (simp add: processLoop_turn_def only_requeues_same quiet_def)
    qed
  next
    case (SelRead fo)
    show ?thesis
    proof (cases fo)
      case None
      with SelRead p q show ?thesis by (simp add: processLoop_turn_def only_requeues_same ex_bool_eq)
    next
      case (Some f)
      with SelRead assms(2) have "\<not> connect_ok cfg f" by simp
      from quiet_read [OF q this, of quote] SelRead Some p show ?thesis
        by (auto simp: processLoop_turn_def intro: only_requeues_same)
    qed
  next
    case (SelSub so)
    show ?thesis
    proof (cases so)
      case None
      with SelSub p q show ?thesis by (simp add: processLoop_turn_def only_requeues_same ex_bool_eq)
    next
      case (Some s)
      have "only_requeues v (send_request (RequeueOp (sub_frame (v_store v s))) (v\<lparr>c_timer := False\<rparr>))"
        unfolding only_requeues_def send_request_def by (intro exI [of _ "[sub_frame (v_store v s)]"]) simp
      with SelSub Some p q show ?thesis
        by (auto simp: processLoop_turn_def on_sub_unsubscribed quiet_def send_request_def)
    qed
  next
    case SelTimer
    obtain w where "snd (on_timer (v\<lparr>c_timer := tm\<rparr>)) = v\<lparr>c_timer := False, c_writer := w\<rparr>"
      using on_timer_view [of "v\<lparr>c_timer := tm\<rparr>"] by auto
    then obtain b where "on_timer (v\<lparr>c_timer := tm\<rparr>) = (b, v\<lparr>c_timer := False, c_writer := w\<rparr>)"
      by (metis prod.collapse)
    with SelTimer p q show ?thesis by (simp add: processLoop_turn_def only_requeues_same quiet_def)
  qed
qed

text \<open>
  Property C18. Nothing happens without a login: as long as the client has not sent an
  acceptable connect frame, whatever else it sends and whatever the network, the timers and
  the channels do, the loop does not panic, the connection stays unconnected, and no message,
  subscription or announcement reaches the upper layer (stray deliveries are put back).
\<close>

theorem no_requests_before_login:
  assumes "c_state v = Connecting" and "c_subs v = Map.empty"
    and "\<forall>f. SelRead (Some f) \<in> set sels \<longrightarrow> \<not> connect_ok cfg f"
  shows "\<exists>continue v' fos. processLoop quote cfg sels v = Ret (continue, v') \<and> c_state v' = Connecting \<and>
    v_req v' = v_req v @ map RequeueOp fos"
proof -
  have "quiet v \<Longrightarrow> \<forall>f. SelRead (Some f) \<in> set sels \<longrightarrow> \<not> connect_ok cfg f \<Longrightarrow>
      \<exists>b v'. processLoop quote cfg sels v = Ret (b, v') \<and> quiet v' \<and> only_requeues v v'"
  proof (induction sels arbitrary: v)
    case Nil
    then show ?case by (simp add: only_requeues_same ex_bool_eq)
  next
    case (Cons sel sels)
    obtain b v1 where v1: "processLoop_turn quote cfg sel v = Ret (b, v1)" "quiet v1" "only_requeues v v1"
      using quiet_turn [of v sel cfg quote] Cons.prems by auto
    show ?case
    proof (cases b)
      case True
      with Cons.IH [OF v1(2)] Cons.prems(2) v1 show ?thesis by (auto intro: only_requeues_trans)
    next
      case False
      with v1 show ?thesis by (simp add: ex_bool_eq)
    qed
  qed
  with assms show ?thesis by (force simp: quiet_def only_requeues_def)
qed

theorem no_requests_before_login_witness:
  "\<exists>continue v' fos. processLoop id sample_cfg
      [SelTimer, SelRead (Some (mk_frame SEND [(''destination'', ''/queue/a'')])), SelSub (Some 3)] fresh_view =
        Ret (continue, v') \<and> c_state v' = Connecting \<and> v_req v' = map RequeueOp fos"
  using no_requests_before_login [of fresh_view
      "[SelTimer, SelRead (Some (mk_frame SEND [(''destination'', ''/queue/a'')])), SelSub (Some 3)]" sample_cfg id]
  by (simp add: connect_ok_def del: processLoop.simps)

subsection \<open>The invariant of a connection\<close>

text \<open>
  A stored frame is one that can be acted on without the store: a \<open>SEND\<close>, \<open>ACK\<close> or \<open>NACK\<close>
  without transaction and receipt. The map of subscriptions has each subscription under its own
  id, and the list of unacknowledged ones is well-formed.
\<close>

definition tx_plain :: "Frame \<Rightarrow> bool" where
  "tx_plain f \<longleftrightarrow> tx_frame_ok f \<and> Command f \<in> {SEND, ACK, NACK} \<and> Header_Contains (Hdr f) Receipt = None"

definition tx_plain_inv :: "txStore \<Rightarrow> bool" where
  "tx_plain_inv txs \<longleftrightarrow> (\<forall>tx l. tx_lookup txs tx = Some l \<longrightarrow> list_all tx_plain l)"

definition subs_inv :: "View \<Rightarrow> bool" where
  "subs_inv v \<longleftrightarrow>
     (\<forall>i s. c_subs v i = Some s \<longrightarrow>
        s < v_fresh v \<and> sub_id (v_store v s) = i \<and> sub_conn (v_store v s) = c_self v)"

definition unacked_inv :: "View \<Rightarrow> bool" where
  "unacked_inv v \<longleftrightarrow>
     list_inv (ConnList (c_self v)) (c_subList v) (v_store v) \<and> (\<forall>s \<in> set (c_subList v). s < v_fresh v)"

definition conn_inv :: "View \<Rightarrow> bool" where
  "conn_inv v \<longleftrightarrow> tx_plain_inv (c_txStore v) \<and> subs_inv v \<and> unacked_inv v"

lemma tx_plain_tx_inv: "tx_plain_inv txs \<Longrightarrow> tx_inv txs"
  by (fastforce simp: tx_plain_inv_def tx_inv_def tx_plain_def list_all_iff)

lemma tx_plain_inv_same: "tx_lookup txs' = tx_lookup txs \<Longrightarrow> tx_plain_inv txs \<Longrightarrow> tx_plain_inv txs'"
  by (simp add: tx_plain_inv_def)

lemma tx_plain_inv_upd:
  "tx_plain_inv txs \<Longrightarrow> tx_lookup txs' = (tx_lookup txs)(tx := lo) \<Longrightarrow> (\<And>l. lo = Some l \<Longrightarrow> list_all tx_plain l) \<Longrightarrow>
     tx_plain_inv txs'"
  by (auto simp: tx_plain_inv_def split: if_splits)

lemma tx_plain_inv_Begin: "tx_plain_inv txs \<Longrightarrow> tx_plain_inv (snd (tx_Begin tx txs))"
proof -
  assume i: "tx_plain_inv txs"
  obtain err txs' where r: "tx_Begin tx txs = (err, txs')" by fastforce
  from tx_Begin_lookup [OF r] have "tx_plain_inv txs'"
    using i tx_plain_inv_upd [OF i, of txs' tx "Some []"] tx_plain_inv_same [OF _ i, of txs'] by auto
  with r show ?thesis by simp
qed

lemma tx_plain_inv_Abort: "tx_plain_inv txs \<Longrightarrow> tx_plain_inv (snd (tx_Abort tx txs))"
proof -
  assume i: "tx_plain_inv txs"
  obtain err txs' where r: "tx_Abort tx txs = (err, txs')" by fastforce
  from tx_Abort_lookup [OF r] have "tx_plain_inv txs'"
    using i tx_plain_inv_upd [OF i, of txs' tx None] by auto
  with r show ?thesis by simp
qed

lemma tx_plain_inv_Add:
  assumes "tx_plain_inv txs" and "header_ok (Hdr f)" and "Command f \<in> {SEND, ACK, NACK}"
    and "Header_Contains (Hdr f) Receipt = None"
  shows "tx_plain_inv (snd (tx_Add tx f txs))"
proof -
  obtain err txs' where r: "tx_Add tx f txs = (err, txs')" by fastforce
  have f: "tx_plain (f\<lparr>Hdr := Header_Del (Hdr f) Transaction\<rparr>)"
    using assms(2-4) by (auto simp: tx_plain_def tx_frame_ok_def hm.lookup_del)
  from tx_Add_lookup [OF r] show ?thesis
  proof (elim disjE exE conjE)
    fix l assume "tx_lookup txs tx = Some l"
      "tx_lookup txs' = (tx_lookup txs)(tx \<mapsto> l @ [f\<lparr>Hdr := Header_Del (Hdr f) Transaction\<rparr>])"
    with assms(1) f r show ?thesis by (auto simp: tx_plain_inv_def split: if_splits)
  next
    assume "txs' = txs"
    with assms(1) r show ?thesis by simp
  qed
qed

text \<open>Acknowledging changes nothing of a subscription but its frame.\<close>

definition same_but_frame :: "sub_store \<Rightarrow> sub_store \<Rightarrow> bool" where
  "same_but_frame st st' \<longleftrightarrow> (\<forall>s. \<exists>x. st' s = (st s)\<lparr>sub_frame := x\<rparr>)"

lemma same_but_frame_refl: "same_but_frame st st"
  unfolding same_but_frame_def by (metis Subscription.surjective Subscription.update_convs(7))

lemma same_but_frame_upd: "same_but_frame st (st(s := (st s)\<lparr>sub_frame := x\<rparr>))"
  using same_but_frame_refl [of st] by (auto simp: same_but_frame_def)

lemma same_but_frame_trans: "same_but_frame a b \<Longrightarrow> same_but_frame b c \<Longrightarrow> same_but_frame a c"
  unfolding same_but_frame_def by (metis Subscription.update_convs(7) Subscription.surjective)

lemma same_but_frame_sel:
  "same_but_frame st st' \<Longrightarrow> sub_subList (st' s) = sub_subList (st s) \<and> sub_id (st' s) = sub_id (st s) \<and>
     sub_conn (st' s) = sub_conn (st s) \<and> sub_dest (st' s) = sub_dest (st s) \<and> sub_ack (st' s) = sub_ack (st s) \<and>
     sub_msgId (st' s) = sub_msgId (st s)"
  unfolding same_but_frame_def by (erule allE [of _ s]) auto

lemma SL_Ack_keeps:
  assumes "\<And>s w. same_but_frame (fst w) (fst (callback s w))"
  shows "SL_Ack m callback l w = Ret (l', w') \<Longrightarrow>
    same_but_frame (fst w) (fst w') \<and> set l' \<subseteq> set l \<and> (distinct l \<longrightarrow> distinct l')"
proof (induction l arbitrary: w l' w')
  case Nil
  then show ?case by (simp add: same_but_frame_refl)
next
  case (Cons e l)
  from Cons.prems consider
      "IsAckedBy (fst w e) m = Ret True" "SL_Ack m callback l (callback e w) = Ret (l', w')"
    | r where "IsAckedBy (fst w e) m = Ret False" "SL_Ack m callback l w = Ret (r, w')" "l' = e # r"
    by (auto split: go.splits if_splits prod.splits)
  then show ?case
  proof cases
    case 1
    from Cons.IH [OF 1(2)] assms [of w e] show ?thesis by (auto intro: same_but_frame_trans)
  next
    case 2
    from Cons.IH [OF 2(2)] 2(3) show ?thesis by auto
  qed
qed

lemma SL_Nack_keeps:
  assumes "\<And>s w. same_but_frame (fst w) (fst (callback s w))"
  shows "SL_Nack m callback l w = (l', w') \<Longrightarrow>
    same_but_frame (fst w) (fst w') \<and> set l' \<subseteq> set l \<and> (distinct l \<longrightarrow> distinct l')"
proof (induction l arbitrary: w l' w')
  case Nil
  then show ?case by (simp add: same_but_frame_refl)
next
  case (Cons e l)
  show ?case
  proof (cases "IsNackedBy (fst w e) m")
    case True
    with Cons.prems have "SL_Nack m callback l (callback e w) = (l', w')" by simp
    from Cons.IH [OF this] assms [of w e] show ?thesis by (auto intro: same_but_frame_trans)
  next
    case False
    with Cons.prems obtain r where "SL_Nack m callback l w = (r, w')" "l' = e # r"
      by (auto split: prod.splits)
    with Cons.IH [OF this(1)] show ?thesis by auto
  qed
qed

lemma closures_keep:
  "same_but_frame (fst w) (fst (ack_closure s w))" "same_but_frame (fst w) (fst (nack_closure s w))"
  by (simp_all add: ack_closure_def nack_closure_def same_but_frame_upd)

lemma conn_inv_upds [simp]:
  "conn_inv (v\<lparr>c_writer := w\<rparr>) = conn_inv v" "conn_inv (v\<lparr>c_timer := b\<rparr>) = conn_inv v"
  "conn_inv (v\<lparr>c_lastMsgId := n\<rparr>) = conn_inv v" "conn_inv (v\<lparr>v_req := rs\<rparr>) = conn_inv v"
  "conn_inv (v\<lparr>c_state := x\<rparr>) = conn_inv v" "conn_inv (v\<lparr>c_version := ver\<rparr>) = conn_inv v"
  "conn_inv (v\<lparr>c_validator := vd\<rparr>) = conn_inv v" "conn_inv (v\<lparr>c_writeTimeout := d\<rparr>) = conn_inv v"
  "conn_inv (send_request r v) = conn_inv v"
  by (simp_all add: conn_inv_def subs_inv_def unacked_inv_def send_request_def)

lemma conn_inv_put: "conn_inv v \<Longrightarrow> tx_plain_inv txs \<Longrightarrow> conn_inv (put_tx txs v)"
  by (simp add: conn_inv_def subs_inv_def unacked_inv_def)

lemma conn_inv_acked:
  assumes "conn_inv v" and "same_but_frame (v_store v) st" and "set l \<subseteq> set (c_subList v)" and "distinct l"
  shows "conn_inv (v\<lparr>c_subList := l, v_store := st, v_req := rs\<rparr>)"
  using assms same_but_frame_sel [OF assms(2)]
  by (auto simp: conn_inv_def subs_inv_def unacked_inv_def list_inv_def)

lemma receipt_inv:
  assumes "conn_inv v" and "header_ok (Hdr f)" and "sendReceiptImmediately f v = (err, f', v')"
  shows "conn_inv v'" "header_ok (Hdr f')" "Header_Contains (Hdr f') Receipt = None" "Command f' = Command f"
  using sendReceipt_frame [OF assms(3)] sendReceipt_Contains [OF assms(3,2)] assms(1) by auto

lemma store_in_tx_inv:
  assumes "conn_inv v" and "header_ok (Hdr f)" and "Command f \<in> {SEND, ACK, NACK}"
    and "Header_Contains (Hdr f) Receipt = None" and "store_in_tx tx f v = (err, f', v')"
  shows "conn_inv v'"
proof -
  have "tx_plain_inv (snd (tx_Add tx f (c_txStore v)))"
    using assms(1-4) by (intro tx_plain_inv_Add) (simp_all add: conn_inv_def)
  moreover have "v' = put_tx (snd (tx_Add tx f (c_txStore v))) v"
    using assms(5) by (auto simp: store_in_tx_def split: prod.splits option.splits)
  ultimately show ?thesis using assms(1) by (simp add: conn_inv_put)
qed

lemma handleSend_inv:
  assumes "conn_inv v" and "header_ok (Hdr f)" and "Command f = SEND" and "handleSend f v = (err, f', v')"
  shows "conn_inv v'"
proof -
  obtain e g u where r: "sendReceiptImmediately f v = (e, g, u)" using prod_cases3 by blast
  note i = receipt_inv [OF assms(1,2) r]
  show ?thesis
    using assms(3,4) r i store_in_tx_inv [OF i(1,2) _ i(3)]
    by (auto simp: handleSend_def Let_def split: option.splits)
qed

lemma handleAck_inv:
  assumes "conn_inv v" and "header_ok (Hdr f)" and "Command f = ACK" and "handleAck f v = Ret (err, f', v')"
  shows "conn_inv v'"
proof -
  obtain e g u where r: "sendReceiptImmediately f v = (e, g, u)" using prod_cases3 by blast
  note i = receipt_inv [OF assms(1,2) r]
  have "conn_inv (u\<lparr>c_subList := l', v_store := st', v_req := rs'\<rparr>)"
    if "SL_Ack m ack_closure (c_subList u) (v_store u, v_req u) = Ret (l', st', rs')" for m l' st' rs'
    using SL_Ack_keeps [OF closures_keep(1) that] i(1) by (intro conn_inv_acked) (auto simp: conn_inv_def unacked_inv_def list_inv_def)
  then show ?thesis
    using assms(1,3,4) r i store_in_tx_inv [OF i(1,2) _ i(3)]
    by (auto simp: handleAck_def go_bind_eq_Ret split: option.splits sum.splits prod.splits)
qed

lemma handleNack_inv:
  assumes "conn_inv v" and "header_ok (Hdr f)" and "Command f = NACK" and "handleNack f v = (err, f', v')"
  shows "conn_inv v'"
proof -
  obtain e g u where r: "sendReceiptImmediately f v = (e, g, u)" using prod_cases3 by blast
  note i = receipt_inv [OF assms(1,2) r]
  have "conn_inv (u\<lparr>c_subList := l', v_store := st', v_req := rs'\<rparr>)"
    if "SL_Nack m nack_closure (c_subList u) (v_store u, v_req u) = (l', st', rs')" for m l' st' rs'
    using SL_Nack_keeps [OF closures_keep(2) that] i(1) by (intro conn_inv_acked) (auto simp: conn_inv_def unacked_inv_def list_inv_def)
  then show ?thesis
    using assms(1,3,4) r i store_in_tx_inv [OF i(1,2) _ i(3)]
    by (auto simp: handleNack_def split: option.splits sum.splits prod.splits)
qed

lemma handleBegin_inv:
  assumes "conn_inv v" and "header_ok (Hdr f)" and "handleBegin f v = (err, f', v')"
  shows "conn_inv v'"
proof -
  obtain e g u where r: "sendReceiptImmediately f v = (e, g, u)" using prod_cases3 by blast
  note i = receipt_inv [OF assms(1,2) r]
  have "conn_inv (put_tx (snd (tx_Begin tx (c_txStore u))) u)" for tx
    using i(1) by (intro conn_inv_put tx_plain_inv_Begin) (simp_all add: conn_inv_def)
  then show ?thesis
    using assms(1,3) r i by (auto simp: handleBegin_def split: option.splits prod.splits) (metis snd_conv)
qed

lemma handleAbort_inv:
  assumes "conn_inv v" and "header_ok (Hdr f)" and "handleAbort f v = (err, f', v')"
  shows "conn_inv v'"
proof -
  obtain e g u where r: "sendReceiptImmediately f v = (e, g, u)" using prod_cases3 by blast
  note i = receipt_inv [OF assms(1,2) r]
  have "conn_inv (put_tx (snd (tx_Abort tx (c_txStore u))) u)" for tx
    using i(1) by (intro conn_inv_put tx_plain_inv_Abort) (simp_all add: conn_inv_def)
  then show ?thesis
    using assms(1,3) r i by (auto simp: handleAbort_def split: option.splits prod.splits) (metis snd_conv)
qed

lemma handleSubscribe_inv:
  assumes "conn_inv v" and "handleSubscribe f v = (err, f', v')"
  shows "conn_inv v'"
proof -
  have "conn_inv (v\<lparr>v_fresh := Suc (v_fresh v),
      v_store := (v_store v)(v_fresh v := newSubscription (c_self v) dest i ack), c_subs := (c_subs v)(i \<mapsto> v_fresh v)\<rparr>)"
    for dest i ack
    using assms(1)
    by (fastforce simp: conn_inv_def subs_inv_def unacked_inv_def list_inv_def newSubscription_def less_Suc_eq)
  with assms show ?thesis
    by (auto simp: handleSubscribe_def Let_def split: option.splits if_splits)
qed

lemma handleUnsubscribe_inv:
  assumes "conn_inv v" and "handleUnsubscribe f v = (err, f', v')"
  shows "conn_inv v'"
proof -
  have "conn_inv (v\<lparr>c_subs := (c_subs v)(i := None)\<rparr>)" for i
    using assms(1) by (auto simp: conn_inv_def subs_inv_def unacked_inv_def)
  with assms show ?thesis by (auto simp: handleUnsubscribe_def split: option.splits)
qed

lemma plain_step:
  assumes "tx_plain f" and "c_state v = Connected" and "conn_inv v"
    and "commit_func (run_state (Suc 0) cfg) f v = Ret (err, v')"
  shows "conn_inv v' \<and> c_state v' = Connected \<and> c_writer v' = c_writer v"
proof -
  from assms(1) have f: "header_ok (Hdr f)" "Header_Contains (Hdr f) Receipt = None"
    "Header_Contains (Hdr f) Transaction = None" "Command f \<in> {SEND, ACK, NACK}"
    by (simp_all add: tx_plain_def tx_frame_ok_def)
  have r: "sendReceiptImmediately f v = (None, f, v)" using f(2) by (simp add: sendReceiptImmediately_def)
  from assms(4) obtain f' where step: "connected (run_state 0 cfg) f v = Ret (err, f', v')"
    using assms(2) by (auto simp: commit_func_def go_bind_eq_Ret)
  consider "Command f = SEND" | "Command f = ACK" | "Command f = NACK" using f(4) by blast
  then show ?thesis
  proof cases
    case 1
    with step have "handleSend f v = (err, f', v')" by (simp add: connected_def)
    with handleSend_inv [OF assms(3) f(1) 1] r f(3) assms(2) show ?thesis
      by (auto simp: handleSend_def Let_def send_request_def)
  next
    case 2
    with step have "handleAck f v = Ret (err, f', v')" by (simp add: connected_def)
    with handleAck_inv [OF assms(3) f(1) 2] r f(3) assms(2) show ?thesis
      by (auto simp: handleAck_def go_bind_eq_Ret split: sum.splits)
  next
    case 3
    with step have "handleNack f v = (err, f', v')" by (simp add: connected_def)
    with handleNack_inv [OF assms(3) f(1) 3] r f(3) assms(2) show ?thesis
      by (auto simp: handleNack_def split: sum.splits prod.splits)
  qed
qed

lemma run_frames_plain:
  "list_all tx_plain l \<Longrightarrow> c_state v = Connected \<Longrightarrow> conn_inv v \<Longrightarrow>
   run_frames (commit_func (run_state (Suc 0) cfg)) l v = Ret (err, rest, v') \<Longrightarrow>
     conn_inv v' \<and> c_state v' = Connected \<and> c_writer v' = c_writer v \<and> list_all tx_plain rest"
proof (induction l arbitrary: v)
  case Nil
  then show ?case by simp
next
  case (Cons f l)
  obtain e u where s: "commit_func (run_state (Suc 0) cfg) f v = Ret (e, u)"
    using Cons.prems(4) by (auto simp del: run_state.simps split: go.splits)
  with plain_step [of f v cfg e u] Cons.prems have u: "conn_inv u" "c_state u = Connected" "c_writer u = c_writer v"
    by (simp_all del: run_state.simps)
  show ?case
  proof (cases e)
    case None
    with s Cons.prems(4) have "run_frames (commit_func (run_state (Suc 0) cfg)) l u = Ret (err, rest, v')"
      by (simp del: run_state.simps)
    from Cons.IH [OF _ u(2,1) this] Cons.prems(1) u(3) show ?thesis by simp
  next
    case (Some x)
    with s Cons.prems u show ?thesis by (auto simp del: run_state.simps)
  qed
qed

lemma tx_Commit_plain:
  assumes "c_state v = Connected" and "conn_inv v"
    and "tx_Commit c_txStore put_tx tx (commit_func (run_state (Suc 0) cfg)) v = Ret (err, v')"
  shows "conn_inv v' \<and> c_state v' = Connected \<and> c_writer v' = c_writer v"
proof (cases "tx_lookup (c_txStore v) tx")
  case None
  with assms show ?thesis by (simp add: tx_Commit_def)
next
  case (Some l)
  from assms(2) have tx: "tx_plain_inv (c_txStore v)" by (simp add: conn_inv_def)
  with Some have l: "list_all tx_plain l" by (simp add: tx_plain_inv_def)
  from assms(3) conn_tx.commit_run [OF tx_plain_tx_inv [OF tx] Some, of 0 cfg]
  obtain e rest u where run: "run_frames (commit_func (run_state (Suc 0) cfg)) l v = Ret (e, rest, u)"
    and v': "v' = put_tx (tx_assign tx (case e of None \<Rightarrow> None | Some x \<Rightarrow> Some rest) (c_txStore v)) u"
    by (auto simp del: run_state.simps split: go.splits prod.splits option.splits)
  note p = run_frames_plain [OF l assms(1,2) run]
  have "tx_lookup (tx_assign tx lo (c_txStore v)) = (tx_lookup (c_txStore v))(tx := lo)" for lo
    using Some by simp
  then have "tx_plain_inv (tx_assign tx (case e of None \<Rightarrow> None | Some x \<Rightarrow> Some rest) (c_txStore v))"
    using p tx by (auto intro: tx_plain_inv_upd split: option.splits)
  with p v' show ?thesis by (simp add: conn_inv_put) (simp add: put_tx_def)
qed

lemma handleCommit_inv:
  assumes "c_state v = Connected" and "conn_inv v" and "header_ok (Hdr f)"
    and "handleCommit (run_state (Suc 0) cfg) f v = Ret (err, f', v')"
  shows "conn_inv v'"
proof -
  obtain e g u where r: "sendReceiptImmediately f v = (e, g, u)" using prod_cases3 by blast
  note i = receipt_inv [OF assms(2,3) r]
  have st: "c_state u = Connected" using sendReceipt_frame [OF r] assms(1) by auto
  show ?thesis
    using assms(2,4) r i(1) tx_Commit_plain [OF st i(1)]
    by (auto simp: handleCommit_def go_bind_eq_Ret simp del: run_state.simps split: option.splits)
qed

lemma connected_inv:
  assumes "c_state v = Connected" and "conn_inv v" and "header_ok (Hdr f)"
    and "connected (run_state (Suc 0) cfg) f v = Ret (err, f', v')"
  shows "conn_inv v'"
proof -
  have "conn_inv v'" if "handleDisconnect f v = (err, f', v')"
    using that receipt_inv(1) [OF assms(2,3)] by (auto simp: handleDisconnect_def split: prod.splits)
  then show ?thesis
    using assms(2,4) handleCommit_inv [OF assms(1-3), of cfg err f' v'] handleSend_inv [OF assms(2,3), of err f' v']
      handleAck_inv [OF assms(2,3), of err f' v'] handleNack_inv [OF assms(2,3), of err f' v']
      handleBegin_inv [OF assms(2,3), of err f' v'] handleAbort_inv [OF assms(2,3), of err f' v']
      handleSubscribe_inv [OF assms(2), of f err f' v'] handleUnsubscribe_inv [OF assms(2), of f err f' v']
    unfolding connected_def by (simp del: run_state.simps split: if_splits)
qed

lemma stateFunc_inv:
  assumes "conn_inv v" and "header_ok (Hdr f)" and "stateFunc cfg f v = Ret (err, f', v')"
  shows "conn_inv v'"
proof (cases "c_state v")
  case Connected
  from assms(3) have "connected (run_state (Suc 0) cfg) f v = Ret (err, f', v')"
    by (simp only: stateFunc_connected [OF Connected])
  with connected_inv [OF Connected assms(1,2)] show ?thesis by blast
next
  case Connecting
  then have c: "connecting cfg f v = (err, f', v')" using assms(3) by (simp add: connecting_state)
  show ?thesis
  proof (cases "connect_ok cfg f")
    case True
    obtain w where "connecting cfg f v =
      (None, f, v\<lparr>c_version := fst (determineVersion f), c_validator := Some validatorNull,
         c_writeTimeout := negotiated cfg (fst (snd (getHeartBeat f))) * Millisecond, c_writer := w,
         c_state := Connected, v_req := v_req v @ [ConnectedOp (c_self v)]\<rparr>)"
      using connecting_accepts [OF True, of v] by blast
    with c assms(1) show ?thesis by auto
  next
    case False
    obtain e ver vd where "connecting cfg f v = (Some e, f, v\<lparr>c_version := ver, c_validator := vd\<rparr>)"
      using connecting_rejects [OF False, of v] by blast
    with c assms(1) show ?thesis by auto
  qed
qed

lemma sendError_inv: "conn_inv (sendErrorImmediately quote e fo v) = conn_inv v"
proof -
  obtain fo' where "sendErrorImmediately quote e fo v = snd (sendImmediately fo' v)"
    by (simp add: sendErrorImmediately_def Let_def)
  moreover obtain w where "snd (sendImmediately fo' v) = v\<lparr>c_writer := w\<rparr>"
    using sendImmediately_frame [of fo' v] by (metis prod.collapse)
  ultimately show ?thesis by simp
qed

lemma on_read_inv:
  assumes "conn_inv v" and "header_ok (Hdr f)" and "on_read quote cfg f v = Ret (b, v')"
  shows "conn_inv v'"
proof -
  obtain err f' u where s: "stateFunc cfg f v = Ret (err, f', u)"
    using assms(3) by (auto simp: on_read_state go_bind_eq_Ret)
  have "conn_inv u" by (rule stateFunc_inv [OF assms(1,2) s])
  with assms(3) s show ?thesis
    by (cases err) (auto simp: on_read_state sendError_inv)
qed

lemma conn_inv_store:
  "conn_inv v \<Longrightarrow> same_but_frame (v_store v) st \<Longrightarrow> conn_inv (v\<lparr>v_store := st\<rparr>)"
  using conn_inv_acked [of v st "c_subList v" "v_req v"]
  by (simp add: conn_inv_def unacked_inv_def list_inv_def subs_inv_def)

lemma conn_inv_add:
  assumes "conn_inv v" and "s < v_fresh v"
    and "SL_Add (ConnList (c_self v)) s (c_subList v) (v_store v) = Ret (sl, st)"
  shows "conn_inv (v\<lparr>c_subList := sl, v_store := st\<rparr>)"
  using assms SL_Add_inv [OF assms(3)]
  by (auto simp: conn_inv_def unacked_inv_def subs_inv_def SL_Add_def split: if_splits)

lemma on_sub_inv:
  assumes "conn_inv v" and "s < v_fresh v" and "on_sub s v = Ret (b, v')"
  shows "conn_inv v'"
proof (cases "c_subs v (sub_id (v_store v s))")
  case None
  with assms show ?thesis by (auto simp: on_sub_def)
next
  case (Some x)
  with assms(3) obtain f where f: "sub_frame (v_store v s) = Some f"
    by (auto simp: on_sub_def Let_def split: option.splits)
  let ?sub = "v_store v s"
  obtain f' v1 where a: "allocateMessageId f (Some ?sub) (v\<lparr>c_timer := False\<rparr>) = (f', v1)" by fastforce
  obtain n where v1: "v1 = v\<lparr>c_timer := False, c_lastMsgId := n\<rparr>"
    using allocateMessageId_view [of f "Some ?sub" "v\<lparr>c_timer := False\<rparr>"] a by auto
  let ?v2 = "v1\<lparr>v_store := (v_store v1)(s := ?sub\<lparr>sub_frame := Some f'\<rparr>)\<rparr>"
  obtain err v3 where w: "sendImmediately (Some f') ?v2 = (err, v3)" by fastforce
  obtain wr where v3: "v3 = ?v2\<lparr>c_writer := wr\<rparr>" using sendImmediately_frame [OF w] by blast
  have i2: "conn_inv ?v2" unfolding v1
    by (rule conn_inv_store) (use assms(1) in \<open>simp_all add: same_but_frame_upd\<close>)
  then have i3: "conn_inv v3" by (simp add: v3)
  have st: "(v_store v3)(s := ?sub\<lparr>sub_frame := None\<rparr>) = (v_store v3)(s := (v_store v3 s)\<lparr>sub_frame := None\<rparr>)"
    by (simp add: v3 v1)
  have none: "conn_inv (v3\<lparr>v_store := (v_store v3)(s := ?sub\<lparr>sub_frame := None\<rparr>)\<rparr>)"
    unfolding st by (intro conn_inv_store i3 same_but_frame_upd)
  have fresh: "s < v_fresh v3" using assms(2) by (simp add: v3 v1)
  show ?thesis
    using assms(3) Some f a w i3 none conn_inv_add [OF i3 fresh]
    by (auto simp: on_sub_def go_bind_eq_Ret Let_def split: if_splits prod.splits)
qed

text \<open>
  What the loop may receive: frames come from the reader, which builds their headers with the
  methods of \<open>Header\<close>; a subscription on the channel is one that exists.
\<close>

definition receive_ok :: "select_case \<Rightarrow> View \<Rightarrow> bool" where
  "receive_ok sel v \<longleftrightarrow>
     (case sel of
        SelRead (Some f) \<Rightarrow> header_ok (Hdr f)
      | SelSub (Some s) \<Rightarrow> s < v_fresh v
      | _ \<Rightarrow> True)"

lemma turn_inv:
  assumes "conn_inv v" and "receive_ok sel v" and "processLoop_turn quote cfg sel v = Ret (b, v')"
  shows "conn_inv v'"
proof -
  obtain tm where p: "loop_prologue v = v\<lparr>c_timer := tm\<rparr>" using prologue_timer by blast
  let ?v = "v\<lparr>c_timer := tm\<rparr>"
  have i: "conn_inv ?v" using assms(1) by simp
  have w: "conn_inv (snd (on_write f ?v))" for f using on_write_view [of f ?v] i by auto
  have t: "conn_inv (snd (on_timer ?v))" using on_timer_view [of ?v] i by auto
  consider "sel \<in> {SelWrite None, SelRead None, SelSub None}" | f where "sel = SelWrite (Some f)"
    | f where "sel = SelRead (Some f)" | s where "sel = SelSub (Some s)" | "sel = SelTimer"
    by (metis insertCI option.exhaust select_case.exhaust)
  then show ?thesis
  proof cases
    case 1
    then have "v' = loop_prologue v" using assms(3) by (auto simp: processLoop_turn_def)
    with p i show ?thesis by simp
  next
    case 2
    with assms(3) p have "on_write f ?v = (b, v')" by (simp add: processLoop_turn_def)
    with w [of f] show ?thesis by simp
  next
    case 3
    with assms(3) p have "on_read quote cfg f ?v = Ret (b, v')" by (simp add: processLoop_turn_def)
    with on_read_inv [OF i] assms(2) 3 show ?thesis by (simp add: receive_ok_def)
  next
    case 4
    with assms(3) p have "on_sub s ?v = Ret (b, v')" by (simp add: processLoop_turn_def)
    with on_sub_inv [OF i] assms(2) 4 show ?thesis by (simp add: receive_ok_def)
  next
    case 5
    with assms(3) p have "on_timer ?v = (b, v')" by (simp add: processLoop_turn_def)
    with t show ?thesis by simp
  qed
qed

text \<open>
  Property C14. The invariant of a connection is kept by every turn of the processing loop,
  whatever it receives and whether or not the network fails: the frames stored for transactions
  are \<open>SEND\<close>, \<open>ACK\<close> and \<open>NACK\<close> frames without transaction and receipt entries, every
  subscription of the client is registered under its own id, and the subscriptions that wait for
  an acknowledgement are pairwise different and marked as belonging to this connection.
\<close>

theorem connection_invariant:
  assumes "conn_inv v" and "receive_ok sel v" and "processLoop_turn quote cfg sel v = Ret (continue, v')"
  shows "tx_plain_inv (c_txStore v') \<and> subs_inv v' \<and> unacked_inv v'"
  using turn_inv [OF assms] by (simp add: conn_inv_def)

lemma connected_view_inv: "conn_inv connected_view"
  by (simp add: conn_inv_def tx_plain_inv_def subs_inv_def unacked_inv_def list_inv_def)

theorem connection_invariant_witness:
  "\<exists>continue v'. processLoop_turn id sample_cfg
      (SelRead (Some (mk_frame SUBSCRIBE [(''id'', ''1''), (''destination'', ''/queue/a'')]))) connected_view =
        Ret (continue, v') \<and> subs_inv v'"
proof -
  let ?f = "mk_frame SUBSCRIBE [(''id'', ''1''), (''destination'', ''/queue/a'')]"
  have "\<exists>v'. processLoop_turn id sample_cfg (SelRead (Some ?f)) connected_view = Ret (True, v') \<and> True"
    by (rule turn_read) (simp add: stateFunc_connected connected_def handleSubscribe_def Let_def)
  then obtain v' where v': "processLoop_turn id sample_cfg (SelRead (Some ?f)) connected_view = Ret (True, v')" by blast
  have "receive_ok (SelRead (Some ?f)) connected_view" by (simp add: receive_ok_def)
  from connection_invariant [OF connected_view_inv this v'] v' show ?thesis by blast
qed

subsection \<open>Receipts\<close>

definition sends_receipt :: "Frame \<Rightarrow> bool" where
  "sends_receipt f \<longleftrightarrow>
     Command f \<in> {DISCONNECT, SEND} \<or>
     Command f \<in> {BEGIN, COMMIT, ABORT} \<and> Header_Contains (Hdr f) Transaction \<noteq> None \<or>
     Command f \<in> {ACK, NACK} \<and> \<not> isl (ack_message_id f)"

definition wire :: "View \<Rightarrow> bytes" where
  "wire v = w_out (c_writer v)"

lemma wire_upds [simp]:
  "wire (put_tx txs v) = wire v" "wire (send_request r v) = wire v"
  "wire (v\<lparr>c_subList := sl, v_store := st, v_req := rs\<rparr>) = wire v" "wire (v\<lparr>c_writer := w\<rparr>) = w_out w"
  by (simp_all add: wire_def put_tx_def send_request_def)

lemma store_in_tx_wire: "store_in_tx tx f v = (err, f', v') \<Longrightarrow> wire v' = wire v"
  by (auto simp: store_in_tx_def split: prod.splits option.splits)

lemma handlers_wire:
  assumes r: "sendReceiptImmediately f v = (None, g, u)"
  shows "handleDisconnect f v = (err, f', v') \<Longrightarrow> wire v' = wire u"
    "Header_Contains (Hdr f) Transaction \<noteq> None \<Longrightarrow> handleBegin f v = (err, f', v') \<Longrightarrow> wire v' = wire u"
    "Header_Contains (Hdr f) Transaction \<noteq> None \<Longrightarrow> handleAbort f v = (err, f', v') \<Longrightarrow> wire v' = wire u"
    "handleSend f v = (err, f', v') \<Longrightarrow> wire v' = wire u"
    "ack_message_id f = Inr m \<Longrightarrow> handleAck f v = Ret (err, f', v') \<Longrightarrow> wire v' = wire u"
    "ack_message_id f = Inr m \<Longrightarrow> handleNack f v = (err, f', v') \<Longrightarrow> wire v' = wire u"
  using r
  by (auto simp: handleDisconnect_def handleBegin_def handleAbort_def handleSend_def handleAck_def handleNack_def
      go_bind_eq_Ret Let_def split: option.splits prod.splits dest: store_in_tx_wire)

lemma handleCommit_wire:
  assumes "c_state v = Connected" and "conn_inv v" and "header_ok (Hdr f)"
    and "sendReceiptImmediately f v = (None, g, u)" and "Header_Contains (Hdr f) Transaction \<noteq> None"
    and "handleCommit (run_state (Suc 0) cfg) f v = Ret (err, f', v')"
  shows "wire v' = wire u"
proof -
  have "c_state u = Connected" "conn_inv u"
    using sendReceipt_frame [OF assms(4)] receipt_inv(1) [OF assms(2-4)] assms(1) by auto
  moreover obtain tx where "tx_Commit c_txStore put_tx tx (commit_func (run_state (Suc 0) cfg)) u = Ret (err, v')"
    using assms(4-6) by (auto simp: handleCommit_def go_bind_eq_Ret simp del: run_state.simps)
  ultimately show ?thesis using tx_Commit_plain by (metis wire_def)
qed

lemma no_receipt_wire:
  assumes "c_state v = Connected" and "\<not> sends_receipt f" and "connected g f v = Ret (err, f', v')"
  shows "wire v' = wire v"
  using assms(2,3)
  by (auto simp: connected_def sends_receipt_def handleBegin_def handleAbort_def handleCommit_def handleSubscribe_def
      handleUnsubscribe_def handleAck_def handleNack_def wire_def send_request_def Let_def
      split: if_splits option.splits sum.splits)

lemma receipt_wire:
  assumes "c_state v = Connected" and "ready (c_writer v)" and "conn_inv v" and "header_ok (Hdr f)"
    and "sends_receipt f" and step: "connected (run_state (Suc 0) cfg) f v = Ret (err, f', v')"
  shows "wire v' = wire v @ receipt_bytes f"
proof -
  obtain w where r: "sendReceiptImmediately f v = (None, no_receipt f, v\<lparr>c_writer := w\<rparr>)"
    and w: "w_out w = w_out (c_writer v) @ receipt_bytes f"
    using sendReceipt_ready [OF assms(2,4)] by blast
  note h = handlers_wire [OF r] handleCommit_wire [OF assms(1,3,4) r]
  consider "Command f = DISCONNECT" | "Command f = SEND"
    | "Command f = BEGIN" "Header_Contains (Hdr f) Transaction \<noteq> None"
    | "Command f = ABORT" "Header_Contains (Hdr f) Transaction \<noteq> None"
    | "Command f = COMMIT" "Header_Contains (Hdr f) Transaction \<noteq> None"
    | m where "Command f = ACK" "ack_message_id f = Inr m"
    | m where "Command f = NACK" "ack_message_id f = Inr m"
    using assms(5) unfolding sends_receipt_def by (metis insertE singletonD sum.collapse(2))
  then have "wire v' = wire (v\<lparr>c_writer := w\<rparr>)"
  proof cases
    case 1 with step h(1) show ?thesis by (simp add: connected_def)
  next
    case 2 with step h(4) show ?thesis by (simp add: connected_def)
  next
    case 3 with step h(2) show ?thesis by (simp add: connected_def)
  next
    case 4 with step h(3) show ?thesis by (simp add: connected_def)
  next
    case 5
    with step have "handleCommit (run_state (Suc 0) cfg) f v = Ret (err, f', v')"
      by (simp add: connected_def del: run_state.simps)
    with h(7) 5(2) show ?thesis by blast
  next
    case 6 with step h(5) show ?thesis by (simp add: connected_def)
  next
    case 7 with step h(6) show ?thesis by (simp add: connected_def)
  qed
  with w show ?thesis by (simp add: wire_def)
qed

text \<open>
  Property C21. Receipts: on a connection that can be written to, handling a frame writes
  exactly one \<open>RECEIPT\<close> with the id the client asked for, and nothing else, when the frame is a
  \<open>DISCONNECT\<close> or \<open>SEND\<close>, a \<open>BEGIN\<close>, \<open>COMMIT\<close> or \<open>ABORT\<close> with a transaction, or an \<open>ACK\<close> or
  \<open>NACK\<close> with a readable message id (the frames of a committed transaction are not confirmed a
  second time); every other frame, \<open>SUBSCRIBE\<close> and \<open>UNSUBSCRIBE\<close> among them, writes nothing.
\<close>

theorem receipts:
  assumes "c_state v = Connected" and "ready (c_writer v)" and "conn_inv v" and "header_ok (Hdr f)"
    and "stateFunc cfg f v = Ret (err, f', v')"
  shows "wire v' = wire v @ (if sends_receipt f then receipt_bytes f else [])"
proof -
  have step: "connected (run_state (Suc 0) cfg) f v = Ret (err, f', v')"
    using assms(5) by (simp only: stateFunc_connected [OF assms(1)])
  show ?thesis
    using receipt_wire [OF assms(1-4) _ step] no_receipt_wire [OF assms(1) _ step] by simp
qed

theorem receipts_witness:
  "\<exists>err f' v'. stateFunc sample_cfg (mk_frame DISCONNECT [(''receipt'', ''r1'')]) connected_view = Ret (err, f', v') \<and>
     wire v' = frame_bytes (Some (mk_frame RECEIPT [(''receipt-id'', ''r1'')]))"
proof -
  let ?f = "mk_frame DISCONNECT [(''receipt'', ''r1'')]"
  obtain err f' v' where s: "stateFunc sample_cfg ?f connected_view = Ret (err, f', v')"
    by (simp add: stateFunc_connected connected_def) (metis prod_cases3)
  from receipts [OF _ _ connected_view_inv _ s] show ?thesis
    using s by (simp add: sends_receipt_def receipt_bytes_def wire_def)
qed

subsection \<open>Acknowledgements\<close>

definition released :: "sub_store \<Rightarrow> sub_ref set \<Rightarrow> sub_store" where
  "released st S = (\<lambda>s. if s \<in> S then (st s)\<lparr>sub_frame := None\<rparr> else st s)"

lemma handleAck_effect:
  assumes "ready (c_writer v)" and "header_ok (Hdr f)" and "Header_Contains (Hdr f) Transaction = None"
    and "ack_message_id f = Inr m" and "list_all (\<lambda>s. valid_ack (sub_ack (v_store v s))) (c_subList v)"
  obtains w where "handleAck f v = Ret (None, no_receipt f,
      v\<lparr>c_writer := w, c_subList := filter (\<lambda>s. \<not> acked m (v_store v s)) (c_subList v),
        v_store := released (v_store v) {s \<in> set (c_subList v). acked m (v_store v s)},
        v_req := v_req v @ map SubscribeOp (filter (\<lambda>s. acked m (v_store v s)) (c_subList v))\<rparr>)" "ready w"
proof -
  obtain w where r: "sendReceiptImmediately f v = (None, no_receipt f, v\<lparr>c_writer := w\<rparr>)" "ready w"
    using sendReceipt_ready [OF assms(1,2)] by blast
  have "SL_Ack m ack_closure (c_subList v) (v_store v, v_req v) =
      Ret (filter (\<lambda>s. \<not> acked m (v_store v s)) (c_subList v),
           released (v_store v) {s \<in> set (c_subList v). acked m (v_store v s)},
           v_req v @ map SubscribeOp (filter (\<lambda>s. acked m (v_store v s)) (c_subList v)))"
    using ack_cb.ack_partition [of "c_subList v" "(v_store v, v_req v)" m] assms(5)
    by (simp add: list_all_iff fold_ack_closure released_def cong: if_cong)
  with r assms(2,3,4) that [of w] show thesis by (simp add: handleAck_def)
qed

lemma handleNack_effect:
  assumes "ready (c_writer v)" and "header_ok (Hdr f)" and "Header_Contains (Hdr f) Transaction = None"
    and "ack_message_id f = Inr m" and "distinct (c_subList v)"
  obtains w where "handleNack f v = (None, no_receipt f,
      v\<lparr>c_writer := w, c_subList := filter (\<lambda>s. \<not> IsNackedBy (v_store v s) m) (c_subList v),
        v_store := released (v_store v) {s \<in> set (c_subList v). IsNackedBy (v_store v s) m},
        v_req := v_req v @ concat (map (\<lambda>s. [RequeueOp (sub_frame (v_store v s)), SubscribeOp s])
                   (filter (\<lambda>s. IsNackedBy (v_store v s) m) (c_subList v)))\<rparr>)" "ready w"
proof -
  obtain w where r: "sendReceiptImmediately f v = (None, no_receipt f, v\<lparr>c_writer := w\<rparr>)" "ready w"
    using sendReceipt_ready [OF assms(1,2)] by blast
  have "SL_Nack m nack_closure (c_subList v) (v_store v, v_req v) =
      (filter (\<lambda>s. \<not> IsNackedBy (v_store v s) m) (c_subList v),
       released (v_store v) {s \<in> set (c_subList v). IsNackedBy (v_store v s) m},
       v_req v @ concat (map (\<lambda>s. [RequeueOp (sub_frame (v_store v s)), SubscribeOp s])
         (filter (\<lambda>s. IsNackedBy (v_store v s) m) (c_subList v))))"
    using nack_cb.nack_partition [of m "c_subList v" "(v_store v, v_req v)"] assms(5)
    by (simp add: fold_nack_closure released_def cong: if_cong)
  with r assms(2,3,4) that [of w] show thesis by (simp add: handleNack_def)
qed

text \<open>
  Property C22. What an acknowledgement does, as the code has it: an \<open>ACK\<close> removes from the list
  exactly the subscriptions whose mode and recorded id say so, in any order of the list, clears
  their frames and asks the upper layer for their next message, in list order; the others stay.
  A \<open>NACK\<close> removes those whose recorded id is the given one and gives each message back before
  the subscription asks again.
\<close>

theorem acknowledge_effect:
  assumes "ready (c_writer v)" and "header_ok (Hdr f)" and "Header_Contains (Hdr f) Transaction = None"
    and "ack_message_id f = Inr m" and "list_all (\<lambda>s. valid_ack (sub_ack (v_store v s))) (c_subList v)"
    and "distinct (c_subList v)"
  shows "\<exists>f' u n.
    handleAck f v = Ret (None, f', u) \<and> handleNack f v = (None, f', n) \<and>
    c_subList u = filter (\<lambda>s. \<not> acked m (v_store v s)) (c_subList v) \<and>
    v_req u = v_req v @ map SubscribeOp (filter (\<lambda>s. acked m (v_store v s)) (c_subList v)) \<and>
    v_store u = released (v_store v) {s \<in> set (c_subList v). acked m (v_store v s)} \<and>
    c_subList n = filter (\<lambda>s. sub_msgId (v_store v s) \<noteq> m) (c_subList v) \<and>
    v_req n = v_req v @ concat (map (\<lambda>s. [RequeueOp (sub_frame (v_store v s)), SubscribeOp s])
                (filter (\<lambda>s. sub_msgId (v_store v s) = m) (c_subList v)))"
proof -
  obtain w1 where a: "handleAck f v = Ret (None, no_receipt f,
      v\<lparr>c_writer := w1, c_subList := filter (\<lambda>s. \<not> acked m (v_store v s)) (c_subList v),
        v_store := released (v_store v) {s \<in> set (c_subList v). acked m (v_store v s)},
        v_req := v_req v @ map SubscribeOp (filter (\<lambda>s. acked m (v_store v s)) (c_subList v))\<rparr>)"
    using handleAck_effect [OF assms(1-5)] by blast
  obtain w2 where n: "handleNack f v = (None, no_receipt f,
      v\<lparr>c_writer := w2, c_subList := filter (\<lambda>s. \<not> IsNackedBy (v_store v s) m) (c_subList v),
        v_store := released (v_store v) {s \<in> set (c_subList v). IsNackedBy (v_store v s) m},
        v_req := v_req v @ concat (map (\<lambda>s. [RequeueOp (sub_frame (v_store v s)), SubscribeOp s])
                   (filter (\<lambda>s. IsNackedBy (v_store v s) m) (c_subList v)))\<rparr>)"
    using handleNack_effect [OF assms(1-4,6)] by blast
  have eq: "(m = sub_msgId (v_store v s)) = (sub_msgId (v_store v s) = m)" for s by auto
  show ?thesis unfolding a n by (simp add: IsNackedBy_def eq)
qed

text \<open>A connection with one delivered message that waits for its acknowledgement.\<close>

definition waiting_view :: "string \<Rightarrow> View" where
  "waiting_view mode =
     connected_view\<lparr>c_subList := [0], v_fresh := 1, c_lastMsgId := 1,
       v_store := (\<lambda>s. (newSubscription 1 ''/queue/a'' ''sub-0'' mode)
         \<lparr>sub_subList := Some (ConnList 1), sub_frame := Some (mk_frame MESSAGE [(''message-id'', ''1'')])\<rparr>)\<rparr>"

lemma waiting_view_sel [simp]:
  "c_state (waiting_view mode) = Connected" "ready (c_writer (waiting_view mode))" "c_subList (waiting_view mode) = [0]"
  "sub_ack (v_store (waiting_view mode) s) = mode" "sub_msgId (v_store (waiting_view mode) s) = 0"
  "v_req (waiting_view mode) = []"
  "sub_frame (v_store (waiting_view mode) s) = Some (mk_frame MESSAGE [(''message-id'', ''1'')])"
  "sub_subList (v_store (waiting_view mode) s) = Some (ConnList 1)" "sub_dest (v_store (waiting_view mode) s) = ''/queue/a''"
  by (simp_all add: waiting_view_def newSubscription_def)

lemma ack_of_one: "ack_message_id (mk_frame cmd [(''id'', ''sub-0''), (''message-id'', ''1'')]) = Inr 1"
  by (simp add: ack_message_id_def ParseUint_def is_digit_def digit_val_def Let_def)

theorem acknowledge_effect_witness:
  "\<exists>f' u. handleAck (mk_frame ACK [(''id'', ''sub-0''), (''message-id'', ''1'')]) (waiting_view AckClient) = Ret (None, f', u) \<and>
     c_subList u = [] \<and> v_req u = [SubscribeOp 0]"
proof -
  let ?f = "mk_frame ACK [(''id'', ''sub-0''), (''message-id'', ''1'')]"
  have "acked 1 (v_store (waiting_view AckClient) 0)" by (simp add: acked_def IsAckedBy_def)
  with acknowledge_effect [of "waiting_view AckClient" ?f 1] ack_of_one [of ACK] show ?thesis
    by (auto simp: valid_ack_def)
qed

subsection \<open>The recorded message id\<close>

text \<open>
  No function of the server assigns \<open>Subscription.msgId\<close>: it is 0 from the start, and every turn
  of the loop leaves it so, while the ids the client sees start at 1.
\<close>

definition ids_unset :: "View \<Rightarrow> bool" where
  "ids_unset v \<longleftrightarrow> (\<forall>s. sub_msgId (v_store v s) = 0)"

text \<open>
  Individual acknowledgements have no effect. A message is written to a subscription
  in mode \<open>client-individual\<close> with a new message id, which is not 0 unless the 64-bit counter
  wraps around; when the client acknowledges that very id, no subscription is released and
  nothing is requested from the upper layer, and a \<open>NACK\<close> of it has no effect either, because the
  id was never recorded with the subscription.
\<close>

theorem individual_ack_has_no_effect:
  assumes "ready (c_writer v)" and "c_subs v (sub_id (v_store v s)) = Some s" and "sub_frame (v_store v s) = Some f"
    and "Command f = MESSAGE" and "header_ok (Hdr f)" and "sub_subList (v_store v s) = None"
    and "ids_unset v" and "c_lastMsgId v + 1 \<noteq> 0"
    and "list_all (\<lambda>x. sub_ack (v_store v x) = AckClientIndividual) (s # c_subList v)"
    and "distinct (c_subList v)" and "s \<notin> set (c_subList v)"
    and "header_ok (Hdr a)" and "Header_Contains (Hdr a) Transaction = None"
    and "ack_message_id a = Inr (c_lastMsgId v + 1)"
  shows "\<exists>v' f' u n. on_sub s v = Ret (True, v') \<and>
    map_option (\<lambda>g. Header_Contains (Hdr g) MessageId) (sub_frame (v_store v' s)) =
      Some (Some (FormatUint (unat (c_lastMsgId v + 1)))) \<and>
    s \<in> set (c_subList v') \<and>
    handleAck a v' = Ret (None, f', u) \<and> c_subList u = c_subList v' \<and> v_req u = v_req v' \<and>
    handleNack a v' = (None, f', n) \<and> c_subList n = c_subList v' \<and> v_req n = v_req v'"
proof -
  let ?sub = "v_store v s" and ?n = "c_lastMsgId v + 1"
  let ?id = "FormatUint (unat ?n)"
  define f' where "f' = f\<lparr>Hdr := Header_Set (Header_Set (Header_Set (Hdr f) MessageId ?id) IdHdr ?id) AckHdr ?id\<rparr>"
  have mode: "sub_ack ?sub = AckClientIndividual" using assms(9) by simp
  have al: "allocateMessageId f (Some ?sub) (v\<lparr>c_timer := False\<rparr>) = (f', v\<lparr>c_timer := False, c_lastMsgId := ?n\<rparr>)"
    using assms(4) mode by (simp add: allocateMessageId_def Let_def f'_def)
  have mid: "Header_Contains (Hdr f') MessageId = Some ?id"
    using assms(5) by (simp add: f'_def hm.lookup_put hm.invar_put)
  let ?v2 = "v\<lparr>c_timer := False, c_lastMsgId := ?n, v_store := (v_store v)(s := ?sub\<lparr>sub_frame := Some f'\<rparr>)\<rparr>"
  obtain w where w: "sendImmediately (Some f') ?v2 = (None, ?v2\<lparr>c_writer := w\<rparr>)" "ready w"
    using sendImmediately_ready [of ?v2 "Some f'"] assms(1) by auto
  let ?st = "(v_store v)(s := ?sub\<lparr>sub_frame := Some f', sub_subList := Some (ConnList (c_self v))\<rparr>)"
  define v' where "v' = ?v2\<lparr>c_writer := w, c_subList := c_subList v @ [s], v_store := ?st\<rparr>"
  have on: "on_sub s v = Ret (True, v')"
    using assms(2,3,6) al w(1) mode by (simp add: on_sub_def Let_def SL_Add_def v'_def)
  have rd: "ready (c_writer v')" using w(2) by (simp add: v'_def)
  have sub: "sub_msgId (v_store v' x) = 0" "x \<in> set (c_subList v') \<Longrightarrow> sub_ack (v_store v' x) = AckClientIndividual" for x
    using assms(7,9) by (auto simp: v'_def ids_unset_def list_all_iff)
  then have valid: "list_all (\<lambda>x. valid_ack (sub_ack (v_store v' x))) (c_subList v')"
    by (simp add: valid_ack_def list_all_iff)
  have none: "filter (\<lambda>x. acked ?n (v_store v' x)) (c_subList v') = []"
    "filter (\<lambda>x. \<not> acked ?n (v_store v' x)) (c_subList v') = c_subList v'"
    using sub assms(8) by (auto simp: filter_empty_conv filter_id_conv acked_def IsAckedBy_def)
  have nack: "\<not> IsNackedBy (v_store v' x) ?n" for x using sub(1) assms(8) by (simp add: IsNackedBy_def)
  have dist: "distinct (c_subList v')" using assms(10,11) by (simp add: v'_def)
  obtain w1 where a: "handleAck a v' = Ret (None, no_receipt a,
      v'\<lparr>c_writer := w1, c_subList := filter (\<lambda>s. \<not> acked ?n (v_store v' s)) (c_subList v'),
        v_store := released (v_store v') {s \<in> set (c_subList v'). acked ?n (v_store v' s)},
        v_req := v_req v' @ map SubscribeOp (filter (\<lambda>s. acked ?n (v_store v' s)) (c_subList v'))\<rparr>)"
    using handleAck_effect [OF rd assms(12,13,14) valid] by blast
  obtain w2 where n: "handleNack a v' = (None, no_receipt a,
      v'\<lparr>c_writer := w2, c_subList := filter (\<lambda>s. \<not> IsNackedBy (v_store v' s) ?n) (c_subList v'),
        v_store := released (v_store v') {s \<in> set (c_subList v'). IsNackedBy (v_store v' s) ?n},
        v_req := v_req v' @ concat (map (\<lambda>s. [RequeueOp (sub_frame (v_store v' s)), SubscribeOp s])
                   (filter (\<lambda>s. IsNackedBy (v_store v' s) ?n) (c_subList v')))\<rparr>)"
    using handleNack_effect [OF rd assms(12,13,14) dist] by blast
  have "s \<in> set (c_subList v')" "map_option (\<lambda>g. Header_Contains (Hdr g) MessageId) (sub_frame (v_store v' s)) = Some (Some ?id)"
    using mid by (simp_all add: v'_def)
  moreover have "\<exists>u. handleAck a v' = Ret (None, no_receipt a, u) \<and> c_subList u = c_subList v' \<and> v_req u = v_req v'"
    unfolding a none by simp
  moreover have "\<exists>n. handleNack a v' = (None, no_receipt a, n) \<and> c_subList n = c_subList v' \<and> v_req n = v_req v'"
    unfolding n by (simp add: nack)
  ultimately show ?thesis using on by blast
qed

text \<open>A connection with a message on its way to a subscription.\<close>

definition delivery_view :: "string \<Rightarrow> View" where
  "delivery_view mode =
     connected_view\<lparr>c_subs := [''sub-0'' \<mapsto> 0], v_fresh := 1,
       v_store := (\<lambda>s. (newSubscription 1 ''/queue/a'' ''sub-0'' mode)
         \<lparr>sub_frame := Some (mk_frame MESSAGE [(''destination'', ''/queue/a'')])\<rparr>)\<rparr>"

theorem individual_ack_has_no_effect_witness:
  "\<exists>v' f' u. on_sub 0 (delivery_view AckClientIndividual) = Ret (True, v') \<and>
     handleAck (mk_frame ACK [(''id'', ''sub-0''), (''message-id'', ''1'')]) v' = Ret (None, f', u) \<and>
     0 \<in> set (c_subList v') \<and> c_subList u = c_subList v'"
  using individual_ack_has_no_effect [of "delivery_view AckClientIndividual" 0 "mk_frame MESSAGE [(''destination'', ''/queue/a'')]"
      "mk_frame ACK [(''id'', ''sub-0''), (''message-id'', ''1'')]"] ack_of_one [of ACK]
  by (auto simp: delivery_view_def newSubscription_def ids_unset_def)

end
