(* ===== verification/Server_Delivery.thy ===== *)
theory Server_Delivery
  imports Server_Session
begin

section \<open>Messages on a connection: numbering, closing, reading\<close>

text \<open>
  The numbering of the messages a connection sends, what becomes of the messages in flight
  when it closes, and the frames that the reading loop passes on (\<open>server/client/conn.go\<close>,
  \<open>allocateMessageId\<close>, \<open>cleanupConn\<close>, \<open>readLoop\<close>).
\<close>

subsection \<open>Numbering\<close>

definition numbered :: "64 word \<Rightarrow> Frame \<Rightarrow> Frame" where
  "numbered n f =
     (let i = FormatUint (unat n)
      in f\<lparr>Hdr := Header_Del (Header_Set (Header_Set (Hdr f) MessageId i) IdHdr i) AckHdr\<rparr>)"

fun number_frames :: "64 word \<Rightarrow> Frame list \<Rightarrow> Frame list" where
  "number_frames n [] = []"
| "number_frames n (f # fs) = numbered (n + 1) f # number_frames (n + 1) fs"

lemma on_write_message:
  assumes "ready (c_writer v)" and "Command f = MESSAGE"
  obtains w where "on_write f v = (True, v\<lparr>c_timer := False, c_lastMsgId := c_lastMsgId v + 1, c_writer := w\<rparr>)" "ready w"
    "w_out w = w_out (c_writer v) @ frame_bytes (Some (numbered (c_lastMsgId v + 1) f))"
proof -
  let ?v = "v\<lparr>c_timer := False, c_lastMsgId := c_lastMsgId v + 1\<rparr>"
  have a: "allocateMessageId f None (v\<lparr>c_timer := False\<rparr>) = (numbered (c_lastMsgId v + 1) f, ?v)"
    using assms(2) by (simp add: allocateMessageId_def numbered_def Let_def)
  have c: "Command (numbered (c_lastMsgId v + 1) f) = MESSAGE" using assms(2) by (simp add: numbered_def Let_def)
  obtain w where "sendImmediately (Some (numbered (c_lastMsgId v + 1) f)) ?v = (None, ?v\<lparr>c_writer := w\<rparr>)" "ready w"
    "w_out w = w_out (c_writer v) @ frame_bytes (Some (numbered (c_lastMsgId v + 1) f))"
    using sendImmediately_ready [of ?v] assms(1) by auto
  with a c that [of w] show thesis by (simp add: on_write_def)
qed

lemma write_turns:
  "ready (c_writer v) \<Longrightarrow> list_all (\<lambda>f. Command f = MESSAGE) fs \<Longrightarrow>
     \<exists>v'. processLoop quote cfg (map (\<lambda>f. SelWrite (Some f)) fs) v = Ret (True, v') \<and>
       wire v' = wire v @ concat (map (\<lambda>f. frame_bytes (Some f)) (number_frames (c_lastMsgId v) fs)) \<and>
       v_req v' = v_req v"
proof (induction fs arbitrary: v)
  case Nil
  then show ?case by simp
next
  case (Cons f fs)
  obtain tm where p: "loop_prologue v = v\<lparr>c_timer := tm\<rparr>" using prologue_timer by blast
  obtain w where w: "on_write f (v\<lparr>c_timer := tm\<rparr>) =
      (True, v\<lparr>c_timer := False, c_lastMsgId := c_lastMsgId v + 1, c_writer := w\<rparr>)" "ready w"
    "w_out w = w_out (c_writer v) @ frame_bytes (Some (numbered (c_lastMsgId v + 1) f))"
    using on_write_message [of "v\<lparr>c_timer := tm\<rparr>" f] Cons.prems by auto
  let ?v1 = "v\<lparr>c_timer := False, c_lastMsgId := c_lastMsgId v + 1, c_writer := w\<rparr>"
  have turn: "processLoop_turn quote cfg (SelWrite (Some f)) v = Ret (True, ?v1)"
    using p w(1) by (simp add: processLoop_turn_def)
  have "ready (c_writer ?v1)" "list_all (\<lambda>f. Command f = MESSAGE) fs" using w(2) Cons.prems by simp_all
  from Cons.IH [OF this] turn w(3) show ?case by (auto simp: wire_def)
qed

lemma number_frames_ids:
  "list_all (\<lambda>f. header_ok (Hdr f)) fs \<Longrightarrow>
     map (\<lambda>f. Header_Contains (Hdr f) MessageId) (number_frames n fs) = map Some (allocate_many (length fs) n)"
  by (induction n fs rule: number_frames.induct)
     (auto simp: numbered_def Let_def hm.lookup_put hm.lookup_del allocateId_def)

text \<open>
  Topic messages are numbered: the messages that a connection takes from its write
  channel appear on the wire in order, one frame each, and their \<open>message-id\<close> entries are the
  successive values of a counter, pairwise different for up to \<open>2^64\<close> messages; no \<open>ack\<close> entry is
  sent, and nothing is requested from the upper layer.
\<close>

theorem topic_messages_numbered:
  assumes "ready (c_writer v)" and "list_all (\<lambda>f. Command f = MESSAGE \<and> header_ok (Hdr f)) fs"
    and "length fs \<le> 2 ^ 64"
  shows "\<exists>v' sent. processLoop quote cfg (map (\<lambda>f. SelWrite (Some f)) fs) v = Ret (True, v') \<and>
    wire v' = wire v @ concat (map (\<lambda>f. frame_bytes (Some f)) sent) \<and>
    map Body sent = map Body fs \<and>
    map (\<lambda>f. Header_Contains (Hdr f) MessageId) sent = map Some (allocate_many (length fs) (c_lastMsgId v)) \<and>
    distinct (map (\<lambda>f. Header_Contains (Hdr f) MessageId) sent) \<and>
    list_all (\<lambda>f. Header_Contains (Hdr f) AckHdr = None) sent \<and> v_req v' = v_req v"
proof -
  let ?sent = "number_frames (c_lastMsgId v) fs"
  have h: "list_all (\<lambda>f. header_ok (Hdr f)) fs" "list_all (\<lambda>f. Command f = MESSAGE) fs"
    using assms(2) by (auto simp: list_all_iff)
  have ids: "map (\<lambda>f. Header_Contains (Hdr f) MessageId) ?sent = map Some (allocate_many (length fs) (c_lastMsgId v))"
    by (rule number_frames_ids [OF h(1)])
  have "distinct (map Some (allocate_many (length fs) (c_lastMsgId v)))"
    using allocate_many_distinct [OF assms(3)] by (simp add: distinct_map)
  moreover have "map Body (number_frames n fs) = map Body fs" for n
    by (induction fs arbitrary: n) (auto simp: numbered_def Let_def)
  moreover have "list_all (\<lambda>f. Header_Contains (Hdr f) AckHdr = None) (number_frames n fs)" for n
    using h(1) by (induction fs arbitrary: n) (auto simp: numbered_def Let_def hm.lookup_put hm.lookup_del)
  ultimately show ?thesis
    using write_turns [OF assms(1) h(2), of quote cfg] ids by (auto intro!: exI [of _ ?sent])
qed

theorem topic_messages_numbered_witness:
  "\<exists>v'. processLoop id sample_cfg (map (\<lambda>f. SelWrite (Some f)) [mk_frame MESSAGE [], mk_frame MESSAGE []]) connected_view =
     Ret (True, v') \<and> v_req v' = []"
  using topic_messages_numbered [of connected_view "[mk_frame MESSAGE [], mk_frame MESSAGE []]" id sample_cfg]
  by (auto simp del: processLoop.simps)

subsection \<open>Closing\<close>

text \<open>
  While the goroutine is blocked the upper layer may still put subscriptions and frames on the
  channels; \<open>arrive\<close> says which ones arrive after each phase.
\<close>

definition arrive :: "(nat \<Rightarrow> sub_ref list) \<Rightarrow> (nat \<Rightarrow> Frame list) \<Rightarrow> nat \<Rightarrow> View \<Rightarrow> View" where
  "arrive ss fs k v =
     v\<lparr>c_subChannel := c_subChannel v @ ss k, c_writeChannel := c_writeChannel v @ fs k\<rparr>"

definition requeues :: "sub_store \<Rightarrow> sub_ref list \<Rightarrow> Request list" where
  "requeues st ss = map (\<lambda>s. RequeueOp (sub_frame (st s))) ss"

lemma requeues_same_frames:
  "(\<And>s. sub_frame (st' s) = sub_frame (st s)) \<Longrightarrow> requeues st' ss = requeues st ss"
  by (simp add: requeues_def)

lemma requeues_simps [simp]:
  "requeues st [] = []" "requeues st (s # ss) = RequeueOp (sub_frame (st s)) # requeues st ss"
  "requeues st (ss @ ss') = requeues st ss @ requeues st ss'"
  by (simp_all add: requeues_def)

lemma requeue_unacked_eq:
  "\<exists>st'. requeue_unacked subs st rs = (st', rs @ requeues st subs) \<and> (\<forall>s. sub_frame (st' s) = sub_frame (st s))"
proof (induction subs arbitrary: st rs)
  case Nil
  then show ?case by (simp add: requeue_unacked.simps SL_Get_def)
next
  case (Cons s subs)
  define st1 where "st1 = st(s := (st s)\<lparr>sub_subList := None\<rparr>)"
  have same: "sub_frame (st1 x) = sub_frame (st x)" for x by (simp add: st1_def)
  have step: "requeue_unacked (s # subs) st rs = requeue_unacked subs st1 (rs @ [RequeueOp (sub_frame (st s))])"
    by (subst requeue_unacked.simps) (simp add: SL_Get_def st1_def)
  show ?case
    using Cons.IH [of st1 "rs @ [RequeueOp (sub_frame (st s))]"] requeues_same_frames [of st1 st, OF same]
    by (auto simp: step same)
qed

lemma cleanup_sub_loop_eq: "cleanup_sub_loop ss st rs = rs @ requeues st ss"
  by (induction ss arbitrary: rs) (auto simp: requeues_def)

lemma fold_unsubscribe:
  "fold (\<lambda>s v. send_request (UnsubscribeOp s) v) order v = v\<lparr>v_req := v_req v @ map UnsubscribeOp order\<rparr>"
  by (induction order arbitrary: v) (auto simp: send_request_def)

lemma cleanup_unsubscribe_eq:
  "cleanup_unsubscribe order v =
     v\<lparr>c_txStore := tx_Init (c_txStore v), c_writeChannel := [], v_req := v_req v @ map UnsubscribeOp order\<rparr>"
  by (simp add: cleanup_unsubscribe_def fold_unsubscribe discardWriteChannelFrames_def put_tx_def)

lemma cleanup_requeue_eq:
  "\<exists>st. cleanup_requeue v =
      v\<lparr>c_subs := Map.empty, c_subList := [], v_store := st, v_req := v_req v @ requeues (v_store v) (c_subList v)\<rparr> \<and>
    (\<forall>s. sub_frame (st s) = sub_frame (v_store v s))"
  using requeue_unacked_eq [of "c_subList v" "v_store v" "v_req v"] by (auto simp: cleanup_requeue_def)

lemma cleanup_drain_eq:
  "cleanup_drain v =
     v\<lparr>c_writeChannel := [], c_subChannel := [], v_req := v_req v @ requeues (v_store v) (c_subChannel v)\<rparr>"
  by (simp add: cleanup_drain_def cleanupSubChannel_def discardWriteChannelFrames_def cleanup_sub_loop_eq)



subsection \<open>Reading\<close>

primrec frames_of :: "Frame option list \<Rightarrow> Frame list" where
  "frames_of [] = []"
| "frames_of (fo # fos) = (case fo of None \<Rightarrow> frames_of fos | Some f \<Rightarrow> f # frames_of fos)"

lemma Reader_Read_end: "newline \<notin> set (concat cs) \<Longrightarrow> Reader_Read e cs = Inl e"
  using ReadBytes_flat(1) [of newline "[]" cs] by (simp add: Reader_Read_def readLine_def)

lemma readLoop_written:
  "list_all writable fos \<Longrightarrow> concat cs = concat (map frame_bytes fos) @ r \<Longrightarrow> newline \<notin> set r \<Longrightarrow>
     readLoop cfg e cs rl =
       (frames_of fos, e, fold (note_connect cfg) (frames_of fos) rl)"
proof (induction fos arbitrary: cs rl)
  case Nil
  then have "Reader_Read e cs = Inl e" by (intro Reader_Read_end) simp
  then show ?case by (simp add: readLoop.simps [of cfg e cs])
next
  case (Cons fo fos)
  let ?r = "concat (map frame_bytes fos) @ r"
  have "flat (Reader_Read e cs) = Inr (fo, ?r)" using Cons.prems by (intro Read_written) auto
  then obtain cs' where cs': "Reader_Read e cs = Inr (fo, cs')" "concat cs' = ?r"
    by (cases "Reader_Read e cs") auto
  have "readLoop cfg e cs' rl' = (frames_of fos, e, fold (note_connect cfg) (frames_of fos) rl')" for rl'
    using Cons.prems cs'(2) by (intro Cons.IH) auto
  with cs'(1) show ?case by (cases fo) (simp_all add: readLoop.simps [of cfg e cs] Let_def)
qed

lemma note_connect_done: "\<not> rl_expectingConnect rl \<Longrightarrow> fold (note_connect cfg) fs rl = rl"
  by (induction fs) (auto simp: note_connect_def)

lemma note_connect_first:
  assumes "Command f \<in> {CONNECT, STOMP}" and "getHeartBeat f = (cx, cy, None)"
  shows "note_connect cfg f rl_init =
    \<lparr>rl_expectingConnect = False, rl_readTimeout = negotiated cfg cx * Millisecond\<rparr>"
proof -
  have c: "0 \<le> cx" "cx \<le> maxHeartBeat" using getHeartBeat_range [OF assms] by auto
  then have "int64 (negotiated cfg cx * Millisecond) = negotiated cfg cx * Millisecond"
    using negotiated_range [OF c, of cfg] by (intro int64_id) (auto simp: maxHeartBeat_def)
  then show ?thesis
    using assms(2) negotiated_clamp [OF c(1), of cfg] by (simp add: note_connect_def rl_init_def Let_def)
qed

text \<open>
  Property C25. The reading loop passes on what was sent. On a stream of written frames and
  heart-beats, in any segmentation and followed by at most an incomplete line, it puts
  exactly the frames on the read channel, in order, and ends with the error of the input; when the
  first frame has an acceptable \<open>heart-beat\<close> entry, the deadline of every later read is twice
  the negotiated interval (none when that is zero).
\<close>

theorem read_loop_passes_on:
  assumes "list_all writable fos" and "concat cs = concat (map frame_bytes fos) @ r" and "newline \<notin> set r"
    and "frames_of fos = f # fs"
    and "Command f \<in> {CONNECT, STOMP}" and "getHeartBeat f = (cx, cy, None)"
  shows "\<exists>rl. readLoop cfg e cs rl_init = (f # fs, e, rl) \<and>
    read_deadline rl = (if negotiated cfg cx = 0 then None else Some (2 * (negotiated cfg cx * Millisecond)))"
proof -
  have r: "0 \<le> negotiated cfg cx" "negotiated cfg cx \<le> maxHeartBeat"
    using getHeartBeat_range [OF assms(5,6)] negotiated_range [of cx cfg] by auto
  show ?thesis
    using readLoop_written [OF assms(1,2,3), of cfg e rl_init] r
    by (auto simp: assms(4) note_connect_first [OF assms(5,6)] note_connect_done read_deadline_def int64_def
        maxHeartBeat_def)
qed

theorem read_loop_passes_on_witness:
  "\<exists>rl. readLoop sample_cfg ErrEOF
      [newline # frame_bytes (Some (mk_frame CONNECT [(''heart-beat'', ''90000,0'')]))] rl_init =
     ([mk_frame CONNECT [(''heart-beat'', ''90000,0'')]], ErrEOF, rl) \<and> read_deadline rl = Some (180 * Second)"
proof -
  let ?f = "mk_frame CONNECT [(''heart-beat'', ''90000,0'')]"
  have hb: "getHeartBeat ?f = (90000, 0, None)"
    using get_heart_beat_facts(1) [of ?f]
    by (simp add: heartBeatRegexp9_def match_two_numbers_def is_digit_def dec_val_def digit_val_def)
  have ok: "list_all writable [None, Some ?f]"
    by (simp add: writable_def valid_command_def Header_ContentLength_def)
  have "negotiated sample_cfg 90000 = 90000"
    by (simp add: negotiated_def sample_cfg_def asMilliseconds_def Let_def quot_def sgn_if maxHeartBeat_def)
  then show ?thesis
    using read_loop_passes_on [OF ok, of "[newline # frame_bytes (Some ?f)]" "[]" ?f "[]" 90000 0 sample_cfg ErrEOF] hb
    by (simp add: frame_bytes_def [of None] frame_pieces_def)
qed

end
