(* ===== verification/Client_Server.thy ===== *)
theory Client_Server
  imports Client_Calls Server_Delivery
begin

section \<open>Client and server together\<close>

text \<open>
  The two ends of a connection against each other: the handshake with its heart-beats, the
  acknowledgement frames, and transactions.
\<close>

subsection \<open>The handshake\<close>

text \<open>The entries that \<open>NewFrame\<close> makes of the options, before the user's own.\<close>

definition connect_entries :: "connOptions \<Rightarrow> (string \<times> string) list" where
  "connect_entries co =
     (if co_Host co \<noteq> [] then [(Host, co_Host co)] else []) @
     [(HeartBeat, FormatInt (quot (co_WriteTimeout co) Millisecond) @ '','' @
        FormatInt (quot (co_ReadTimeout co) Millisecond))] @
     (if co_Login co \<noteq> [] \<or> co_Passcode co \<noteq> [] then [(Login, co_Login co), (Passcode, co_Passcode co)] else []) @
     [(AcceptVersion, Join (co_AcceptVersions co) (CHR '',''))]"

definition custom_entries :: "connOptions \<Rightarrow> (string \<times> string) list" where
  "custom_entries co = (case co_Header co of None \<Rightarrow> [] | Some h \<Rightarrow> entries h)"

lemma set_first_append: "k \<notin> fst ` set kvs \<Longrightarrow> set_first kvs k v = kvs @ [(k, v)]"
  by (induction kvs k v rule: set_first.induct) auto

lemma AddHeader_unpairs:
  assumes "header_ok other"
  shows "Header_AddHeader \<lparr>slice = unpairs kvs\<rparr> (Some other) = Ret \<lparr>slice = unpairs (kvs @ entries other)\<rparr>"
proof -
  have ok: "header_ok \<lparr>slice = unpairs kvs\<rparr>" by (simp add: header_ok_def)
  obtain h' where "Header_AddHeader \<lparr>slice = unpairs kvs\<rparr> (Some other) = Ret h'" "header_ok h'"
    "entries h' = kvs @ entries other"
    using AddHeader_entries [OF ok assms] by auto
  then show ?thesis using header_by_entries [of h'] by simp
qed

lemma NewFrame_entries:
  assumes "case co_Header co of None \<Rightarrow> True | Some h \<Rightarrow> header_ok h"
  shows "connOptions_NewFrame co = Ret (mk_frame (co_FrameCommand co) (connect_entries co @ custom_entries co))"
proof -
  have empty: "empty_header = \<lparr>slice = unpairs []\<rparr>" by (simp add: empty_header_def)
  show ?thesis
    using assms
    by (cases "co_Header co")
       (auto simp: connOptions_NewFrame_def Let_def empty Header_Set_unpairs AddHeader_unpairs connect_entries_def
          custom_entries_def mk_frame_def Header_AddHeader_def [of _ None] simp del: unpairs.simps unpairs_append)
qed

text \<open>Heart-beat values survive both parsers.\<close>

lemma heart_beat_text:
  assumes "0 \<le> a" and "a \<le> maxHeartBeat" and "0 \<le> b" and "b \<le> maxHeartBeat"
  shows "two_numbers (\<lambda>n. 1 \<le> n \<and> n \<le> 9) (FormatInt a @ '','' @ FormatInt b) (FormatUint (nat a)) (FormatUint (nat b))"
proof -
  have "length (FormatUint (nat x)) \<le> 9" if "x \<le> maxHeartBeat" for x
    using that by (intro length_FormatUint) (auto simp: maxHeartBeat_def nat_less_iff)
  moreover have "1 \<le> length (FormatUint n)" for n by (cases "FormatUint n") auto
  ultimately show ?thesis
    using assms FormatUint_digits by (simp add: two_numbers_def FormatInt_def list_all_iff)
qed

lemma getHeartBeat_text:
  assumes "0 \<le> a" and "a \<le> maxHeartBeat" and "0 \<le> b" and "b \<le> maxHeartBeat"
    and "Command f \<in> {CONNECT, STOMP, CONNECTED}"
    and "Header_Contains (Hdr f) HeartBeat = Some (FormatInt a @ '','' @ FormatInt b)"
  shows "getHeartBeat f = (a, b, None)"
proof -
  note t = heart_beat_text [OF assms(1-4)]
  then have "heartBeatRegexp9 (FormatInt a @ '','' @ FormatInt b)"
    by (auto simp: heartBeatRegexp9_def match_two_numbers_iff)
  with get_heart_beat_facts(1) [OF assms(5)] assms two_numbers_Split [OF t] show ?thesis by simp
qed

lemma ParseHeartBeat_text:
  assumes "0 \<le> a" and "a \<le> maxHeartBeat" and "0 \<le> b" and "b \<le> maxHeartBeat"
  shows "ParseHeartBeat (FormatInt a @ '','' @ FormatInt b) = Inr (a * Millisecond, b * Millisecond)"
proof -
  have "two_numbers (\<lambda>n. True) (FormatInt a @ '','' @ FormatInt b) (FormatUint (nat a)) (FormatUint (nat b))"
    using heart_beat_text [OF assms] by (simp add: two_numbers_def)
  from ParseHeartBeat_two_numbers [OF this] assms show ?thesis
    by (simp add: maxMilliseconds_def maxHeartBeat_def)
qed

text \<open>
  Options a user can make with the library: a connect command, versions it supports among them one
  the server speaks, intervals of at most \<open>maxHeartBeat\<close> milliseconds, entries of the user's own that do
  not ask for a receipt.
\<close>

definition options_ok :: "connOptions \<Rightarrow> bool" where
  "options_ok co \<longleftrightarrow> co_FrameCommand co \<in> {CONNECT, STOMP} \<and>
     set (co_AcceptVersions co) \<subseteq> {V10, V11, V12} \<and> (V11 \<in> set (co_AcceptVersions co) \<or> V12 \<in> set (co_AcceptVersions co)) \<and>
     0 \<le> co_WriteTimeout co \<and> co_WriteTimeout co \<le> maxHeartBeat * Millisecond \<and>
     0 \<le> co_ReadTimeout co \<and> co_ReadTimeout co \<le> maxHeartBeat * Millisecond \<and>
     0 \<le> co_HeartBeatError co \<and> co_HeartBeatError co \<le> maxHeartBeat * Millisecond \<and>
     (case co_Header co of
        None \<Rightarrow> True
      | Some h \<Rightarrow> header_ok h \<and> list_all (\<lambda>(k, v). k \<noteq> [] \<and> k \<notin> {Receipt, ContentLength, Login, Passcode}) (entries h))"

lemma version_Split:
  assumes "set vs \<subseteq> {V10, V11, V12}" and "vs \<noteq> []"
  shows "Split (Join vs (CHR '','')) (CHR '','') = vs"
  using assms by (intro Split_Join) auto

lemma connect_frame_lookups:
  assumes "options_ok co"
  defines "f \<equiv> mk_frame (co_FrameCommand co) (connect_entries co @ custom_entries co)"
  shows "Header_Contains (Hdr f) Receipt = None" "Header_Contains (Hdr f) ContentLength = None"
    "Header_Get (Hdr f) Login = co_Login co" "Header_Get (Hdr f) Passcode = co_Passcode co"
    "Header_Contains (Hdr f) HeartBeat = Some (FormatInt (quot (co_WriteTimeout co) Millisecond) @ '','' @
        FormatInt (quot (co_ReadTimeout co) Millisecond))"
    "Header_Contains (Hdr f) AcceptVersion = Some (Join (co_AcceptVersions co) (CHR '',''))"
proof -
  have c: "map_of (custom_entries co) k = None" if "k \<in> {Receipt, ContentLength, Login, Passcode}" for k
  proof -
    have "k \<notin> fst ` set (custom_entries co)"
      using assms(1) that by (force simp: options_ok_def custom_entries_def list_all_iff split: option.splits)
    then show ?thesis by (simp add: map_of_eq_None_iff)
  qed
  show "Header_Contains (Hdr f) Receipt = None" "Header_Contains (Hdr f) ContentLength = None"
    "Header_Get (Hdr f) Login = co_Login co" "Header_Get (Hdr f) Passcode = co_Passcode co"
    using c [of Receipt] c [of ContentLength] c [of Login] c [of Passcode]
    by (auto simp: f_def connect_entries_def Header_Get_def map_add_def)
  show "Header_Contains (Hdr f) HeartBeat = Some (FormatInt (quot (co_WriteTimeout co) Millisecond) @ '','' @
        FormatInt (quot (co_ReadTimeout co) Millisecond))"
    "Header_Contains (Hdr f) AcceptVersion = Some (Join (co_AcceptVersions co) (CHR '',''))"
    by (auto simp: f_def connect_entries_def map_add_def)
qed

definition best_version :: "connOptions \<Rightarrow> string" where
  "best_version co = (if V12 \<in> set (co_AcceptVersions co) then V12 else V11)"

lemma connect_frame_accepted:
  assumes "options_ok co" and "Authenticate cfg (co_Login co) (co_Passcode co)"
  defines "f \<equiv> mk_frame (co_FrameCommand co) (connect_entries co @ custom_entries co)"
  shows "determineVersion f = (best_version co, None)"
    "getHeartBeat f = (co_WriteTimeout co div Millisecond, co_ReadTimeout co div Millisecond, None)"
    "connect_ok cfg f" "writable (Some f)" "Command f \<in> {CONNECT, STOMP}"
proof -
  note look = connect_frame_lookups [OF assms(1), folded f_def]
  have cmd: "Command f \<in> {CONNECT, STOMP}" using assms(1) by (auto simp: f_def options_ok_def)
  have vs: "set (co_AcceptVersions co) \<subseteq> {V10, V11, V12}" "co_AcceptVersions co \<noteq> []"
    using assms(1) by (auto simp: options_ok_def)
  show ver: "determineVersion f = (best_version co, None)"
    using cmd look(6) version_Split [OF vs] assms(1)
    by (auto simp: determineVersion_eq best_version_def options_ok_def Let_def)
  have q: "quot x Millisecond = x div Millisecond" if "0 \<le> x" for x
    using that by (auto simp: quot_def sgn_if)
  have b: "0 \<le> x div Millisecond \<and> x div Millisecond \<le> maxHeartBeat" if "0 \<le> x" "x \<le> maxHeartBeat * Millisecond" for x
    using that by (auto simp: maxHeartBeat_def)
  show hb: "getHeartBeat f = (co_WriteTimeout co div Millisecond, co_ReadTimeout co div Millisecond, None)"
    using assms(1) b [of "co_WriteTimeout co"] b [of "co_ReadTimeout co"] look(5) q [of "co_WriteTimeout co"]
      q [of "co_ReadTimeout co"] cmd
    by (intro getHeartBeat_text) (auto simp: options_ok_def)
  show "connect_ok cfg f"
    using cmd look assms(2) ver hb by (auto simp: connect_ok_def best_version_def)
  have "list_all (\<lambda>(k, v). k \<noteq> []) (entries (Hdr f))"
    using assms(1) by (auto simp: f_def connect_entries_def custom_entries_def options_ok_def list_all_iff split: option.splits)
  moreover have f: "header_ok (Hdr f)" "Body f = []" by (simp_all add: f_def)
  ultimately show "writable (Some f)"
    using cmd look(2) f by (auto simp: writable_def valid_command_def Header_ContentLength_def)
  show "Command f \<in> {CONNECT, STOMP}" by (rule cmd)
qed

lemma connected_frame_accepted:
  assumes hb: "getHeartBeat f = (cx, cy, None)" and cmd: "Command f \<in> {CONNECT, STOMP}"
    and ver: "fst (determineVersion f) \<in> {V11, V12}"
    and err: "0 \<le> co_HeartBeatError co" "co_HeartBeatError co \<le> maxHeartBeat * Millisecond"
    and rt: "0 \<le> co_ReadTimeout co" "co_ReadTimeout co \<le> maxHeartBeat * Millisecond"
  shows "\<exists>c cb. accept_response quote co stats (connected_frame cfg f) = Inr (c, cb) \<and>
    cc_version c = fst (determineVersion f) \<and>
    cc_writeTimeout c \<le> negotiated cfg cx * Millisecond \<and> (cc_writeTimeout c = 0) = (negotiated cfg cx = 0) \<and>
    negotiated cfg cy * Millisecond \<le> cc_readTimeout c"
proof -
  have r: "0 \<le> negotiated cfg cx" "negotiated cfg cx \<le> maxHeartBeat" "0 \<le> negotiated cfg cy" "negotiated cfg cy \<le> maxHeartBeat"
    using getHeartBeat_range [OF cmd hb] negotiated_range by auto
  let ?g = "connected_frame cfg f"
  have g: "Command ?g = CONNECTED" "Header_Get (Hdr ?g) VersionHdr = fst (determineVersion f)"
    "Header_Contains (Hdr ?g) HeartBeat = Some (FormatInt (negotiated cfg cy) @ '','' @ FormatInt (negotiated cfg cx))"
    using hb by (simp_all add: connected_frame_def Header_Get_def)
  have v: "response_version ?g = Inr (fst (determineVersion f))"
    using g(2) ver by (auto simp: response_version_def CheckSupported_def)
  let ?wt = "negotiated cfg cx * Millisecond"
  define rt where "rt = (if negotiated cfg cy * Millisecond < co_ReadTimeout co then co_ReadTimeout co
    else negotiated cfg cy * Millisecond)"
  have ge: "negotiated cfg cy * Millisecond \<le> rt" "rt \<le> maxHeartBeat * Millisecond" using r rt by (auto simp: rt_def)
  have i: "int64 (rt + co_HeartBeatError co) = rt + co_HeartBeatError co"
    "int64 (?wt - co_HeartBeatError co) = ?wt - co_HeartBeatError co"
    using r err ge by (auto simp: maxHeartBeat_def intro!: int64_id)
  have "response_timeouts co ?g =
      Inr (if rt > 0 then rt + co_HeartBeatError co else rt,
           if ?wt > co_HeartBeatError co then ?wt - co_HeartBeatError co else ?wt)"
    using g(3) ParseHeartBeat_text [OF r(3,4,1,2)]
    by (simp add: response_timeouts_def rt_def [symmetric] i del: append.simps)
  with g(1) v r err ge show ?thesis by (auto simp: accept_response_def)
qed

lemma connected_frame_writable:
  assumes "getHeartBeat f = (cx, cy, None)"
  shows "writable (Some (connected_frame cfg f))"
  using assms by (simp add: connected_frame_def writable_def valid_command_def Header_ContentLength_def)

lemma server_answers:
  assumes "connect_ok cfg f" and "getHeartBeat f = (cx, cy, None)" and "c_state v = Connecting" and "ready (c_writer v)"
    and "w_out (c_writer v) = []"
  shows "\<exists>v'. stateFunc cfg f v = Ret (None, f, v') \<and> c_state v' = Connected \<and>
    w_out (c_writer v') = frame_bytes (Some (connected_frame cfg f)) \<and> c_version v' = fst (determineVersion f) \<and>
    c_writeTimeout v' = negotiated cfg cy * Millisecond"
proof -
  obtain w where w: "Writer_Write (Some (connected_frame cfg f)) (c_writer v) = (None, w)"
    "w_out w = w_out (c_writer v) @ frame_bytes (Some (connected_frame cfg f))"
    using Writer_Write_ready [OF assms(4)] by blast
  obtain w' where "connecting cfg f v =
    (None, f, v\<lparr>c_version := fst (determineVersion f), c_validator := Some validatorNull,
       c_writeTimeout := negotiated cfg (fst (snd (getHeartBeat f))) * Millisecond, c_writer := w',
       c_state := Connected, v_req := v_req v @ [ConnectedOp (c_self v)]\<rparr>)"
    "w' = snd (Writer_Write (Some (connected_frame cfg f)) (c_writer v))"
    using connecting_accepts [OF assms(1), of v] by blast
  with w assms(2,3,5) show ?thesis by (simp add: connecting_state)
qed

lemma client_writes:
  "\<exists>w. Writer_Write (Some f) (choose_writer co None fault) = (None, w) \<and> w_out w = frame_bytes (Some f)"
proof -
  have "ready (choose_writer co None fault)" by (simp add: choose_writer_def)
  moreover have "w_out (choose_writer co None fault) = []"
    by (simp add: choose_writer_def NewWriter_def NewWriterSize_def)
  moreover obtain w where "Writer_Write (Some f) (choose_writer co None fault) = (None, w)"
    "w_out w = w_out (choose_writer co None fault) @ frame_bytes (Some f)"
    using Writer_Write_ready [OF calculation(1)] by blast
  ultimately show ?thesis by simp
qed

lemma client_connects:
  assumes "newConnOptions opts = Inr (co0, stats)" and "connOptions_NewFrame (choose_host netHost co0) = Ret f"
    and "writable (Some g)" and "accept_response quote (choose_host netHost co0) stats g = Inr (c, cb)"
  shows "\<exists>w cs'. ConnectWithContext quote opts netHost None fault e [frame_bytes (Some g) @ r] = Ret (Inr (c, cb, w, cs')) \<and>
    concat cs' = r \<and> w_out w = frame_bytes (Some f)"
proof -
  obtain w where w: "Writer_Write (Some f) (choose_writer (choose_host netHost co0) None fault) = (None, w)"
    "w_out w = frame_bytes (Some f)" using client_writes by blast
  have "flat (Reader_Read e [frame_bytes (Some g) @ r]) = Inr (Some g, r)"
    by (rule Read_written [OF assms(3)]) simp
  then obtain cs' where "Reader_Read e [frame_bytes (Some g) @ r] = Inr (Some g, cs')" "concat cs' = r"
    by (cases "Reader_Read e [frame_bytes (Some g) @ r]") auto
  with assms w show ?thesis by (simp add: ConnectWithContext_def Let_def)
qed

lemma choose_host_same:
  "co_Login (choose_host netHost co) = co_Login co" "co_Passcode (choose_host netHost co) = co_Passcode co"
  "co_AcceptVersions (choose_host netHost co) = co_AcceptVersions co"
  by (auto simp: choose_host_def Let_def split: option.split)



subsection \<open>Acknowledgements\<close>

text \<open>
  Property C30. Acknowledgements between this client and this server. A message carries its number in the
  entries \<open>message-id\<close> and \<open>ack\<close>. With version 1.1 the client's \<open>ACK\<close> or \<open>NACK\<close> frame names that
  number and the server reads it. With version 1.2 the client's frame carries the number in \<open>id\<close>, as the protocol
  says, where the server does not look: it answers with an error and ends the connection.
\<close>

theorem ack_versions:
  assumes "msg_Header msg = Some h" and "msg_Subscription msg = Some sub" and "msg_Conn msg" and "cs_ackMode sub \<noteq> Mode_Auto"
    and "Header_Contains h MessageId = Some (FormatUint (unat n))" and "Header_Contains h AckHdr = Some (FormatUint (unat n))"
    and "cc_version c \<in> {V11, V12}" and "c_state v = Connected"
  shows "\<exists>f. createAckNackFrame c msg ack = Inr (Some f) \<and> Command f = (if ack then ACK else NACK) \<and>
    (if cc_version c = V11 then ack_message_id f = Inr n
     else ack_message_id f = Inl (missingHeader MessageId) \<and>
       (\<exists>v'. processLoop_turn quote cfg (SelRead (Some f)) v = Ret (False, v')))"
proof (cases "cc_version c = V11")
  case True
  let ?f = "mk_frame (if ack then ACK else NACK) [(SubscriptionHdr, cs_id sub), (MessageId, FormatUint (unat n))]"
  have "createAckNackFrame c msg ack = Inr (Some ?f)"
    using assms True by (auto simp: createAckNackFrame_def SupportsNack_def Let_def mk_frame_def Header_Add_def)
  moreover have "ParseUint (FormatUint (unat n)) 64 = Inr (unat n)"
    using unsigned_less [of n, where ?'a = nat] by (intro ParseUint_FormatUint) simp
  ultimately show ?thesis using True by (auto simp: ack_message_id_def)
next
  case False
  with assms(7) have v12: "cc_version c = V12" by simp
  let ?f = "mk_frame (if ack then ACK else NACK) [(IdHdr, FormatUint (unat n))]"
  have f: "createAckNackFrame c msg ack = Inr (Some ?f)"
    using assms v12 by (auto simp: createAckNackFrame_def SupportsNack_def Let_def mk_frame_def Header_Add_def)
  have m: "ack_message_id ?f = Inl (missingHeader MessageId)" by (simp add: ack_message_id_def)
  obtain b where p: "loop_prologue v = v\<lparr>c_timer := b\<rparr>" using prologue_timer by blast
  have "stateFunc cfg ?f (v\<lparr>c_timer := b\<rparr>) = Ret (Some (missingHeader MessageId), ?f, v\<lparr>c_timer := b\<rparr>)"
    using m assms(8)
    by (cases ack) (simp_all add: stateFunc_connected connected_def handleAck_def handleNack_def del: run_state.simps)
  then have "\<exists>v'. processLoop_turn quote cfg (SelRead (Some ?f)) v = Ret (False, v')"
    using p by (cases "c_validator v") (auto simp: processLoop_turn_def on_read_def Validate_def split: Validator.splits)
  with False f m show ?thesis by auto
qed

theorem ack_versions_witness:
  "\<exists>f v'. createAckNackFrame sample_client
      (frame_message (sample_sub\<lparr>cs_ackMode := Mode_Client\<rparr>) (mk_frame MESSAGE [(''message-id'', ''1''), (''ack'', ''1'')])) True =
        Inr (Some f) \<and> processLoop_turn id sample_cfg (SelRead (Some f)) connected_view = Ret (False, v')"
proof -
  let ?m = "frame_message (sample_sub\<lparr>cs_ackMode := Mode_Client\<rparr>) (mk_frame MESSAGE [(''message-id'', ''1''), (''ack'', ''1'')])"
  have one: "FormatUint (unat (1 :: 64 word)) = ''1''" by (simp add: FormatUint.simps)
  have v: "cc_version sample_client = V12" by (simp add: sample_client_def)
  show ?thesis
    using ack_versions [of ?m "Hdr (mk_frame MESSAGE [(''message-id'', ''1''), (''ack'', ''1'')])"
      "sample_sub\<lparr>cs_ackMode := Mode_Client\<rparr>" 1 sample_client connected_view True id sample_cfg] one v
    by (auto simp: frame_message_def simp del: processLoop.simps)
qed

subsection \<open>Transactions\<close>

text \<open>A user who sends the messages of a list (destination, content type, body) in one transaction.\<close>

fun send_all :: "ClientConn \<Rightarrow> ClientTx \<Rightarrow> (string \<times> string \<times> bytes) list \<Rightarrow> client_error option prog" where
  "send_all c tx [] = Return None"
| "send_all c tx ((dest, ctype, body) # ms) =
     bind (Tx_Send c tx dest ctype body []) (\<lambda>err.
       case err of Some e \<Rightarrow> Return (Some e) | None \<Rightarrow> send_all c tx ms)"

definition tx_session :: "ClientConn \<Rightarrow> (string \<times> string \<times> bytes) list \<Rightarrow> client_error option prog" where
  "tx_session c ms =
     bind (BeginWithError c) (\<lambda>(err, tx).
       case err of
         Some e \<Rightarrow> Return (Some e)
       | None \<Rightarrow>
           bind (send_all c tx ms) (\<lambda>err.
             case err of
               Some e \<Rightarrow> Return (Some e)
             | None \<Rightarrow> bind (Tx_commit c tx False) (\<lambda>(err, tx'). Return err)))"

text \<open>The frame of a message, as a \<open>SEND\<close> frame and as the queue gets it.\<close>

definition message_frame :: "string \<Rightarrow> string \<times> string \<times> bytes \<Rightarrow> Frame" where
  "message_frame cmd m =
     (case m of (dest, ctype, body) \<Rightarrow>
       (mk_frame cmd ([(ContentLength, FormatUint (length body)), (Destination, dest)] @
          (if ctype = [] then [] else [(ContentType, ctype)])))\<lparr>Body := body\<rparr>)"

definition in_transaction :: "string \<Rightarrow> Frame \<Rightarrow> Frame" where
  "in_transaction tx f = f\<lparr>Hdr := Header_Set (Hdr f) Transaction tx\<rparr>"

lemma createSendFrame_plain:
  "createSendFrame dest ctype body [] = Return (Inr (message_frame SEND (dest, ctype, body)))"
  by (simp add: createSendFrame_def Let_def message_frame_def mk_frame_def Header_Set_unpairs
      del: unpairs.simps unpairs_append)

lemma message_frame_lookup:
  "header_ok (Hdr (message_frame cmd m))" "Header_Contains (Hdr (message_frame cmd m)) Transaction = None"
  "Header_Contains (Hdr (message_frame cmd m)) Receipt = None" "Command (message_frame cmd m) = cmd"
  by (auto simp: message_frame_def split: prod.split)

lemma in_transaction_send: "tx_send tx (in_transaction tx (message_frame SEND m))"
  by (simp add: tx_send_def in_transaction_def message_frame_lookup hm.put_same)

lemma in_transaction_stripped:
  "(stripped (in_transaction tx (message_frame SEND m)))\<lparr>Command := MESSAGE\<rparr> = message_frame MESSAGE m"
proof -
  obtain dest ctype body where m: "m = (dest, ctype, body)" using prod_cases3 by blast
  let ?kvs = "[(ContentLength, FormatUint (length body)), (Destination, dest)] @ (if ctype = [] then [] else [(ContentType, ctype)])"
  have "Header_Del (Header_Del (Header_Set \<lparr>slice = unpairs ?kvs\<rparr> Transaction tx) Receipt) Transaction = \<lparr>slice = unpairs ?kvs\<rparr>"
    by (simp add: Header_Set_unpairs Header_Del_def del_loop_unpairs del: unpairs.simps unpairs_append)
  then show ?thesis
    by (simp add: m stripped_def in_transaction_def message_frame_def mk_frame_def del: unpairs.simps unpairs_append)
qed

lemma runs_sendFrame:
  assumes "idle S" and "Header_Contains (Hdr f) Receipt = None"
    and "runs t (q None) (queued \<lparr>req_Frame = f, req_C = None\<rparr> (counted S)) p' S'"
  shows "runs t (bind (sendFrame c f) q) S p' S'"
proof -
  let ?r = "\<lparr>req_Frame = f, req_C = None\<rparr>"
  from assms(1) have i: "sh_lock S = None" "\<not> sh_closed S" "\<not> sh_writeClosed S" "length (sh_writeCh S) < sh_writeCap S"
    by (simp_all add: idle_def)
  have c: "counted (S\<lparr>sh_lock := Some t\<rparr>) = (counted S)\<lparr>sh_lock := Some t\<rparr>" by (cases S) (simp add: counted_def)
  have "runs t (Unlock (q None)) ((queued ?r (counted S))\<lparr>sh_lock := Some t\<rparr>) p' S'"
    using assms(3) i(1) by (intro runs_actions(2)) (simp_all add: relock)
  then have "runs t (PutRequest ?r 0 (\<lambda>_. Unlock (q None))) (counted (S\<lparr>sh_lock := Some t\<rparr>)) p' S'"
    using i unfolding lock_out(3) [symmetric] c by (intro runs_actions(5)) (simp_all add: queued_def)
  then have "runs t (CountWrite (PutRequest ?r 0 (\<lambda>_. Unlock (q None)))) (S\<lparr>sh_lock := Some t\<rparr>) p' S'"
    by (rule runs_counted)
  with i assms(2) show ?thesis by (simp add: sendFrame_def runs_actions)
qed

text \<open>The state after a request: its frame is the last on the write channel, and there is one place less.\<close>

definition room :: "nat \<Rightarrow> Shared \<Rightarrow> bool" where
  "room n S \<longleftrightarrow> sh_lock S = None \<and> \<not> sh_closed S \<and> \<not> sh_writeClosed S \<and> length (sh_writeCh S) + n \<le> sh_writeCap S"

lemma room_idle: "room (Suc n) S \<Longrightarrow> idle S"
  by (simp add: room_def idle_def)

lemma room_queued:
  "room (Suc n) S \<Longrightarrow> room n (queued r (counted S))"
  "map req_Frame (sh_writeCh (queued r (counted S))) = map req_Frame (sh_writeCh S) @ [req_Frame r]"
  by (auto simp: room_def queued_def counted_def)

lemma runs_send_all:
  "room (length ms + k) S \<Longrightarrow> \<not> ct_completed tx \<Longrightarrow>
     (\<And>S'. room k S' \<Longrightarrow> map req_Frame (sh_writeCh S') = map req_Frame (sh_writeCh S) @
        map (\<lambda>m. in_transaction (ct_id tx) (message_frame SEND m)) ms \<Longrightarrow> \<exists>S2. runs t (q None) S' p' S2 \<and> P S2) \<Longrightarrow>
     \<exists>S2. runs t (bind (send_all c tx ms) q) S p' S2 \<and> P S2"
proof (induction ms arbitrary: S)
  case Nil
  then show ?case by simp
next
  case (Cons m ms)
  obtain dest ctype body where m: "m = (dest, ctype, body)" using prod_cases3 by blast
  let ?f = "in_transaction (ct_id tx) (message_frame SEND m)"
  let ?S = "queued \<lparr>req_Frame = ?f, req_C = None\<rparr> (counted S)"
  have room: "room (Suc (length ms + k)) S" using Cons.prems(1) by simp
  have "\<exists>S2. runs t (bind (send_all c tx ms) q) ?S p' S2 \<and> P S2"
    using Cons.prems(2,3) room_queued(1) [OF room]
    by (intro Cons.IH) (auto simp: room_queued(2))
  then obtain S2 where S2: "runs t (bind (send_all c tx ms) q) ?S p' S2" "P S2" by blast
  have "Header_Contains (Hdr ?f) Receipt = None"
    by (simp add: in_transaction_def message_frame_lookup hm.put_other)
  from runs_sendFrame [OF room_idle [OF room] this, where q = "\<lambda>err. bind (case err of Some e \<Rightarrow> Return (Some e) | None \<Rightarrow> send_all c tx ms) q"]
    S2(1) Cons.prems(2)
  have "runs t (bind (send_all c tx (m # ms)) q) S p' S2"
    by (simp add: m bind_assoc Tx_Send_def createSendFrame_plain in_transaction_def)
  with S2(2) show ?case by blast
qed

lemma bind_BeginWithError:
  "bind (BeginWithError c) q = AllocId (\<lambda>i.
     bind (sendFrame c (mk_frame BEGIN [(Transaction, i)])) (\<lambda>err. q (err, \<lparr>ct_id = i, ct_completed = False\<rparr>)))"
  by (simp add: BeginWithError_def bind_assoc)

lemma bind_Tx_commit:
  assumes "\<not> ct_completed tx"
  shows "bind (Tx_commit c tx False) q = bind (sendFrame c (mk_frame COMMIT [(Transaction, ct_id tx)])) (\<lambda>err.
     q (err, tx\<lparr>ct_completed := err = None\<rparr>))"
proof -
  have "(case err of None \<Rightarrow> Return (None, tx\<lparr>ct_completed := True\<rparr>) | Some e \<Rightarrow> Return (Some e, tx)) =
      Return (err, tx\<lparr>ct_completed := err = None\<rparr>)" for err :: "client_error option"
    using assms by (cases tx) (auto split: option.split)
  with assms show ?thesis by (simp add: Tx_commit_def finish_tx_def with_receipt_def bind_assoc)
qed

lemma no_receipt: "Header_Contains (Hdr (mk_frame cmd [(Transaction, i)])) Receipt = None"
  by simp

lemma runs_tx_session:
  assumes "room (length ms + 2) S" and "i = fst (allocateId (sh_lastId S))"
  shows "\<exists>S'. runs t (tx_session c ms) S (Return None) S' \<and>
    map req_Frame (sh_writeCh S') = map req_Frame (sh_writeCh S) @ mk_frame BEGIN [(Transaction, i)] #
      map (\<lambda>m. in_transaction i (message_frame SEND m)) ms @ [mk_frame COMMIT [(Transaction, i)]]"
proof -
  let ?S1 = "S\<lparr>sh_lastId := snd (allocateId (sh_lastId S))\<rparr>"
  let ?b = "mk_frame BEGIN [(Transaction, i)]" and ?c = "mk_frame COMMIT [(Transaction, i)]"
  let ?tx = "\<lparr>ct_id = i, ct_completed = False\<rparr>"
  define S2 where "S2 = queued \<lparr>req_Frame = ?b, req_C = None\<rparr> (counted ?S1)"
  define q where "q = (\<lambda>err. case err of Some e \<Rightarrow> Return (Some e)
    | None \<Rightarrow> bind (Tx_commit c ?tx False) (\<lambda>(err, tx'). Return err))"
  have r1: "room (Suc (length ms + 1)) ?S1" using assms(1) by (simp add: room_def)
  have r2: "room (length ms + 1) S2" "map req_Frame (sh_writeCh S2) = map req_Frame (sh_writeCh S) @ [?b]"
    using room_queued(1) [OF r1] by (simp_all add: S2_def room_queued(2))
  have "\<exists>S3. runs t (bind (send_all c ?tx ms) q) S2 (Return None) S3 \<and>
    map req_Frame (sh_writeCh S3) = map req_Frame (sh_writeCh S2) @ map (\<lambda>m. in_transaction i (message_frame SEND m)) ms @ [?c]"
  proof (rule runs_send_all [OF r2(1)])
    fix S' assume S': "room 1 S'" "map req_Frame (sh_writeCh S') = map req_Frame (sh_writeCh S2) @
        map (\<lambda>m. in_transaction (ct_id ?tx) (message_frame SEND m)) ms"
    let ?S3 = "queued \<lparr>req_Frame = ?c, req_C = None\<rparr> (counted S')"
    have "idle S'" using S'(1) by (intro room_idle [of 0]) simp
    then have "runs t (bind (sendFrame c ?c) Return) S' (Return None) ?S3"
      by (rule runs_sendFrame [OF _ no_receipt]) simp
    then have "runs t (q None) S' (Return None) ?S3"
      by (simp add: q_def bind_Tx_commit)
    with S'(2) show "\<exists>S3. runs t (q None) S' (Return None) S3 \<and> map req_Frame (sh_writeCh S3) =
        map req_Frame (sh_writeCh S2) @ map (\<lambda>m. in_transaction i (message_frame SEND m)) ms @ [?c]"
      by (intro exI [of _ ?S3]) (simp add: room_queued(2))
  qed simp
  then obtain S3 where S3: "runs t (bind (send_all c ?tx ms) q) S2 (Return None) S3"
    "map req_Frame (sh_writeCh S3) = map req_Frame (sh_writeCh S2) @ map (\<lambda>m. in_transaction i (message_frame SEND m)) ms @ [?c]"
    by blast
  have "runs t (bind (sendFrame c ?b) (\<lambda>err. case err of Some e \<Rightarrow> Return (Some e) | None \<Rightarrow> bind (send_all c ?tx ms) q))
      ?S1 (Return None) S3"
    using S3(1) by (intro runs_sendFrame [OF room_idle [OF r1] no_receipt]) (simp add: S2_def)
  then have "runs t (tx_session c ms) S (Return None) S3"
    unfolding tx_session_def bind_BeginWithError q_def assms(2) by (intro runs_actions(4)) simp
  with S3(2) r2(2) show ?thesis by (intro exI [of _ S3]) simp
qed



end
