(* ===== verification/Client_Dial.thy ===== *)
theory Client_Dial
  imports Client_Server
begin

section \<open>Dialling, and what a connection tells about itself: conn.go\<close>

text \<open>
  The functions that make the network connection before \<open>ConnectWithContext\<close>, with \<open>net.Dial\<close> as argument, and the accessors of a
  connected \<open>Conn\<close>. \<open>net.SplitHostPort\<close> of the standard library is written out, since the host that the client presents to the server depends
  on it.
\<close>

subsection \<open>Addresses\<close>

definition addr_error :: "string \<Rightarrow> string \<Rightarrow> string" where
  "addr_error addr why = (if addr \<noteq> [] then ''address '' @ addr @ '': '' @ why else why)"

text \<open>The text before and after the last colon.\<close>

definition after_last_colon :: "string \<Rightarrow> string" where
  "after_last_colon s = rev (takeWhile (\<lambda>c. c \<noteq> colon) (rev s))"

definition before_last_colon :: "string \<Rightarrow> string" where
  "before_last_colon s = take (length s - Suc (length (after_last_colon s))) s"

abbreviation openBracket :: char where "openBracket \<equiv> CHR ''[''"
abbreviation closeBracket :: char where "closeBracket \<equiv> CHR '']''"

definition SplitHostPort :: "string \<Rightarrow> string + string \<times> string" where
  "SplitHostPort hostport =
     (if colon \<notin> set hostport then Inl (addr_error hostport ''missing port in address'')
      else if hd hostport = openBracket
      then
        (let inner = takeWhile (\<lambda>c. c \<noteq> closeBracket) hostport;
             rest = drop (Suc (length inner)) hostport
         in if closeBracket \<notin> set hostport then Inl (addr_error hostport ''missing ']' in address'')
            else if rest = [] then Inl (addr_error hostport ''missing port in address'')
            else if Suc (length inner) \<noteq> length (before_last_colon hostport)
              then Inl (addr_error hostport (if hd rest = colon then ''too many colons in address'' else ''missing port in address''))
            else if openBracket \<in> set (tl hostport) then Inl (addr_error hostport ''unexpected '[' in address'')
            else if closeBracket \<in> set rest then Inl (addr_error hostport ''unexpected ']' in address'')
            else Inr (tl inner, after_last_colon hostport))
      else if colon \<in> set (before_last_colon hostport) then Inl (addr_error hostport ''too many colons in address'')
      else if openBracket \<in> set hostport then Inl (addr_error hostport ''unexpected '[' in address'')
      else if closeBracket \<in> set hostport then Inl (addr_error hostport ''unexpected ']' in address'')
      else Inr (before_last_colon hostport, after_last_colon hostport))"

text \<open>The form in which the network package prints the address of a connection.\<close>

definition JoinHostPort :: "string \<Rightarrow> string \<Rightarrow> string" where
  "JoinHostPort host port =
     (if colon \<in> set host then [openBracket] @ host @ [closeBracket, colon] @ port else host @ [colon] @ port)"

definition plain_text :: "string \<Rightarrow> bool" where
  "plain_text s \<longleftrightarrow> openBracket \<notin> set s \<and> closeBracket \<notin> set s"

lemma last_colon:
  assumes "colon \<notin> set p"
  shows "after_last_colon (h @ colon # p) = p" "before_last_colon (h @ colon # p) = h"
proof -
  have "takeWhile (\<lambda>c. c \<noteq> colon) (rev p @ colon # rev h) = rev p" using assms by (simp add: takeWhile_append)
  then show a: "after_last_colon (h @ colon # p) = p" by (simp add: after_last_colon_def)
  then show "before_last_colon (h @ colon # p) = h" by (simp add: before_last_colon_def)
qed

lemma SplitHostPort_Join:
  assumes "plain_text host" and "plain_text port" and "colon \<notin> set port"
  shows "SplitHostPort (JoinHostPort host port) = Inr (host, port)"
proof (cases "colon \<in> set host")
  case True
  let ?s = "openBracket # host @ closeBracket # colon # port"
  have "after_last_colon ?s = port" "before_last_colon ?s = openBracket # host @ [closeBracket]"
    using last_colon [OF assms(3), of "openBracket # host @ [closeBracket]"] by simp_all
  moreover have "takeWhile (\<lambda>c. c \<noteq> closeBracket) ?s = openBracket # host"
    using assms(1) by (simp add: plain_text_def takeWhile_tail takeWhile_append)
  ultimately show ?thesis using True assms by (simp add: SplitHostPort_def JoinHostPort_def plain_text_def Let_def)
next
  case False
  have "after_last_colon (host @ colon # port) = port" "before_last_colon (host @ colon # port) = host"
    using last_colon [OF assms(3)] by simp_all
  moreover have "hd (host @ colon # port) \<noteq> openBracket" using assms(1) by (cases host) (auto simp: plain_text_def)
  ultimately show ?thesis using False assms by (simp add: SplitHostPort_def JoinHostPort_def plain_text_def)
qed

subsection \<open>Dialling\<close>

text \<open>
  A network connection: the address of the other side, how much it takes before it fails, and what it delivers.
\<close>

record NetConn =
  nc_remote :: string
  nc_room :: "nat option"
  nc_fault :: go_error
  nc_end :: go_error
  nc_input :: stream

type_synonym dialled = "ClientConn \<times> Header option \<times> bufio_writer \<times> stream"

definition net_host :: "NetConn \<Rightarrow> string option" where
  "net_host nc = (case SplitHostPort (nc_remote nc) of Inl err \<Rightarrow> None | Inr (host, port) \<Rightarrow> Some host)"

definition Connect :: "(string \<Rightarrow> string) \<Rightarrow> NetConn \<Rightarrow> conn_opt option list \<Rightarrow> (client_error + dialled) go" where
  "Connect quote nc opts = ConnectWithContext quote opts (net_host nc) (nc_room nc) (nc_fault nc) (nc_end nc) (nc_input nc)"

text \<open>
  The calls of \<open>SetReadDeadline\<close> around the read of the response, when the context has a deadline: the deadline, and after a read
  without error no deadline.
\<close>

definition connect_deadlines :: "'t option \<Rightarrow> bool \<Rightarrow> bool \<Rightarrow> 't option list" where
  "connect_deadlines deadline isNetConn read_ok =
     (if deadline \<noteq> None \<and> isNetConn then [deadline] @ (if read_ok then [None] else []) else [])"

text \<open>The second result tells whether a network connection was made and, if so, whether \<open>Dial\<close> has closed it.\<close>

definition DialWithContext ::
    "(string \<Rightarrow> string) \<Rightarrow> (string \<Rightarrow> string \<Rightarrow> go_error + NetConn) \<Rightarrow> string \<Rightarrow> string \<Rightarrow> conn_opt option list \<Rightarrow>
      ((client_error + dialled) \<times> bool option) go" where
  "DialWithContext quote net_Dial network addr opts =
     (case net_Dial network addr of
        Inl err \<Rightarrow> Ret (Inl (IOErr err), None)
      | Inr nc \<Rightarrow>
          (case SplitHostPort (nc_remote nc) of
             Inl err \<Rightarrow> Ret (Inl (PlainErr err), Some True)
           | Inr (host, port) \<Rightarrow> go_bind (Connect quote nc (dial_opts host opts)) (\<lambda>r. Ret (r, Some False))))"

definition Dial ::
    "(string \<Rightarrow> string) \<Rightarrow> (string \<Rightarrow> string \<Rightarrow> go_error + NetConn) \<Rightarrow> string \<Rightarrow> string \<Rightarrow> conn_opt option list \<Rightarrow>
      ((client_error + dialled) \<times> bool option) go" where
  "Dial quote net_Dial network addr opts = DialWithContext quote net_Dial network addr opts"

lemma no_deadline_left: "last (None # connect_deadlines deadline isNetConn True) = None"
  by (simp add: connect_deadlines_def)

subsection \<open>Accessors\<close>

definition Conn_Version :: "ClientConn \<Rightarrow> string" where
  "Conn_Version c = cc_version c"

definition Conn_Session :: "ClientConn \<Rightarrow> string" where
  "Conn_Session c = cc_session c"

definition Conn_Server :: "ClientConn \<Rightarrow> string" where
  "Conn_Server c = cc_server c"

record ConnectionStats =
  CurrentWriteChanSize :: nat
  CurrentReadChanSize :: nat
  WritesSent :: int
  ReadsReceived :: int

text \<open>The counter of the reading goroutine is an argument; \<open>client_readLoop\<close> computes it.\<close>

definition Conn_Stats :: "int \<Rightarrow> World \<Rightarrow> ConnectionStats" where
  "Conn_Stats readsReceived w =
     \<lparr>CurrentWriteChanSize = length (sh_writeCh (wd_shared w)), CurrentReadChanSize = length (wd_readCh w),
      WritesSent = sh_writesSent (wd_shared w), ReadsReceived = readsReceived\<rparr>"

subsection \<open>Properties\<close>

lemma Dial_connects:
  assumes "net_Dial network addr = Inr nc" and "nc_remote nc = JoinHostPort host port" and "plain_text host" and "plain_text port"
    and "colon \<notin> set port"
  shows "Dial quote net_Dial network addr opts =
    go_bind (ConnectWithContext quote (dial_opts host opts) (Some host) (nc_room nc) (nc_fault nc) (nc_end nc) (nc_input nc))
      (\<lambda>r. Ret (r, Some False))"
  using assms by (simp add: Dial_def DialWithContext_def Connect_def net_host_def SplitHostPort_Join)

text \<open>With no options but those of \<open>Dial\<close>, the client presents the host that it has dialled, and never the name of a default.\<close>

lemma dialled_options:
  assumes "host \<noteq> []"
  shows "newConnOptions (dial_opts host []) =
      Inr (default_connOptions\<lparr>co_Host := host, co_AcceptVersions := [V10, V11, V12]\<rparr>, False)"
    "choose_host netHost (default_connOptions\<lparr>co_Host := host, co_AcceptVersions := [V10, V11, V12]\<rparr>) =
      default_connOptions\<lparr>co_Host := host, co_AcceptVersions := [V10, V11, V12]\<rparr>"
  using assms by (simp_all add: newConnOptions_def dial_opts_def ConnOpt_Host_def upd_options_def default_connOptions_def choose_host_def)

definition dial_frame :: "string \<Rightarrow> Frame" where
  "dial_frame host = mk_frame CONNECT
     [(Host, host), (HeartBeat, ''60000,60000''), (AcceptVersion, ''1.0,1.1,1.2'')]"

lemma dialled_frame:
  assumes "host \<noteq> []"
  shows "connOptions_NewFrame (default_connOptions\<lparr>co_Host := host, co_AcceptVersions := [V10, V11, V12]\<rparr>) = Ret (dial_frame host)"
proof -
  have "FormatInt (quot Minute Millisecond) = ''60000''" by (simp add: FormatInt_def quot_def FormatUint.simps)
  then show ?thesis
    using assms
    by (simp add: connOptions_NewFrame_def default_connOptions_def Header_AddHeader_def dial_frame_def mk_frame_def Header_Set_def
        Header_index_def Header_Add_def empty_header_def Let_def)
qed



subsection \<open>Statistics\<close>

definition channels_bounded :: "ClientConn \<Rightarrow> World \<Rightarrow> bool" where
  "channels_bounded c w \<longleftrightarrow>
     length (sh_writeCh (wd_shared w)) \<le> cc_writeCapacity c \<and> sh_writeCap (wd_shared w) = cc_writeCapacity c \<and>
     length (wd_readCh w) \<le> cc_readCapacity c \<and> sh_statsEnabled (wd_shared w) = cc_statsEnabled c \<and>
     (\<not> cc_statsEnabled c \<longrightarrow> sh_writesSent (wd_shared w) = 0)"

lemma fire_bounded:
  "fire t ce p S = Some (p', S') \<Longrightarrow>
     sh_writeCap S' = sh_writeCap S \<and> sh_statsEnabled S' = sh_statsEnabled S \<and>
     (length (sh_writeCh S) \<le> sh_writeCap S \<longrightarrow> length (sh_writeCh S') \<le> sh_writeCap S) \<and>
     (\<not> sh_statsEnabled S \<longrightarrow> sh_writesSent S' = sh_writesSent S)"
  by (cases "(t, ce, p, S)" rule: fire.cases)
     (auto simp: upd_sub_def Let_def split: if_splits option.splits list.splits once.splits prod.splits)

lemma take_event_bounded:
  "take_event c l ev w = Some w' \<Longrightarrow> channels_bounded c w \<Longrightarrow> channels_bounded c w'"
  by (cases ev) (auto simp: channels_bounded_def split: if_splits list.splits)

lemma set_thread_bounded [simp]: "channels_bounded c (set_thread t p w) = channels_bounded c w"
  by (simp add: channels_bounded_def)

lemma client_step_bounded:
  assumes "client_step quote c w w'" and "channels_bounded c w"
  shows "channels_bounded c w'"
  using assms
proof cases
  case (act t p ce p' S)
  with fire_bounded [OF act(4)] assms(2) show ?thesis by (auto simp: channels_bounded_def)
next
  case (loop_turn t l order ev w'')
  with take_event_bounded [OF loop_turn(5) assms(2)] show ?thesis by simp
qed (auto simp: channels_bounded_def)

lemma reachable_bounded: "reachable quote c w \<Longrightarrow> channels_bounded c w"
proof (induction rule: reachable.induct)
  case (start wr n)
  show ?case by (simp add: channels_bounded_def start_world_def start_shared_def)
next
  case (step w w')
  then show ?case by (simp add: client_step_bounded)
qed

lemma stats_bounded:
  assumes "reachable quote c w"
  shows "CurrentWriteChanSize (Conn_Stats n w) \<le> cc_writeCapacity c \<and> CurrentReadChanSize (Conn_Stats n w) \<le> cc_readCapacity c \<and>
    (\<not> cc_statsEnabled c \<longrightarrow> WritesSent (Conn_Stats n w) = 0)"
  using reachable_bounded [OF assms] by (auto simp: channels_bounded_def Conn_Stats_def)

end
