(* ===== verification/Server_Queue.thy ===== *)
theory Server_Queue
  imports Server_Subscription "HOL-Library.Multiset"
begin

section \<open>Queues: server/queue/queue.go, manager.go, memory_queue.go, storage.go\<close>

text \<open>
  A queue keeps the subscriptions that wait for a message; the messages themselves are in a
  \<open>Storage\<close>, an interface that the user of the server may implement. The interface is a record
  of operations on a storage state \<open>'q\<close>, and the locale \<open>queue_storage\<close> states what a queue
  relies on. The in-memory storage of the repository is an interpretation of it.
\<close>

subsection \<open>Storage\<close>

record 'q Storage =
  st_Enqueue :: "string \<Rightarrow> Frame \<Rightarrow> 'q \<Rightarrow> (go_error option \<times> 'q) go"
  st_Requeue :: "string \<Rightarrow> Frame \<Rightarrow> 'q \<Rightarrow> (go_error option \<times> 'q) go"
  st_Dequeue :: "string \<Rightarrow> 'q \<Rightarrow> ((go_error + Frame option) \<times> 'q) go"
  st_Start :: "'q \<Rightarrow> 'q"
  st_Stop :: "'q \<Rightarrow> 'q"

text \<open>
  \<open>MemoryQueueStorage\<close>: a map from queue names to lists, nil after \<open>Stop\<close>. Reading a nil map
  finds nothing, assigning to it panics.
\<close>

record MemoryQueueStorage =
  lists :: "(string \<rightharpoonup> Frame list) option"

definition NewMemoryQueueStorage :: MemoryQueueStorage where
  "NewMemoryQueueStorage = \<lparr>lists = Some Map.empty\<rparr>"

definition lists_get :: "MemoryQueueStorage \<Rightarrow> string \<Rightarrow> Frame list option" where
  "lists_get m queue = (case lists m of None \<Rightarrow> None | Some ls \<Rightarrow> ls queue)"

definition lists_set :: "string \<Rightarrow> Frame list \<Rightarrow> MemoryQueueStorage \<Rightarrow> MemoryQueueStorage go" where
  "lists_set queue l m =
     (case lists m of
        None \<Rightarrow> Panic ''assignment to entry in nil map''
      | Some ls \<Rightarrow> Ret (m\<lparr>lists := Some (ls(queue \<mapsto> l))\<rparr>))"

definition mem_Enqueue ::
    "string \<Rightarrow> Frame \<Rightarrow> MemoryQueueStorage \<Rightarrow> (go_error option \<times> MemoryQueueStorage) go" where
  "mem_Enqueue queue f m =
     (let l = (case lists_get m queue of Some l \<Rightarrow> l | None \<Rightarrow> [])
      in go_bind (lists_set queue (l @ [f]) m) (\<lambda>m'. Ret (None, m')))"

definition mem_Requeue ::
    "string \<Rightarrow> Frame \<Rightarrow> MemoryQueueStorage \<Rightarrow> (go_error option \<times> MemoryQueueStorage) go" where
  "mem_Requeue queue f m =
     (let l = (case lists_get m queue of Some l \<Rightarrow> l | None \<Rightarrow> [])
      in go_bind (lists_set queue (f # l) m) (\<lambda>m'. Ret (None, m')))"

definition mem_Dequeue ::
    "string \<Rightarrow> MemoryQueueStorage \<Rightarrow> ((go_error + Frame option) \<times> MemoryQueueStorage) go" where
  "mem_Dequeue queue m =
     (case lists_get m queue of
        None \<Rightarrow> Ret (Inr None, m)
      | Some [] \<Rightarrow> Ret (Inr None, m)
      | Some (f # l) \<Rightarrow> go_bind (lists_set queue l m) (\<lambda>m'. Ret (Inr (Some f), m')))"

definition mem_Start :: "MemoryQueueStorage \<Rightarrow> MemoryQueueStorage" where
  "mem_Start m = m\<lparr>lists := Some Map.empty\<rparr>"

definition mem_Stop :: "MemoryQueueStorage \<Rightarrow> MemoryQueueStorage" where
  "mem_Stop m = m\<lparr>lists := None\<rparr>"

definition memory_storage :: "MemoryQueueStorage Storage" where
  "memory_storage =
     \<lparr>st_Enqueue = mem_Enqueue, st_Requeue = mem_Requeue, st_Dequeue = mem_Dequeue,
      st_Start = mem_Start, st_Stop = mem_Stop\<rparr>"

subsection \<open>A queue\<close>

record Queue =
  q_destination :: string
  q_subs :: "sub_ref list"

text \<open>What an operation of a queue works on; deliveries are appended in order.\<close>

record 'q QState =
  qs_queue :: Queue
  qs_storage :: 'q
  qs_store :: sub_store
  qs_out :: "Delivery list"

definition newQueue :: "string \<Rightarrow> Queue" where
  "newQueue destination = \<lparr>q_destination = destination, q_subs = []\<rparr>"

definition queue_send :: "sub_ref \<Rightarrow> Frame \<Rightarrow> 'q QState \<Rightarrow> 'q QState go" where
  "queue_send s f qs =
     go_bind (SendQueueFrame s f (qs_store qs))
       (\<lambda>(st, d). Ret (qs\<lparr>qs_store := st, qs_out := qs_out qs @ [d]\<rparr>))"

definition Queue_Subscribe :: "'q Storage \<Rightarrow> sub_ref \<Rightarrow> 'q QState \<Rightarrow> (go_error option \<times> 'q QState) go" where
  "Queue_Subscribe S s qs =
     go_bind (st_Dequeue S (sub_dest (qs_store qs s)) (qs_storage qs))
       (\<lambda>(r, q'). case r of
            Inl err \<Rightarrow> Ret (Some err, qs\<lparr>qs_storage := q'\<rparr>)
          | Inr None \<Rightarrow>
              go_bind (SL_Add (QueueList (q_destination (qs_queue qs))) s (q_subs (qs_queue qs)) (qs_store qs))
                (\<lambda>(subs, st).
                   Ret (None, qs\<lparr>qs_storage := q', qs_store := st, qs_queue := (qs_queue qs)\<lparr>q_subs := subs\<rparr>\<rparr>))
          | Inr (Some f) \<Rightarrow>
              go_bind (queue_send s f (qs\<lparr>qs_storage := q'\<rparr>)) (\<lambda>qs'. Ret (None, qs')))"

definition Queue_Unsubscribe :: "sub_ref \<Rightarrow> 'q QState \<Rightarrow> 'q QState" where
  "Queue_Unsubscribe s qs =
     (let (subs, st) = SL_Remove s (q_subs (qs_queue qs)) (qs_store qs)
      in qs\<lparr>qs_store := st, qs_queue := (qs_queue qs)\<lparr>q_subs := subs\<rparr>\<rparr>)"

definition Queue_Enqueue :: "'q Storage \<Rightarrow> Frame \<Rightarrow> 'q QState \<Rightarrow> (go_error option \<times> 'q QState) go" where
  "Queue_Enqueue S f qs =
     (case SL_Get (q_subs (qs_queue qs)) (qs_store qs) of
        (None, subs, st) \<Rightarrow>
          go_bind (st_Enqueue S (q_destination (qs_queue qs)) f (qs_storage qs))
            (\<lambda>(err, q'). Ret (err, qs\<lparr>qs_storage := q'\<rparr>))
      | (Some s, subs, st) \<Rightarrow>
          go_bind (queue_send s f (qs\<lparr>qs_store := st, qs_queue := (qs_queue qs)\<lparr>q_subs := subs\<rparr>\<rparr>))
            (\<lambda>qs'. Ret (None, qs')))"

definition Queue_Requeue :: "'q Storage \<Rightarrow> Frame \<Rightarrow> 'q QState \<Rightarrow> (go_error option \<times> 'q QState) go" where
  "Queue_Requeue S f qs =
     (case SL_Get (q_subs (qs_queue qs)) (qs_store qs) of
        (None, subs, st) \<Rightarrow>
          go_bind (st_Requeue S (q_destination (qs_queue qs)) f (qs_storage qs))
            (\<lambda>(err, q'). Ret (err, qs\<lparr>qs_storage := q'\<rparr>))
      | (Some s, subs, st) \<Rightarrow>
          go_bind (queue_send s f (qs\<lparr>qs_store := st, qs_queue := (qs_queue qs)\<lparr>q_subs := subs\<rparr>\<rparr>))
            (\<lambda>qs'. Ret (None, qs')))"

subsection \<open>The manager\<close>

type_synonym queue_manager = "string \<rightharpoonup> Queue"

definition qm_Find :: "string \<Rightarrow> queue_manager \<Rightarrow> Queue \<times> queue_manager" where
  "qm_Find destination qm =
     (case qm destination of
        Some q \<Rightarrow> (q, qm)
      | None \<Rightarrow> (newQueue destination, qm(destination \<mapsto> newQueue destination)))"

subsection \<open>The contract of a storage\<close>

text \<open>
  A storage is, for each name, a list: \<open>Enqueue\<close> adds at the end, \<open>Requeue\<close> at the front,
  \<open>Dequeue\<close> takes the first or finds none; no operation on one name touches another. The
  contract is about storages that do not fail.
\<close>

locale queue_storage =
  fixes S :: "'q Storage"
    and contents :: "'q \<Rightarrow> string \<Rightarrow> Frame list"
    and started :: "'q \<Rightarrow> bool"
  assumes enqueue: "started q \<Longrightarrow> \<exists>q'. st_Enqueue S d f q = Ret (None, q') \<and> started q' \<and>
      contents q' = (contents q)(d := contents q d @ [f])"
    and requeue: "started q \<Longrightarrow> \<exists>q'. st_Requeue S d f q = Ret (None, q') \<and> started q' \<and>
      contents q' = (contents q)(d := f # contents q d)"
    and dequeue: "started q \<Longrightarrow> \<exists>q'. st_Dequeue S d q =
        Ret (Inr (case contents q d of [] \<Rightarrow> None | f # l \<Rightarrow> Some f), q') \<and> started q' \<and>
      contents q' = (contents q)(d := tl (contents q d))"

definition mem_contents :: "MemoryQueueStorage \<Rightarrow> string \<Rightarrow> Frame list" where
  "mem_contents m d = (case lists_get m d of None \<Rightarrow> [] | Some l \<Rightarrow> l)"

definition mem_started :: "MemoryQueueStorage \<Rightarrow> bool" where
  "mem_started m \<longleftrightarrow> lists m \<noteq> None"

lemma lists_set_started:
  assumes "mem_started m"
  shows "\<exists>m'. lists_set queue l m = Ret m' \<and> mem_started m' \<and> mem_contents m' = (mem_contents m)(queue := l)"
proof -
  from assms obtain ls where "lists m = Some ls" by (auto simp: mem_started_def)
  then show ?thesis by (auto simp: mem_started_def lists_set_def mem_contents_def lists_get_def)
qed

lemma mem_Enqueue_contents: "mem_Enqueue d f m = go_bind (lists_set d (mem_contents m d @ [f]) m) (\<lambda>m'. Ret (None, m'))"
  by (simp add: mem_Enqueue_def mem_contents_def split: option.split)

lemma mem_Requeue_contents: "mem_Requeue d f m = go_bind (lists_set d (f # mem_contents m d) m) (\<lambda>m'. Ret (None, m'))"
  by (simp add: mem_Requeue_def mem_contents_def split: option.split)

interpretation mem: queue_storage memory_storage mem_contents mem_started
proof
  fix m d f
  assume m: "mem_started m"
  show "\<exists>q'. st_Enqueue memory_storage d f m = Ret (None, q') \<and> mem_started q' \<and>
      mem_contents q' = (mem_contents m)(d := mem_contents m d @ [f])"
    using lists_set_started [OF m, of d "mem_contents m d @ [f]"]
    by (auto simp: memory_storage_def mem_Enqueue_contents)
  show "\<exists>q'. st_Requeue memory_storage d f m = Ret (None, q') \<and> mem_started q' \<and>
      mem_contents q' = (mem_contents m)(d := f # mem_contents m d)"
    using lists_set_started [OF m, of d "f # mem_contents m d"]
    by (auto simp: memory_storage_def mem_Requeue_contents)
next
  fix m d
  assume m: "mem_started m"
  show "\<exists>q'. st_Dequeue memory_storage d m =
        Ret (Inr (case mem_contents m d of [] \<Rightarrow> None | f # l \<Rightarrow> Some f), q') \<and> mem_started q' \<and>
      mem_contents q' = (mem_contents m)(d := tl (mem_contents m d))"
  proof (cases "mem_contents m d")
    case Nil
    then have "mem_Dequeue d m = Ret (Inr None, m)"
      by (auto simp: mem_Dequeue_def mem_contents_def split: option.splits)
    with Nil m show ?thesis by (simp add: memory_storage_def fun_upd_idem)
  next
    case (Cons f l)
    then have "mem_Dequeue d m = go_bind (lists_set d l m) (\<lambda>m'. Ret (Inr (Some f), m'))"
      by (auto simp: mem_Dequeue_def mem_contents_def split: option.splits)
    with Cons lists_set_started [OF m, of d l] show ?thesis by (auto simp: memory_storage_def)
  qed
qed

subsection \<open>Histories of a queue\<close>

text \<open>
  What happens to a queue, as a sequence: the four operations, and the connection taking the
  frame of a subscription (\<open>sub.frame = nil\<close>) before it asks for the next one.
\<close>

datatype queue_op =
    QSubscribe sub_ref
  | QUnsubscribe sub_ref
  | QEnqueue Frame
  | QRequeue Frame
  | QTake sub_ref

fun queue_apply :: "'q Storage \<Rightarrow> queue_op \<Rightarrow> 'q QState \<Rightarrow> (go_error option \<times> 'q QState) go" where
  "queue_apply S (QSubscribe s) qs = Queue_Subscribe S s qs"
| "queue_apply S (QUnsubscribe s) qs = Ret (None, Queue_Unsubscribe s qs)"
| "queue_apply S (QEnqueue f) qs = Queue_Enqueue S f qs"
| "queue_apply S (QRequeue f) qs = Queue_Requeue S f qs"
| "queue_apply S (QTake s) qs =
     Ret (None, qs\<lparr>qs_store := (qs_store qs)(s := (qs_store qs s)\<lparr>sub_frame := None\<rparr>)\<rparr>)"

text \<open>The frames a step has handed out: the subscription and the frame it then holds.\<close>

fun delivered :: "sub_store \<Rightarrow> Delivery list \<Rightarrow> (sub_ref \<times> Frame option) list" where
  "delivered st [] = []"
| "delivered st (ToSubChannel c s # ds) = (s, sub_frame (st s)) # delivered st ds"
| "delivered st (ToWriteChannel c f # ds) = delivered st ds"

text \<open>A history with what it delivers; a panic or an error of the storage ends it.\<close>

fun queue_run :: "'q Storage \<Rightarrow> queue_op list \<Rightarrow> 'q QState \<Rightarrow> ((sub_ref \<times> Frame option) list \<times> 'q QState) option" where
  "queue_run S [] qs = Some ([], qs)"
| "queue_run S (op # ops) qs =
     (case queue_apply S op (qs\<lparr>qs_out := []\<rparr>) of
        Ret (None, qs') \<Rightarrow>
          (case queue_run S ops qs' of
             Some (ds, qs'') \<Rightarrow> Some (delivered (qs_store qs') (qs_out qs') @ ds, qs'')
           | None \<Rightarrow> None)
      | _ \<Rightarrow> None)"

text \<open>
  The discipline of the callers: a subscription asks for a frame on its own destination, when
  it holds none and is in no list.
\<close>

fun queue_legal :: "queue_op \<Rightarrow> 'q QState \<Rightarrow> bool" where
  "queue_legal (QSubscribe s) qs =
     (let sub = qs_store qs s
      in sub_dest sub = q_destination (qs_queue qs) \<and> sub_frame sub = None \<and> sub_subList sub = None)"
| "queue_legal _ qs = True"

fun legal_run :: "'q Storage \<Rightarrow> queue_op list \<Rightarrow> 'q QState \<Rightarrow> bool" where
  "legal_run S [] qs = True"
| "legal_run S (op # ops) qs =
     (queue_legal op qs \<and>
      (case queue_apply S op (qs\<lparr>qs_out := []\<rparr>) of Ret (err, qs') \<Rightarrow> legal_run S ops qs' | Panic m \<Rightarrow> True))"

definition with_sub :: "sub_store \<Rightarrow> sub_ref \<Rightarrow> Frame \<Rightarrow> Frame" where
  "with_sub st s f = f\<lparr>Hdr := Header_Set (Hdr f) SubscriptionHdr (sub_id (st s))\<rparr>"

fun enqueued :: "queue_op list \<Rightarrow> Frame list" where
  "enqueued [] = []"
| "enqueued (QEnqueue f # ops) = f # enqueued ops"
| "enqueued (_ # ops) = enqueued ops"

fun requeued :: "queue_op list \<Rightarrow> Frame list" where
  "requeued [] = []"
| "requeued (QRequeue f # ops) = f # requeued ops"
| "requeued (_ # ops) = requeued ops"

text \<open>
  The invariant of a queue: no subscription waits while there is a message, and the ones that
  wait are free to take one.
\<close>

definition queue_inv :: "('q \<Rightarrow> string \<Rightarrow> Frame list) \<Rightarrow> ('q \<Rightarrow> bool) \<Rightarrow> 'q QState \<Rightarrow> bool" where
  "queue_inv contents started qs \<longleftrightarrow>
     started (qs_storage qs) \<and>
     list_inv (QueueList (q_destination (qs_queue qs))) (q_subs (qs_queue qs)) (qs_store qs) \<and>
     (\<forall>s \<in> set (q_subs (qs_queue qs)).
        sub_frame (qs_store qs s) = None \<and> sub_dest (qs_store qs s) = q_destination (qs_queue qs)) \<and>
     (q_subs (qs_queue qs) \<noteq> [] \<longrightarrow> contents (qs_storage qs) (q_destination (qs_queue qs)) = [])"

text \<open>
  What one step does to the messages: \<open>pending\<close> is the content of the queue, \<open>outs\<close> the
  messages handed out. \<open>Enqueue\<close> adds behind, \<open>Requeue\<close> in front, and what is handed out
  comes from the front.
\<close>

fun op_pending :: "queue_op \<Rightarrow> Frame list \<Rightarrow> Frame list" where
  "op_pending (QEnqueue f) l = l @ [f]"
| "op_pending (QRequeue f) l = f # l"
| "op_pending _ l = l"

definition step_ok :: "('q \<Rightarrow> string \<Rightarrow> Frame list) \<Rightarrow> ('q \<Rightarrow> bool) \<Rightarrow> queue_op \<Rightarrow> 'q QState \<Rightarrow> 'q QState \<Rightarrow>
    (sub_ref \<times> Frame) list \<Rightarrow> bool" where
  "step_ok contents started op qs qs' outs \<longleftrightarrow>
     queue_inv contents started qs' \<and>
     q_destination (qs_queue qs') = q_destination (qs_queue qs) \<and>
     (\<forall>s. sub_id (qs_store qs' s) = sub_id (qs_store qs s) \<and> sub_dest (qs_store qs' s) = sub_dest (qs_store qs s) \<and>
        (sub_frame (qs_store qs' s) = None \<or> qs_store qs' s = qs_store qs s \<or>
           sub_dest (qs_store qs s) = q_destination (qs_queue qs)) \<and>
        (sub_subList (qs_store qs s) \<in> {None, Some (QueueList (q_destination (qs_queue qs)))} \<or>
           sub_subList (qs_store qs' s) = sub_subList (qs_store qs s))) \<and>
     delivered (qs_store qs') (qs_out qs') = map (\<lambda>(s, f). (s, Some (with_sub (qs_store qs) s f))) outs \<and>
     map snd outs @ contents (qs_storage qs') (q_destination (qs_queue qs)) =
       op_pending op (contents (qs_storage qs) (q_destination (qs_queue qs))) \<and>
     (\<forall>d. d \<noteq> q_destination (qs_queue qs) \<longrightarrow> contents (qs_storage qs') d = contents (qs_storage qs) d)"

lemma with_sub_cong: "sub_id (st s) = sub_id (st' s) \<Longrightarrow> with_sub st s f = with_sub st' s f"
  by (simp add: with_sub_def)

lemma queue_send_Ret:
  assumes "sub_frame (qs_store qs s) = None"
  shows "queue_send s f qs =
    Ret (qs\<lparr>qs_store := (qs_store qs)(s := (qs_store qs s)\<lparr>sub_frame := Some (with_sub (qs_store qs) s f)\<rparr>),
            qs_out := qs_out qs @ [ToSubChannel (sub_conn (qs_store qs s)) s]\<rparr>)"
  using assms by (simp add: queue_send_def SendQueueFrame_def setSubscriptionHeader_def with_sub_def)

lemma queue_inv_out [simp]: "queue_inv contents started (qs\<lparr>qs_out := ds\<rparr>) = queue_inv contents started qs"
  by (simp add: queue_inv_def)

lemma queue_legal_out [simp]: "queue_legal op (qs\<lparr>qs_out := ds\<rparr>) = queue_legal op qs"
  by (cases op) simp_all

text \<open>Deliveries are only appended, and what was there before does not matter.\<close>

lemma queue_apply_out:
  "queue_apply S op qs =
     (case queue_apply S op (qs\<lparr>qs_out := []\<rparr>) of
        Ret (e, qs') \<Rightarrow> Ret (e, qs'\<lparr>qs_out := qs_out qs @ qs_out qs'\<rparr>) | Panic m \<Rightarrow> Panic m)"
  by (cases op)
     (auto simp: Queue_Subscribe_def Queue_Unsubscribe_def Queue_Enqueue_def Queue_Requeue_def queue_send_def
       go_bind_def split: go.splits sum.splits option.splits prod.splits)

subsection \<open>A queue over any storage\<close>

context queue_storage
begin

lemma subscribe_step:
  assumes inv: "queue_inv contents started qs" and legal: "queue_legal (QSubscribe s) qs" and out: "qs_out qs = []"
  shows "\<exists>qs' outs. Queue_Subscribe S s qs = Ret (None, qs') \<and> step_ok contents started (QSubscribe s) qs qs' outs"
proof -
  let ?d = "q_destination (qs_queue qs)" and ?q = "qs_storage qs"
  from inv have st: "started ?q" by (simp add: queue_inv_def)
  from legal have leg: "sub_dest (qs_store qs s) = ?d" "sub_frame (qs_store qs s) = None"
    "sub_subList (qs_store qs s) = None" by (simp_all add: Let_def)
  obtain q' where q': "st_Dequeue S ?d ?q = Ret (Inr (case contents ?q ?d of [] \<Rightarrow> None | f # l \<Rightarrow> Some f), q')"
    "started q'" "contents q' = (contents ?q)(?d := tl (contents ?q ?d))"
    using dequeue [OF st] by blast
  show ?thesis
  proof (cases "contents ?q ?d")
    case Nil
    define qs' where "qs' = qs\<lparr>qs_storage := q',
        qs_store := (qs_store qs)(s := (qs_store qs s)\<lparr>sub_subList := Some (QueueList ?d)\<rparr>),
        qs_queue := (qs_queue qs)\<lparr>q_subs := q_subs (qs_queue qs) @ [s]\<rparr>\<rparr>"
    have "Queue_Subscribe S s qs = Ret (None, qs')"
      using q' leg Nil by (simp add: Queue_Subscribe_def SL_Add_def qs'_def)
    moreover have "step_ok contents started (QSubscribe s) qs qs' []"
      using inv q' leg out Nil by (auto simp: step_ok_def qs'_def queue_inv_def list_inv_def)
    ultimately show ?thesis by blast
  next
    case (Cons f l)
    define qs' where "qs' = qs\<lparr>qs_storage := q',
        qs_store := (qs_store qs)(s := (qs_store qs s)\<lparr>sub_frame := Some (with_sub (qs_store qs) s f)\<rparr>),
        qs_out := [ToSubChannel (sub_conn (qs_store qs s)) s]\<rparr>"
    have "Queue_Subscribe S s qs = Ret (None, qs')"
      using q' leg out Cons by (simp add: Queue_Subscribe_def queue_send_Ret qs'_def)
    moreover have "q_subs (qs_queue qs) = []" using inv Cons by (auto simp: queue_inv_def)
    then have "step_ok contents started (QSubscribe s) qs qs' [(s, f)]"
      using inv q' leg Cons by (auto simp: step_ok_def qs'_def queue_inv_def list_inv_def)
    ultimately show ?thesis by blast
  qed
qed

lemma subscribe_panics:
  assumes "started (qs_storage qs)"
  shows "panics (Queue_Subscribe S s qs) =
    (if contents (qs_storage qs) (sub_dest (qs_store qs s)) = [] then sub_subList (qs_store qs s) \<noteq> None
     else sub_frame (qs_store qs s) \<noteq> None)"
  using dequeue [OF assms, of "sub_dest (qs_store qs s)"]
  by (auto simp: Queue_Subscribe_def SL_Add_def queue_send_def SendQueueFrame_def setSubscriptionHeader_def
      split: list.splits if_splits)

lemma waiting_step:
  assumes inv: "queue_inv contents started qs" and out: "qs_out qs = []" and subs: "q_subs (qs_queue qs) = s # rest"
    and op: "op = QEnqueue f \<or> op = QRequeue f"
  shows "\<exists>qs' outs. go_bind (queue_send s f (qs\<lparr>qs_store := (qs_store qs)(s := (qs_store qs s)\<lparr>sub_subList := None\<rparr>),
             qs_queue := (qs_queue qs)\<lparr>q_subs := rest\<rparr>\<rparr>)) (\<lambda>qs'. Ret (None, qs')) = Ret (None, qs') \<and>
           step_ok contents started op qs qs' outs"
proof -
  let ?qs1 = "qs\<lparr>qs_store := (qs_store qs)(s := (qs_store qs s)\<lparr>sub_subList := None\<rparr>),
      qs_queue := (qs_queue qs)\<lparr>q_subs := rest\<rparr>\<rparr>"
  from inv subs have none: "sub_frame (qs_store ?qs1 s) = None" by (simp add: queue_inv_def)
  obtain qs' where qs': "queue_send s f ?qs1 = Ret qs'" by (simp add: queue_send_Ret [OF none])
  then have "qs' = ?qs1\<lparr>qs_store := (qs_store ?qs1)(s := (qs_store ?qs1 s)\<lparr>sub_frame := Some (with_sub (qs_store ?qs1) s f)\<rparr>),
      qs_out := qs_out ?qs1 @ [ToSubChannel (sub_conn (qs_store ?qs1 s)) s]\<rparr>"
    by (simp add: queue_send_Ret [OF none])
  then have "step_ok contents started op qs qs' [(s, f)]"
    using inv subs out op by (auto simp: step_ok_def queue_inv_def list_inv_def with_sub_def)
  with qs' show ?thesis by auto
qed

lemma enqueue_step:
  assumes inv: "queue_inv contents started qs" and out: "qs_out qs = []"
  shows "\<exists>qs' outs. Queue_Enqueue S f qs = Ret (None, qs') \<and> step_ok contents started (QEnqueue f) qs qs' outs"
proof (cases "q_subs (qs_queue qs)")
  case Nil
  let ?d = "q_destination (qs_queue qs)" and ?q = "qs_storage qs"
  from inv have "started ?q" by (simp add: queue_inv_def)
  from enqueue [OF this] obtain q' where q': "st_Enqueue S ?d f ?q = Ret (None, q')" "started q'"
    "contents q' = (contents ?q)(?d := contents ?q ?d @ [f])" by blast
  then have "step_ok contents started (QEnqueue f) qs (qs\<lparr>qs_storage := q'\<rparr>) []"
    using inv out Nil by (auto simp: step_ok_def queue_inv_def)
  with q' Nil show ?thesis by (auto simp: Queue_Enqueue_def SL_Get_def)
next
  case (Cons s rest)
  from waiting_step [OF inv out Cons, of "QEnqueue f"] Cons show ?thesis
    by (simp add: Queue_Enqueue_def SL_Get_def)
qed

lemma requeue_step:
  assumes inv: "queue_inv contents started qs" and out: "qs_out qs = []"
  shows "\<exists>qs' outs. Queue_Requeue S f qs = Ret (None, qs') \<and> step_ok contents started (QRequeue f) qs qs' outs"
proof (cases "q_subs (qs_queue qs)")
  case Nil
  let ?d = "q_destination (qs_queue qs)" and ?q = "qs_storage qs"
  from inv have "started ?q" by (simp add: queue_inv_def)
  from requeue [OF this] obtain q' where q': "st_Requeue S ?d f ?q = Ret (None, q')" "started q'"
    "contents q' = (contents ?q)(?d := f # contents ?q ?d)" by blast
  then have "step_ok contents started (QRequeue f) qs (qs\<lparr>qs_storage := q'\<rparr>) []"
    using inv out Nil by (auto simp: step_ok_def queue_inv_def)
  with q' Nil show ?thesis by (auto simp: Queue_Requeue_def SL_Get_def)
next
  case (Cons s rest)
  from waiting_step [OF inv out Cons, of "QRequeue f"] Cons show ?thesis
    by (simp add: Queue_Requeue_def SL_Get_def)
qed

lemma apply_step:
  assumes inv: "queue_inv contents started qs" and legal: "queue_legal op qs" and out: "qs_out qs = []"
  shows "\<exists>qs' outs. queue_apply S op qs = Ret (None, qs') \<and> step_ok contents started op qs qs' outs"
proof (cases op)
  case (QSubscribe s)
  with subscribe_step [OF inv _ out] legal show ?thesis by simp
next
  case (QUnsubscribe s)
  have "step_ok contents started op qs (Queue_Unsubscribe s qs) []"
    using inv out QUnsubscribe
    by (auto simp: step_ok_def Queue_Unsubscribe_def SL_Remove_remove1 queue_inv_def list_inv_def
        dest: notin_set_remove1)
  with QUnsubscribe show ?thesis by auto
next
  case (QEnqueue f)
  with enqueue_step [OF inv out] show ?thesis by simp
next
  case (QRequeue f)
  with requeue_step [OF inv out] show ?thesis by simp
next
  case (QTake s)
  let ?qs' = "qs\<lparr>qs_store := (qs_store qs)(s := (qs_store qs s)\<lparr>sub_frame := None\<rparr>)\<rparr>"
  have "step_ok contents started op qs ?qs' []"
    using inv out QTake by (auto simp: step_ok_def queue_inv_def list_inv_def)
  with QTake show ?thesis by auto
qed

lemma apply_step_out:
  assumes "queue_inv contents started qs" and "queue_legal op qs"
  obtains qs' outs where "queue_apply S op qs = Ret (None, qs'\<lparr>qs_out := qs_out qs @ qs_out qs'\<rparr>)"
    and "step_ok contents started op (qs\<lparr>qs_out := []\<rparr>) qs' outs"
  using apply_step [of "qs\<lparr>qs_out := []\<rparr>" op] assms
  by (auto simp: queue_apply_out [of S op qs])

lemma run_steps:
  "queue_inv contents started qs \<Longrightarrow> legal_run S ops qs \<Longrightarrow>
     \<exists>outs qs'. queue_run S ops qs = Some (map (\<lambda>(s, f). (s, Some (with_sub (qs_store qs) s f))) outs, qs') \<and>
       queue_inv contents started qs' \<and>
       mset (map snd outs) + mset (contents (qs_storage qs') (q_destination (qs_queue qs))) =
         mset (contents (qs_storage qs) (q_destination (qs_queue qs))) + mset (enqueued ops) + mset (requeued ops) \<and>
       (requeued ops = [] \<longrightarrow>
         map snd outs @ contents (qs_storage qs') (q_destination (qs_queue qs)) =
           contents (qs_storage qs) (q_destination (qs_queue qs)) @ enqueued ops)"
proof (induction ops arbitrary: qs)
  case Nil
  then show ?case by simp
next
  case (Cons op ops)
  let ?d = "q_destination (qs_queue qs)" and ?qs0 = "qs\<lparr>qs_out := []\<rparr>"
  have "queue_inv contents started ?qs0" "queue_legal op ?qs0" "qs_out ?qs0 = []"
    using Cons.prems by simp_all
  from apply_step [OF this] obtain qs1 outs1
    where ap: "queue_apply S op ?qs0 = Ret (None, qs1)" and ok: "step_ok contents started op ?qs0 qs1 outs1" by blast
  from ok have inv1: "queue_inv contents started qs1" and d1: "q_destination (qs_queue qs1) = ?d"
    and ids: "\<And>s. sub_id (qs_store qs1 s) = sub_id (qs_store qs s)"
    and del: "delivered (qs_store qs1) (qs_out qs1) = map (\<lambda>(s, f). (s, Some (with_sub (qs_store qs) s f))) outs1"
    and pend: "map snd outs1 @ contents (qs_storage qs1) ?d = op_pending op (contents (qs_storage qs) ?d)"
    by (simp_all add: step_ok_def)
  from Cons.prems ap have "legal_run S ops qs1" by simp
  from Cons.IH [OF inv1 this] obtain outs2 qs2
    where run: "queue_run S ops qs1 = Some (map (\<lambda>(s, f). (s, Some (with_sub (qs_store qs1) s f))) outs2, qs2)"
      and inv2: "queue_inv contents started qs2"
      and ms: "mset (map snd outs2) + mset (contents (qs_storage qs2) ?d) =
        mset (contents (qs_storage qs1) ?d) + mset (enqueued ops) + mset (requeued ops)"
      and fifo: "requeued ops = [] \<longrightarrow> map snd outs2 @ contents (qs_storage qs2) ?d =
        contents (qs_storage qs1) ?d @ enqueued ops"
    unfolding d1 by blast
  have same: "with_sub (qs_store qs1) = with_sub (qs_store qs)"
    using ids by (intro ext with_sub_cong)
  from ap del run same have
    "queue_run S (op # ops) qs = Some (map (\<lambda>(s, f). (s, Some (with_sub (qs_store qs) s f))) (outs1 @ outs2), qs2)"
    by simp
  moreover from arg_cong [OF pend, of mset] ms
  have "mset (map snd (outs1 @ outs2)) + mset (contents (qs_storage qs2) ?d) =
      mset (contents (qs_storage qs) ?d) + mset (enqueued (op # ops)) + mset (requeued (op # ops))"
    by (cases op) (simp_all add: ac_simps)
  moreover have "requeued (op # ops) = [] \<longrightarrow>
      map snd (outs1 @ outs2) @ contents (qs_storage qs2) ?d = contents (qs_storage qs) ?d @ enqueued (op # ops)"
  proof
    assume "requeued (op # ops) = []"
    then have no: "requeued ops = []" "op_pending op l @ enqueued ops = l @ enqueued (op # ops)" for l
      by (cases op; simp)+
    with fifo have "map snd (outs1 @ outs2) @ contents (qs_storage qs2) ?d =
        (map snd outs1 @ contents (qs_storage qs1) ?d) @ enqueued ops" by simp
    with pend no show "map snd (outs1 @ outs2) @ contents (qs_storage qs2) ?d =
        contents (qs_storage qs) ?d @ enqueued (op # ops)" by simp
  qed
  ultimately show ?case using inv2 by blast
qed

end

subsection \<open>Properties of queues\<close>

text \<open>An empty queue over the in-memory storage, for concrete runs.\<close>

definition sample_qs :: "string \<Rightarrow> MemoryQueueStorage QState" where
  "sample_qs d =
     \<lparr>qs_queue = newQueue d, qs_storage = NewMemoryQueueStorage,
      qs_store = (\<lambda>s. newSubscription 0 d (FormatUint s) AckAuto), qs_out = []\<rparr>"

definition sample_ops :: "queue_op list" where
  "sample_ops =
     [QEnqueue (mk_frame MESSAGE [(''k'', ''a'')]), QSubscribe 1,
      QEnqueue (mk_frame MESSAGE [(''k'', ''b'')]), QTake 1, QSubscribe 1]"

lemma sample_qs_inv: "queue_inv mem_contents mem_started (sample_qs d)"
  by (simp add: sample_qs_def queue_inv_def newQueue_def list_inv_def mem_started_def NewMemoryQueueStorage_def)

lemma sample_qs_contents: "mem_contents (qs_storage (sample_qs d)) x = []"
  by (simp add: sample_qs_def mem_contents_def NewMemoryQueueStorage_def lists_get_def)

lemma sample_legal: "legal_run memory_storage sample_ops (sample_qs ''/queue/a'')"
  by code_simp

text \<open>
  Property C8. Queues are first in, first out, over any storage that keeps its contract: in
  every history of subscribing, unsubscribing, sending and taking, the messages handed to
  subscriptions, in order, followed by the ones still in the queue, are exactly the messages
  that were in the queue and then the ones sent to it, in order; each is handed out once, with
  the id of its subscription in the header. No step panics or fails.
\<close>

theorem queue_fifo:
  assumes "queue_storage S contents started" and "queue_inv contents started qs"
    and "legal_run S ops qs" and "requeued ops = []"
  shows "\<exists>outs qs'.
    queue_run S ops qs = Some (map (\<lambda>(s, f). (s, Some (with_sub (qs_store qs) s f))) outs, qs') \<and>
    map snd outs @ contents (qs_storage qs') (q_destination (qs_queue qs)) =
      contents (qs_storage qs) (q_destination (qs_queue qs)) @ enqueued ops"
  using queue_storage.run_steps [OF assms(1-3)] assms(4) by blast

theorem queue_fifo_witness:
  "\<exists>outs qs'. queue_run memory_storage sample_ops (sample_qs ''/queue/a'') =
       Some (map (\<lambda>(s, f). (s, Some (with_sub (qs_store (sample_qs ''/queue/a'')) s f))) outs, qs') \<and>
     map snd outs @ mem_contents (qs_storage qs') ''/queue/a'' =
       [mk_frame MESSAGE [(''k'', ''a'')], mk_frame MESSAGE [(''k'', ''b'')]]"
proof -
  have "requeued sample_ops = []" by (simp add: sample_ops_def)
  moreover have "q_destination (qs_queue (sample_qs ''/queue/a'')) = ''/queue/a''"
    by (simp add: sample_qs_def newQueue_def)
  ultimately show ?thesis
    using queue_fifo [OF mem.queue_storage_axioms sample_qs_inv sample_legal]
    by (simp add: sample_qs_contents) (simp add: sample_ops_def)
qed

text \<open>
  Property C12. No message is lost or duplicated when messages are also put back: after any
  history, the messages handed out together with the ones in the queue are, as a multiset,
  the ones that were there, were sent and were put back.
\<close>

theorem queue_conserves_messages:
  assumes "queue_storage S contents started" and "queue_inv contents started qs" and "legal_run S ops qs"
  shows "\<exists>outs qs'.
    queue_run S ops qs = Some (map (\<lambda>(s, f). (s, Some (with_sub (qs_store qs) s f))) outs, qs') \<and>
    mset (map snd outs) + mset (contents (qs_storage qs') (q_destination (qs_queue qs))) =
      mset (contents (qs_storage qs) (q_destination (qs_queue qs))) + mset (enqueued ops) + mset (requeued ops)"
  using queue_storage.run_steps [OF assms] by blast

theorem queue_conserves_messages_witness:
  "\<exists>outs qs'. queue_run memory_storage (QRequeue (mk_frame MESSAGE []) # sample_ops) (sample_qs ''/queue/a'') =
       Some (map (\<lambda>(s, f). (s, Some (with_sub (qs_store (sample_qs ''/queue/a'')) s f))) outs, qs') \<and>
     size (mset (map snd outs) + mset (mem_contents (qs_storage qs') ''/queue/a'')) = 3"
proof -
  have legal: "legal_run memory_storage (QRequeue (mk_frame MESSAGE []) # sample_ops) (sample_qs ''/queue/a'')"
    by code_simp
  have d: "q_destination (qs_queue (sample_qs ''/queue/a'')) = ''/queue/a''"
    by (simp add: sample_qs_def newQueue_def)
  have "mset (enqueued (QRequeue (mk_frame MESSAGE []) # sample_ops)) +
      mset (requeued (QRequeue (mk_frame MESSAGE []) # sample_ops)) =
      {#mk_frame MESSAGE [(''k'', ''a'')], mk_frame MESSAGE [(''k'', ''b'')], mk_frame MESSAGE []#}"
    by (simp add: sample_ops_def)
  with queue_conserves_messages [OF mem.queue_storage_axioms sample_qs_inv legal] d show ?thesis
    by (fastforce simp: sample_qs_contents)
qed

text \<open>
  Property C38. A queue never lets a subscription wait while it has a message: the invariant
  (waiting subscriptions are distinct, point back to the queue, hold no frame, and there is
  none when a message is stored) is kept by \<open>Subscribe\<close>, \<open>Unsubscribe\<close>, \<open>Enqueue\<close> and
  \<open>Requeue\<close>, which all return nil; the other queues of the storage are not touched.
\<close>

theorem queue_work_conserving:
  assumes "queue_storage S contents started" and "queue_inv contents started qs" and "queue_legal op qs"
  shows "\<exists>qs'. queue_apply S op qs = Ret (None, qs') \<and> queue_inv contents started qs' \<and>
    (q_subs (qs_queue qs') = [] \<or> contents (qs_storage qs') (q_destination (qs_queue qs)) = []) \<and>
    (\<forall>d. d = q_destination (qs_queue qs) \<or> contents (qs_storage qs') d = contents (qs_storage qs) d)"
proof -
  obtain qs' outs where "queue_apply S op qs = Ret (None, qs'\<lparr>qs_out := qs_out qs @ qs_out qs'\<rparr>)"
    and "step_ok contents started op (qs\<lparr>qs_out := []\<rparr>) qs' outs"
    using queue_storage.apply_step_out [OF assms] by blast
  then show ?thesis by (auto simp: step_ok_def queue_inv_def)
qed

theorem queue_work_conserving_witness:
  "\<exists>qs'. queue_apply memory_storage (QSubscribe 1) (sample_qs ''/queue/a'') = Ret (None, qs') \<and>
     queue_inv mem_contents mem_started qs'"
proof -
  have "queue_legal (QSubscribe 1) (sample_qs ''/queue/a'')" by code_simp
  from queue_work_conserving [OF mem.queue_storage_axioms sample_qs_inv this] show ?thesis by blast
qed

text \<open>
  When \<open>Subscribe\<close> crashes: with a message waiting, exactly for a subscription that
  still holds a frame; with none, exactly for one that is still marked as being in a list.
\<close>

theorem queue_subscribe_panics:
  assumes "queue_storage S contents started" and "started (qs_storage qs)"
  shows "panics (Queue_Subscribe S s qs) =
    (if contents (qs_storage qs) (sub_dest (qs_store qs s)) = [] then sub_subList (qs_store qs s) \<noteq> None
     else sub_frame (qs_store qs s) \<noteq> None)"
  using queue_storage.subscribe_panics [OF assms] .

theorem queue_subscribe_panics_witness:
  "panics (Queue_Subscribe memory_storage 1
     ((sample_qs ''/queue/a'')\<lparr>qs_store :=
        (\<lambda>s. (newSubscription 0 ''/queue/a'' ''1'' AckClient)\<lparr>sub_subList := Some (ConnList 0)\<rparr>)\<rparr>))"
  by (subst queue_subscribe_panics [OF mem.queue_storage_axioms])
     (simp_all add: sample_qs_def NewMemoryQueueStorage_def mem_started_def mem_contents_def lists_get_def)

end
