(* ===== verification/Server_Topic.thy ===== *)
theory Server_Topic
  imports Server_Subscription "HOL-Library.Multiset"
begin

section \<open>Topics: server/topic/topic.go, manager.go, subscription.go\<close>

text \<open>
  A topic keeps its subscribers in order of subscription. A subscriber is anything with a
  \<open>SendTopicFrame\<close> (the interface \<open>topic.Subscription\<close>); the operations take it as an argument,
  and the locale \<open>topic_subscriber\<close> says what a subscriber that takes every frame does. The
  \<open>client.Subscription\<close> of the server is an interpretation.
\<close>

subsection \<open>Operations\<close>

record 's Topic =
  t_destination :: string
  t_subs :: "'s list"

definition newTopic :: "string \<Rightarrow> 's Topic" where
  "newTopic destination = \<lparr>t_destination = destination, t_subs = []\<rparr>"

definition Topic_Subscribe :: "'s \<Rightarrow> 's Topic \<Rightarrow> 's Topic" where
  "Topic_Subscribe sub t = t\<lparr>t_subs := t_subs t @ [sub]\<rparr>"

fun remove_first :: "'s \<Rightarrow> 's list \<Rightarrow> 's list" where
  "remove_first sub [] = []"
| "remove_first sub (e # rest) = (if sub = e then rest else e # remove_first sub rest)"

definition Topic_Unsubscribe :: "'s \<Rightarrow> 's Topic \<Rightarrow> 's Topic" where
  "Topic_Unsubscribe sub t = t\<lparr>t_subs := remove_first sub (t_subs t)\<rparr>"

text \<open>The loop over more than one subscriber: all but the last get a clone.\<close>

fun broadcast :: "('s \<Rightarrow> Frame \<Rightarrow> 'w \<Rightarrow> 'w go) \<Rightarrow> Frame \<Rightarrow> 's list \<Rightarrow> 'w \<Rightarrow> 'w go" where
  "broadcast sendf f [] w = Ret w"
| "broadcast sendf f (sub # rest) w =
     go_bind (sendf sub (if rest = [] then f else Frame_Clone f) w)
       (\<lambda>w'. broadcast sendf f rest w')"

definition Topic_Enqueue :: "('s \<Rightarrow> Frame \<Rightarrow> 'w \<Rightarrow> 'w go) \<Rightarrow> Frame \<Rightarrow> 's Topic \<Rightarrow> 'w \<Rightarrow> 'w go" where
  "Topic_Enqueue sendf f t w =
     (case t_subs t of
        [] \<Rightarrow> Ret w
      | [sub] \<Rightarrow> sendf sub f w
      | _ \<Rightarrow> broadcast sendf f (t_subs t) w)"

type_synonym 's topic_manager = "string \<rightharpoonup> 's Topic"

definition tm_Find :: "string \<Rightarrow> 's topic_manager \<Rightarrow> 's Topic \<times> 's topic_manager" where
  "tm_Find destination tm =
     (case tm destination of
        Some t \<Rightarrow> (t, tm)
      | None \<Rightarrow> (newTopic destination, tm(destination \<mapsto> newTopic destination)))"

text \<open>The three cases of the switch are one broadcast.\<close>

lemma Topic_Enqueue_broadcast: "Topic_Enqueue sendf f t w = broadcast sendf f (t_subs t) w"
  by (auto simp: Topic_Enqueue_def go_bind_def split: list.splits go.splits)

subsection \<open>The contract of a subscriber\<close>

text \<open>
  In a world where a subscriber is ready, sending it a frame appends one delivery to the log of
  the world and leaves every subscriber ready.
\<close>

locale topic_subscriber =
  fixes sendf :: "'s \<Rightarrow> Frame \<Rightarrow> 'w \<Rightarrow> 'w go"
    and ready_sub :: "'w \<Rightarrow> 's \<Rightarrow> bool"
    and sent :: "'w \<Rightarrow> 'd list"
    and delivery :: "'w \<Rightarrow> 's \<Rightarrow> Frame \<Rightarrow> 'd"
  assumes send: "ready_sub w s \<Longrightarrow> \<exists>w'. sendf s f w = Ret w' \<and> sent w' = sent w @ [delivery w s f] \<and>
      ready_sub w' = ready_sub w \<and> delivery w' = delivery w"
begin

lemma broadcast_all:
  "\<forall>s \<in> set subs. ready_sub w s \<Longrightarrow>
     \<exists>w'. broadcast sendf f subs w = Ret w' \<and> sent w' = sent w @ map (\<lambda>s. delivery w s f) subs \<and>
       ready_sub w' = ready_sub w \<and> delivery w' = delivery w"
proof (induction subs arbitrary: w)
  case Nil
  then show ?case by simp
next
  case (Cons s subs)
  then obtain w1 where w1: "sendf s f w = Ret w1" "sent w1 = sent w @ [delivery w s f]"
    "ready_sub w1 = ready_sub w" "delivery w1 = delivery w"
    using send [of w s f] by auto
  with Cons.prems have "\<forall>s \<in> set subs. ready_sub w1 s" by simp
  from Cons.IH [OF this] w1 show ?case by auto
qed

lemma enqueue_all:
  assumes "\<forall>s \<in> set (t_subs t). ready_sub w s"
  shows "\<exists>w'. Topic_Enqueue sendf f t w = Ret w' \<and>
    sent w' = sent w @ map (\<lambda>s. delivery w s f) (t_subs t)"
  using broadcast_all [OF assms, of f] by (auto simp: Topic_Enqueue_broadcast)

end

subsection \<open>The subscriptions of the server as subscribers\<close>

type_synonym topic_world = "sub_store \<times> Delivery list"

definition send_topic :: "sub_ref \<Rightarrow> Frame \<Rightarrow> topic_world \<Rightarrow> topic_world go" where
  "send_topic s f w = go_bind (SendTopicFrame s f (fst w)) (\<lambda>d. Ret (fst w, snd w @ [d]))"

definition topic_delivery :: "topic_world \<Rightarrow> sub_ref \<Rightarrow> Frame \<Rightarrow> Delivery" where
  "topic_delivery w s f =
     ToWriteChannel (sub_conn (fst w s)) (f\<lparr>Hdr := Header_Set (Hdr f) SubscriptionHdr (sub_id (fst w s))\<rparr>)"

interpretation ts: topic_subscriber send_topic "\<lambda>w s. sub_frame (fst w s) = None" snd topic_delivery
  by unfold_locales
     (auto simp: send_topic_def SendTopicFrame_def setSubscriptionHeader_def topic_delivery_def fun_eq_iff)

text \<open>Sending to a topic changes no subscription.\<close>

lemma send_topic_store: "send_topic s f w = Ret w' \<Longrightarrow> fst w' = fst w"
  by (auto simp: send_topic_def go_bind_eq_Ret)

lemma broadcast_store: "broadcast send_topic f subs w = Ret w' \<Longrightarrow> fst w' = fst w"
  by (induction subs arbitrary: w) (auto simp: go_bind_eq_Ret dest: send_topic_store)

lemma topic_enqueue_sends:
  assumes "\<forall>s \<in> set (t_subs t). sub_frame (st s) = None"
  shows "Topic_Enqueue send_topic f t (st, out) =
    Ret (st, out @ map (\<lambda>s. topic_delivery (st, out) s f) (t_subs t))"
proof -
  obtain w' where w': "Topic_Enqueue send_topic f t (st, out) = Ret w'"
    "snd w' = out @ map (\<lambda>s. topic_delivery (st, out) s f) (t_subs t)"
    using ts.enqueue_all [of t "(st, out)" f] assms by auto
  then have "fst w' = st"
    using broadcast_store by (fastforce simp: Topic_Enqueue_broadcast)
  with w' show ?thesis by (metis prod.collapse)
qed

subsection \<open>Properties of topics\<close>

text \<open>Histories of one topic.\<close>

datatype 's topic_op = TSubscribe 's | TUnsubscribe 's

fun topic_apply :: "'s topic_op \<Rightarrow> 's Topic \<Rightarrow> 's Topic" where
  "topic_apply (TSubscribe s) t = Topic_Subscribe s t"
| "topic_apply (TUnsubscribe s) t = Topic_Unsubscribe s t"

text \<open>The number of open subscriptions of one subscriber: an unsubscribe closes one, if there is one.\<close>

fun open_count :: "'s \<Rightarrow> nat \<Rightarrow> 's topic_op list \<Rightarrow> nat" where
  "open_count s n [] = n"
| "open_count s n (TSubscribe x # ops) = open_count s (if x = s then Suc n else n) ops"
| "open_count s n (TUnsubscribe x # ops) = open_count s (if x = s then n - 1 else n) ops"

lemma remove_first_remove1: "remove_first s xs = remove1 s xs"
  by (induction xs) auto



text \<open>
  The subscribers of a topic after any history of subscribing and unsubscribing:
  each occurs exactly as often as it has open subscriptions.
\<close>

theorem topic_membership:
  "count_list (t_subs (fold topic_apply ops (newTopic d))) s = open_count s 0 ops"
proof -
  have "count_list (t_subs (fold topic_apply ops t)) s = open_count s (count_list (t_subs t) s) ops" for t
  proof (induction ops arbitrary: t)
    case Nil
    show ?case by simp
  next
    case (Cons op ops)
    have "count_list (remove1 x xs) s = (if x = s then count_list xs s - 1 else count_list xs s)" for x xs
      by (induction xs) auto
    with Cons show ?case
      by (cases op)
         (auto simp: Topic_Subscribe_def Topic_Unsubscribe_def remove_first_remove1)
  qed
  then show ?thesis by (simp add: newTopic_def)
qed

end
