(* ===== verification/Server_Processor.thy ===== *)
theory Server_Processor
  imports Server_Queue Server_Topic Server_Conn
begin

section \<open>The request processor: server/processor.go, server.go\<close>

text \<open>
  The upper layer of the server: one goroutine that takes requests from a channel and applies
  them to the queues and the topics. Its state is the two managers and the queue storage; it
  shares the subscriptions with the connections.
\<close>

subsection \<open>State\<close>

definition QueuePrefix :: string where
  "QueuePrefix = ''/queue''"

definition isQueueDestination :: "string \<Rightarrow> bool" where
  "isQueueDestination dest = HasPrefix dest QueuePrefix"

definition requestChannelCapacity :: nat where
  "requestChannelCapacity = 128"

record 'q Upper =
  up_qm :: queue_manager
  up_tm :: "sub_ref topic_manager"
  up_storage :: 'q
  up_store :: sub_store
  up_out :: "Delivery list"

definition newRequestProcessor :: "'q \<Rightarrow> sub_store \<Rightarrow> 'q Upper" where
  "newRequestProcessor storage st =
     \<lparr>up_qm = Map.empty, up_tm = Map.empty, up_storage = storage, up_store = st, up_out = []\<rparr>"

subsection \<open>Serving a request\<close>

text \<open>A call on the queue of a destination; the error result is ignored by the caller.\<close>

definition on_queue :: "string \<Rightarrow> ('q QState \<Rightarrow> (go_error option \<times> 'q QState) go) \<Rightarrow> 'q Upper \<Rightarrow> 'q Upper go" where
  "on_queue dest call u =
     (let (q, qm) = qm_Find dest (up_qm u)
      in go_bind (call \<lparr>qs_queue = q, qs_storage = up_storage u, qs_store = up_store u, qs_out = up_out u\<rparr>)
           (\<lambda>(err, qs). Ret (u\<lparr>up_qm := qm(dest \<mapsto> qs_queue qs), up_storage := qs_storage qs,
                              up_store := qs_store qs, up_out := qs_out qs\<rparr>)))"

definition on_topic :: "string \<Rightarrow> (sub_ref Topic \<Rightarrow> topic_world \<Rightarrow> (sub_ref Topic \<times> topic_world) go) \<Rightarrow> 'q Upper \<Rightarrow> 'q Upper go" where
  "on_topic dest call u =
     (let (t, tm) = tm_Find dest (up_tm u)
      in go_bind (call t (up_store u, up_out u))
           (\<lambda>(t', w). Ret (u\<lparr>up_tm := tm(dest \<mapsto> t'), up_store := fst w, up_out := snd w\<rparr>)))"

definition serve :: "'q Storage \<Rightarrow> Request \<Rightarrow> 'q Upper \<Rightarrow> 'q Upper go" where
  "serve S r u =
     (case r of
        SubscribeOp s \<Rightarrow>
          (let dest = sub_dest (up_store u s)
           in if isQueueDestination dest then on_queue dest (Queue_Subscribe S s) u
              else on_topic dest (\<lambda>t w. Ret (Topic_Subscribe s t, w)) u)
      | UnsubscribeOp s \<Rightarrow>
          (let dest = sub_dest (up_store u s)
           in if isQueueDestination dest then on_queue dest (\<lambda>qs. Ret (None, Queue_Unsubscribe s qs)) u
              else on_topic dest (\<lambda>t w. Ret (Topic_Unsubscribe s t, w)) u)
      | EnqueueOp f \<Rightarrow>
          (case Header_Contains (Hdr f) Destination of
             None \<Rightarrow> Panic ''missing destination''
           | Some dest \<Rightarrow>
               if isQueueDestination dest then on_queue dest (Queue_Enqueue S f) u
               else on_topic dest (\<lambda>t w. go_bind (Topic_Enqueue send_topic f t w) (\<lambda>w'. Ret (t, w'))) u)
      | RequeueOp None \<Rightarrow> Panic ''nil pointer dereference''
      | RequeueOp (Some f) \<Rightarrow>
          (case Header_Contains (Hdr f) Destination of
             None \<Rightarrow> Panic ''missing destination''
           | Some dest \<Rightarrow>
               if isQueueDestination dest then on_queue dest (Queue_Requeue S f) u else Ret u)
      | ConnectedOp c \<Rightarrow> Ret u
      | DisconnectedOp c \<Rightarrow> Ret u)"

fun serve_all :: "'q Storage \<Rightarrow> Request list \<Rightarrow> 'q Upper \<Rightarrow> 'q Upper go" where
  "serve_all S [] u = Ret u"
| "serve_all S (r # rs) u = go_bind (serve S r u) (\<lambda>u'. serve_all S rs u')"

subsection \<open>Configuration of a server\<close>

text \<open>\<open>Server\<close>; its \<open>QueueStorage\<close> is the storage argument of \<open>serve\<close>.\<close>

record Server =
  srv_Addr :: string
  srv_Authenticator :: "(string \<Rightarrow> string \<Rightarrow> bool) option"
  srv_HeartBeat :: duration
  srv_Log :: "Logger option"

definition DefaultAddr :: string where
  "DefaultAddr = '':61613''"

definition DefaultHeartBeat :: duration where
  "DefaultHeartBeat = Minute"

definition config_HeartBeat :: "Server \<Rightarrow> duration" where
  "config_HeartBeat s = (if srv_HeartBeat s = 0 then DefaultHeartBeat else srv_HeartBeat s)"

definition config_Authenticate :: "Server \<Rightarrow> string \<Rightarrow> string \<Rightarrow> bool" where
  "config_Authenticate s login passcode =
     (case srv_Authenticator s of Some auth \<Rightarrow> auth login passcode | None \<Rightarrow> True)"

definition newConfig :: "Server \<Rightarrow> Config" where
  "newConfig s = \<lparr>Authenticate = config_Authenticate s, cfg_HeartBeat = config_HeartBeat s, cfg_Logger = srv_Log s\<rparr>"

definition listen_address :: "Server \<Rightarrow> string" where
  "listen_address s = (if srv_Addr s = [] then DefaultAddr else srv_Addr s)"

subsection \<open>Accepting connections\<close>

datatype accept_result = Accepted | TemporaryError | FatalError

text \<open>
  The loop of \<open>Listen\<close> over the results of \<open>Accept\<close>: how long it sleeps after each failure,
  how many connections it makes, and whether it has returned.
\<close>

definition next_timeout :: "duration \<Rightarrow> duration" where
  "next_timeout timeout =
     (let t = (if timeout = 0 then 5 * Millisecond else int64 (timeout * 2))
      in if t > 5 * Second then 5 * Second else t)"

fun Listen :: "accept_result list \<Rightarrow> duration \<Rightarrow> duration list \<times> nat \<times> bool" where
  "Listen [] timeout = ([], 0, False)"
| "Listen (TemporaryError # rs) timeout =
     (let t = next_timeout timeout; (sleeps, conns, ended) = Listen rs t in (t # sleeps, conns, ended))"
| "Listen (FatalError # rs) timeout = ([], 0, True)"
| "Listen (Accepted # rs) timeout =
     (let (sleeps, conns, ended) = Listen rs 0 in (sleeps, Suc conns, ended))"

subsection \<open>The invariant of the upper layer\<close>

text \<open>
  Every queue keeps its invariant under its own name, and the subscribers of a topic belong
  to that topic and hold no frame.
\<close>

definition queue_view :: "'q Upper \<Rightarrow> Queue \<Rightarrow> 'q QState" where
  "queue_view u q = \<lparr>qs_queue = q, qs_storage = up_storage u, qs_store = up_store u, qs_out = up_out u\<rparr>"

definition upper_inv :: "('q \<Rightarrow> string \<Rightarrow> Frame list) \<Rightarrow> ('q \<Rightarrow> bool) \<Rightarrow> 'q Upper \<Rightarrow> bool" where
  "upper_inv contents started u \<longleftrightarrow>
     started (up_storage u) \<and>
     (\<forall>d q. up_qm u d = Some q \<longrightarrow>
        q_destination q = d \<and> isQueueDestination d \<and> queue_inv contents started (queue_view u q)) \<and>
     (\<forall>d t. up_tm u d = Some t \<longrightarrow>
        t_destination t = d \<and> \<not> isQueueDestination d \<and>
        (\<forall>s \<in> set (t_subs t). sub_dest (up_store u s) = d \<and> sub_frame (up_store u s) = None))"

text \<open>The requests that do not crash the processor.\<close>

fun request_legal :: "Request \<Rightarrow> sub_store \<Rightarrow> bool" where
  "request_legal (SubscribeOp s) st =
     (sub_frame (st s) = None \<and> (isQueueDestination (sub_dest (st s)) \<longrightarrow> sub_subList (st s) = None))"
| "request_legal (UnsubscribeOp s) st = True"
| "request_legal (EnqueueOp f) st = (Header_Contains (Hdr f) Destination \<noteq> None)"
| "request_legal (RequeueOp fo) st =
     (case fo of None \<Rightarrow> False | Some f \<Rightarrow> Header_Contains (Hdr f) Destination \<noteq> None)"
| "request_legal (ConnectedOp c) st = True"
| "request_legal (DisconnectedOp c) st = True"

lemma qm_Find_view:
  assumes "upper_inv contents started u" and "isQueueDestination d"
  obtains q qm where "qm_Find d (up_qm u) = (q, qm)" "q_destination q = d"
    "queue_inv contents started (queue_view u q)" "\<And>d'. d' \<noteq> d \<Longrightarrow> qm d' = up_qm u d'"
proof (cases "up_qm u d")
  case None
  with assms that [of "newQueue d" "(up_qm u)(d \<mapsto> newQueue d)"] show thesis
    by (simp add: qm_Find_def newQueue_def queue_inv_def list_inv_def queue_view_def upper_inv_def)
next
  case (Some q)
  with assms that [of q "up_qm u"] show thesis by (simp add: qm_Find_def upper_inv_def)
qed

text \<open>
  A call on a queue keeps the invariant of all queues and topics, changes no other queue, and
  appends its deliveries.
\<close>

definition only_queue :: "('q \<Rightarrow> string \<Rightarrow> Frame list) \<Rightarrow> string \<Rightarrow> 'q Upper \<Rightarrow> 'q Upper \<Rightarrow> bool" where
  "only_queue contents d u u' \<longleftrightarrow>
     up_tm u' = up_tm u \<and>
     (\<forall>d'. d' \<noteq> d \<longrightarrow> up_qm u' d' = up_qm u d' \<and> contents (up_storage u') d' = contents (up_storage u) d')"

lemma step_ok_store:
  assumes "step_ok contents started op qs qs1 outs" and "sub_dest (qs_store qs s) \<noteq> q_destination (qs_queue qs)"
  shows "sub_dest (qs_store qs1 s) = sub_dest (qs_store qs s)"
    "sub_frame (qs_store qs s) = None \<Longrightarrow> sub_frame (qs_store qs1 s) = None"
    "sub_subList (qs_store qs s) = Some (QueueList d) \<Longrightarrow> d \<noteq> q_destination (qs_queue qs) \<Longrightarrow>
       sub_subList (qs_store qs1 s) = Some (QueueList d)"
  using assms unfolding step_ok_def by (metis, metis, metis insertE list_ref.inject(2) option.distinct(1) option.inject singletonD)

lemma other_queue_inv:
  assumes ok: "step_ok contents started op qs qs1 outs"
    and d: "q_destination q' \<noteq> q_destination (qs_queue qs)"
    and inv: "queue_inv contents started \<lparr>qs_queue = q', qs_storage = qs_storage qs, qs_store = qs_store qs, qs_out = ds\<rparr>"
  shows "queue_inv contents started \<lparr>qs_queue = q', qs_storage = qs_storage qs1, qs_store = qs_store qs1, qs_out = ds'\<rparr>"
proof -
  have mem: "sub_dest (qs_store qs1 s) = q_destination q' \<and> sub_frame (qs_store qs1 s) = None \<and>
      sub_subList (qs_store qs1 s) = Some (QueueList (q_destination q'))" if "s \<in> set (q_subs q')" for s
    using step_ok_store [OF ok, of s] d inv that by (simp add: queue_inv_def list_inv_def)
  have "contents (qs_storage qs1) (q_destination q') = contents (qs_storage qs) (q_destination q')" "started (qs_storage qs1)"
    using ok d by (auto simp: step_ok_def queue_inv_def)
  with mem inv show ?thesis by (simp add: queue_inv_def list_inv_def)
qed

lemma on_queue_inv:
  assumes S: "queue_storage S contents started" and inv: "upper_inv contents started u"
    and d: "isQueueDestination d"
    and legal: "queue_legal op (queue_view u (fst (qm_Find d (up_qm u))))"
  shows "\<exists>u'. on_queue d (queue_apply S op) u = Ret u' \<and> upper_inv contents started u' \<and>
    only_queue contents d u u'"
proof -
  obtain q qm where q: "qm_Find d (up_qm u) = (q, qm)" "q_destination q = d"
    "queue_inv contents started (queue_view u q)" "\<And>d'. d' \<noteq> d \<Longrightarrow> qm d' = up_qm u d'"
    using qm_Find_view [OF inv d] by blast
  let ?qs = "queue_view u q"
  from legal q(1) have "queue_legal op ?qs" by simp
  from queue_storage.apply_step_out [OF S q(3) this] obtain qs1 outs
    where ap: "queue_apply S op ?qs = Ret (None, qs1\<lparr>qs_out := qs_out ?qs @ qs_out qs1\<rparr>)"
      and ok: "step_ok contents started op (?qs\<lparr>qs_out := []\<rparr>) qs1 outs" by blast
  define u' where "u' = u\<lparr>up_qm := qm(d \<mapsto> qs_queue qs1), up_storage := qs_storage qs1,
      up_store := qs_store qs1, up_out := up_out u @ qs_out qs1\<rparr>"
  have "on_queue d (queue_apply S op) u = Ret u'"
    using ap q(1) by (simp add: on_queue_def queue_view_def u'_def)
  moreover have only: "only_queue contents d u u'"
    using ok q by (simp add: only_queue_def u'_def step_ok_def queue_view_def)
  moreover have "upper_inv contents started u'"
    unfolding upper_inv_def
  proof (intro conjI allI impI)
    show "started (up_storage u')" using ok by (simp add: u'_def step_ok_def queue_inv_def)
  next
    fix d' q'
    assume q': "up_qm u' d' = Some q'"
    show "q_destination q' = d'" "isQueueDestination d'" "queue_inv contents started (queue_view u' q')"
    proof (atomize(full), cases "d' = d")
      case True
      with q' ok q(2) d show "q_destination q' = d' \<and> isQueueDestination d' \<and>
          queue_inv contents started (queue_view u' q')"
        by (auto simp: u'_def step_ok_def queue_view_def queue_inv_def)
    next
      case False
      with q' q(4) have old: "up_qm u d' = Some q'" by (simp add: u'_def)
      with inv have i: "q_destination q' = d'" "isQueueDestination d'" "queue_inv contents started (queue_view u q')"
        by (auto simp: upper_inv_def)
      moreover have "queue_inv contents started (queue_view u' q')"
        using other_queue_inv [OF ok, of q' "up_out u" "up_out u'"] i(1,3) q(2) False
        by (simp add: queue_view_def u'_def)
      ultimately show "q_destination q' = d' \<and> isQueueDestination d' \<and>
          queue_inv contents started (queue_view u' q')" by blast
    qed
  next
    fix d' t
    assume t: "up_tm u' d' = Some t"
    then have "up_tm u d' = Some t" by (simp add: u'_def)
    with inv have i: "t_destination t = d'" "\<not> isQueueDestination d'"
      "\<forall>s \<in> set (t_subs t). sub_dest (up_store u s) = d' \<and> sub_frame (up_store u s) = None"
      by (auto simp: upper_inv_def)
    then have "d' \<noteq> d" using d by auto
    then have "sub_dest (qs_store qs1 s) = d' \<and> sub_frame (qs_store qs1 s) = None" if "s \<in> set (t_subs t)" for s
      using step_ok_store(1,2) [OF ok, of s] i(3) that q(2) by (simp add: queue_view_def)
    with i show "t_destination t = d'" "\<not> isQueueDestination d'"
      "\<forall>s \<in> set (t_subs t). sub_dest (up_store u' s) = d' \<and> sub_frame (up_store u' s) = None"
      by (auto simp: u'_def)
  qed
  ultimately show ?thesis by blast
qed

lemma tm_Find_view:
  assumes "upper_inv contents started u" and "\<not> isQueueDestination d"
  obtains t tm where "tm_Find d (up_tm u) = (t, tm)" "t_destination t = d"
    "\<forall>s \<in> set (t_subs t). sub_dest (up_store u s) = d \<and> sub_frame (up_store u s) = None"
    "\<And>d'. d' \<noteq> d \<Longrightarrow> tm d' = up_tm u d'"
proof (cases "up_tm u d")
  case None
  with assms that [of "newTopic d" "(up_tm u)(d \<mapsto> newTopic d)"] show thesis
    by (simp add: tm_Find_def newTopic_def)
next
  case (Some t)
  with assms that [of t "up_tm u"] show thesis by (simp add: tm_Find_def upper_inv_def)
qed

definition only_topic :: "('q \<Rightarrow> string \<Rightarrow> Frame list) \<Rightarrow> string \<Rightarrow> 'q Upper \<Rightarrow> 'q Upper \<Rightarrow> bool" where
  "only_topic contents d u u' \<longleftrightarrow>
     up_qm u' = up_qm u \<and> up_storage u' = up_storage u \<and> up_store u' = up_store u \<and>
     (\<forall>d'. d' \<noteq> d \<longrightarrow> up_tm u' d' = up_tm u d')"

text \<open>A call on a topic that keeps the subscribers in order keeps the invariant.\<close>

lemma on_topic_inv:
  assumes inv: "upper_inv contents started u" and d: "\<not> isQueueDestination d"
    and call: "\<And>t. t_destination t = d \<Longrightarrow>
      \<forall>s \<in> set (t_subs t). sub_dest (up_store u s) = d \<and> sub_frame (up_store u s) = None \<Longrightarrow>
      \<exists>t' ds. call t (up_store u, up_out u) = Ret (t', up_store u, up_out u @ ds) \<and> t_destination t' = d \<and>
        (\<forall>s \<in> set (t_subs t'). sub_dest (up_store u s) = d \<and> sub_frame (up_store u s) = None)"
  shows "\<exists>u'. on_topic d call u = Ret u' \<and> upper_inv contents started u' \<and> only_topic contents d u u'"
proof -
  obtain t tm where t: "tm_Find d (up_tm u) = (t, tm)" "t_destination t = d"
    "\<forall>s \<in> set (t_subs t). sub_dest (up_store u s) = d \<and> sub_frame (up_store u s) = None"
    "\<And>d'. d' \<noteq> d \<Longrightarrow> tm d' = up_tm u d'"
    using tm_Find_view [OF inv d] by blast
  from call [OF t(2,3)] obtain t' ds where c: "call t (up_store u, up_out u) = Ret (t', up_store u, up_out u @ ds)"
    "t_destination t' = d" "\<forall>s \<in> set (t_subs t'). sub_dest (up_store u s) = d \<and> sub_frame (up_store u s) = None"
    by blast
  define u' where "u' = u\<lparr>up_tm := tm(d \<mapsto> t'), up_out := up_out u @ ds\<rparr>"
  have "on_topic d call u = Ret u'" using t(1) c(1) by (simp add: on_topic_def u'_def)
  moreover have "only_topic contents d u u'" using t(4) by (simp add: only_topic_def u'_def)
  moreover have "upper_inv contents started u'"
    using inv c(2,3) d t(4) by (auto simp: upper_inv_def u'_def queue_view_def queue_inv_def split: if_splits)
  ultimately show ?thesis by blast
qed

subsection \<open>Properties of the processor\<close>

text \<open>The destination that a request is about.\<close>

fun request_dest :: "Request \<Rightarrow> sub_store \<Rightarrow> string option" where
  "request_dest (SubscribeOp s) st = Some (sub_dest (st s))"
| "request_dest (UnsubscribeOp s) st = Some (sub_dest (st s))"
| "request_dest (EnqueueOp f) st = Header_Contains (Hdr f) Destination"
| "request_dest (RequeueOp fo) st = (case fo of None \<Rightarrow> None | Some f \<Rightarrow> Header_Contains (Hdr f) Destination)"
| "request_dest (ConnectedOp c) st = None"
| "request_dest (DisconnectedOp c) st = None"

definition same_elsewhere :: "('q \<Rightarrow> string \<Rightarrow> Frame list) \<Rightarrow> string option \<Rightarrow> 'q Upper \<Rightarrow> 'q Upper \<Rightarrow> bool" where
  "same_elsewhere contents dest u u' \<longleftrightarrow>
     (\<forall>d. Some d \<noteq> dest \<longrightarrow> up_qm u' d = up_qm u d \<and> up_tm u' d = up_tm u d \<and>
        contents (up_storage u') d = contents (up_storage u) d)"

lemma same_elsewhereI:
  "only_queue contents d u u' \<Longrightarrow> same_elsewhere contents (Some d) u u'"
  "only_topic contents d u u' \<Longrightarrow> same_elsewhere contents (Some d) u u'"
  by (auto simp: same_elsewhere_def only_queue_def only_topic_def)

lemma serve_queue_op:
  assumes "queue_storage S contents started" and "upper_inv contents started u" and "isQueueDestination d"
    and "queue_legal op (queue_view u (fst (qm_Find d (up_qm u))))"
  shows "\<exists>u'. on_queue d (queue_apply S op) u = Ret u' \<and> upper_inv contents started u' \<and>
    same_elsewhere contents (Some d) u u'"
  using on_queue_inv [OF assms] same_elsewhereI(1) by blast

lemma serve_topic_enqueue:
  assumes "upper_inv contents started u" and "\<not> isQueueDestination d"
  shows "\<exists>u'. on_topic d (\<lambda>t w. go_bind (Topic_Enqueue send_topic f t w) (\<lambda>w'. Ret (t, w'))) u = Ret u' \<and>
    upper_inv contents started u' \<and> same_elsewhere contents (Some d) u u'"
proof -
  have "\<exists>u'. on_topic d (\<lambda>t w. go_bind (Topic_Enqueue send_topic f t w) (\<lambda>w'. Ret (t, w'))) u = Ret u' \<and>
      upper_inv contents started u' \<and> only_topic contents d u u'"
    by (rule on_topic_inv [OF assms]) (auto simp: topic_enqueue_sends)
  then show ?thesis using same_elsewhereI(2) by blast
qed

lemma serve_eqs:
  "isQueueDestination (sub_dest (up_store u s)) \<Longrightarrow>
     serve S (SubscribeOp s) u = on_queue (sub_dest (up_store u s)) (queue_apply S (QSubscribe s)) u"
  "isQueueDestination (sub_dest (up_store u s)) \<Longrightarrow>
     serve S (UnsubscribeOp s) u = on_queue (sub_dest (up_store u s)) (queue_apply S (QUnsubscribe s)) u"
  "Header_Contains (Hdr f) Destination = Some d \<Longrightarrow> isQueueDestination d \<Longrightarrow>
     serve S (EnqueueOp f) u = on_queue d (queue_apply S (QEnqueue f)) u"
  "Header_Contains (Hdr f) Destination = Some d \<Longrightarrow> isQueueDestination d \<Longrightarrow>
     serve S (RequeueOp (Some f)) u = on_queue d (queue_apply S (QRequeue f)) u"
  by (simp_all add: serve_def Let_def on_queue_def)

lemma serve_subscribe_legal:
  assumes S: "queue_storage S contents started" and inv: "upper_inv contents started u"
    and legal: "request_legal (SubscribeOp s) (up_store u)"
  shows "\<exists>u'. serve S (SubscribeOp s) u = Ret u' \<and> upper_inv contents started u' \<and>
    same_elsewhere contents (Some (sub_dest (up_store u s))) u u'"
proof (cases "isQueueDestination (sub_dest (up_store u s))")
  case True
  obtain q qm where "qm_Find (sub_dest (up_store u s)) (up_qm u) = (q, qm)" "q_destination q = sub_dest (up_store u s)"
    using qm_Find_view [OF inv True] by blast
  with True legal have "queue_legal (QSubscribe s) (queue_view u (fst (qm_Find (sub_dest (up_store u s)) (up_qm u))))"
    by (simp add: queue_view_def)
  from serve_queue_op [OF S inv True this] show ?thesis by (simp add: serve_eqs True)
next
  case False
  have "\<exists>u'. on_topic (sub_dest (up_store u s)) (\<lambda>t w. Ret (Topic_Subscribe s t, w)) u = Ret u' \<and>
      upper_inv contents started u' \<and> only_topic contents (sub_dest (up_store u s)) u u'"
    using legal by (intro on_topic_inv [OF inv False]) (auto simp: Topic_Subscribe_def)
  then show ?thesis using False same_elsewhereI(2) by (fastforce simp: serve_def)
qed

lemma serve_unsubscribe_legal:
  assumes S: "queue_storage S contents started" and inv: "upper_inv contents started u"
  shows "\<exists>u'. serve S (UnsubscribeOp s) u = Ret u' \<and> upper_inv contents started u' \<and>
    same_elsewhere contents (Some (sub_dest (up_store u s))) u u'"
proof (cases "isQueueDestination (sub_dest (up_store u s))")
  case True
  from serve_queue_op [OF S inv True, of "QUnsubscribe s"] show ?thesis by (simp add: serve_eqs True)
next
  case False
  have "\<exists>u'. on_topic (sub_dest (up_store u s)) (\<lambda>t w. Ret (Topic_Unsubscribe s t, w)) u = Ret u' \<and>
      upper_inv contents started u' \<and> only_topic contents (sub_dest (up_store u s)) u u'"
    by (intro on_topic_inv [OF inv False])
       (auto simp: Topic_Unsubscribe_def remove_first_remove1 dest: notin_set_remove1)
  then show ?thesis using False same_elsewhereI(2) by (fastforce simp: serve_def)
qed

lemma serve_frame_legal:
  assumes S: "queue_storage S contents started" and inv: "upper_inv contents started u"
    and d: "Header_Contains (Hdr f) Destination = Some d"
  shows "\<exists>u'. serve S (EnqueueOp f) u = Ret u' \<and> upper_inv contents started u' \<and> same_elsewhere contents (Some d) u u'"
    "\<exists>u'. serve S (RequeueOp (Some f)) u = Ret u' \<and> upper_inv contents started u' \<and> same_elsewhere contents (Some d) u u'"
proof -
  have eq: "same_elsewhere contents x u u" for x by (simp add: same_elsewhere_def)
  show "\<exists>u'. serve S (EnqueueOp f) u = Ret u' \<and> upper_inv contents started u' \<and> same_elsewhere contents (Some d) u u'"
    using serve_queue_op [OF S inv, of d "QEnqueue f"] serve_topic_enqueue [OF inv, of d f] d
    by (cases "isQueueDestination d") (simp_all add: serve_eqs, simp add: serve_def)
  show "\<exists>u'. serve S (RequeueOp (Some f)) u = Ret u' \<and> upper_inv contents started u' \<and> same_elsewhere contents (Some d) u u'"
    using serve_queue_op [OF S inv, of d "QRequeue f"] d inv eq
    by (cases "isQueueDestination d") (simp_all add: serve_eqs, simp add: serve_def)
qed

text \<open>
  Property C15. Serving a request is safe: over any storage that keeps its contract, a request
  that is legal (a subscription asks when it holds no frame and is in no list, a message has a
  destination) is served without a panic, keeps the invariant of every queue and every topic,
  and changes no queue, topic or stored message of any other destination.
\<close>

theorem processor_safe:
  assumes "queue_storage S contents started" and "upper_inv contents started u"
    and "request_legal r (up_store u)"
  shows "\<exists>u'. serve S r u = Ret u' \<and> upper_inv contents started u' \<and>
    same_elsewhere contents (request_dest r (up_store u)) u u'"
proof (cases r)
  case (SubscribeOp s)
  with serve_subscribe_legal [OF assms(1,2)] assms(3) show ?thesis by simp
next
  case (UnsubscribeOp s)
  with serve_unsubscribe_legal [OF assms(1,2)] show ?thesis by simp
next
  case (EnqueueOp f)
  with serve_frame_legal(1) [OF assms(1,2)] assms(3) show ?thesis by auto
next
  case (RequeueOp fo)
  with serve_frame_legal(2) [OF assms(1,2)] assms(3) show ?thesis by (auto split: option.splits)
qed (use assms in \<open>simp_all add: serve_def same_elsewhere_def\<close>)

text \<open>A processor that has just started, for concrete runs.\<close>

definition sample_upper :: "MemoryQueueStorage Upper" where
  "sample_upper =
     newRequestProcessor NewMemoryQueueStorage (\<lambda>s. newSubscription 0 ''/queue/a'' (FormatUint s) AckClient)"

lemma sample_upper_inv: "upper_inv mem_contents mem_started sample_upper"
  by (simp add: sample_upper_def newRequestProcessor_def upper_inv_def NewMemoryQueueStorage_def mem_started_def)

theorem processor_safe_witness:
  "\<exists>u'. serve memory_storage (EnqueueOp (mk_frame MESSAGE [(''destination'', ''/queue/a'')])) sample_upper = Ret u' \<and>
     upper_inv mem_contents mem_started u'"
  using processor_safe [OF mem.queue_storage_axioms sample_upper_inv,
      of "EnqueueOp (mk_frame MESSAGE [(''destination'', ''/queue/a'')])"] by auto

text \<open>
  Property C26. Exactly when a request takes the whole server down: a message without a
  destination (or no message) to be queued, or a queue subscription that asks while it is still
  marked as being in a list and the queue is empty, or while it holds a frame and the queue is
  not empty. Nothing else panics.
\<close>

theorem processor_panics:
  assumes "queue_storage S contents started" and "upper_inv contents started u"
  shows "panics (serve S r u) =
    (case r of
       SubscribeOp s \<Rightarrow>
         isQueueDestination (sub_dest (up_store u s)) \<and>
         (if contents (up_storage u) (sub_dest (up_store u s)) = [] then sub_subList (up_store u s) \<noteq> None
          else sub_frame (up_store u s) \<noteq> None)
     | EnqueueOp f \<Rightarrow> Header_Contains (Hdr f) Destination = None
     | RequeueOp fo \<Rightarrow> (case fo of None \<Rightarrow> True | Some f \<Rightarrow> Header_Contains (Hdr f) Destination = None)
     | _ \<Rightarrow> False)"
proof (cases r)
  case (SubscribeOp s)
  let ?d = "sub_dest (up_store u s)"
  show ?thesis
  proof (cases "isQueueDestination ?d")
    case True
    obtain q qm where q: "qm_Find ?d (up_qm u) = (q, qm)" using qm_Find_view [OF assms(2) True] by blast
    have "started (up_storage u)" using assms(2) by (simp add: upper_inv_def)
    then have "panics (Queue_Subscribe S s (queue_view u q)) =
        (if contents (up_storage u) ?d = [] then sub_subList (up_store u s) \<noteq> None else sub_frame (up_store u s) \<noteq> None)"
      using queue_storage.subscribe_panics [OF assms(1), of "queue_view u q" s] by (simp add: queue_view_def)
    moreover have "panics (on_queue ?d (Queue_Subscribe S s) u) = panics (Queue_Subscribe S s (queue_view u q))"
      using q by (auto simp: on_queue_def queue_view_def go_bind_def panics_def split: go.splits)
    ultimately show ?thesis using SubscribeOp True by (simp add: serve_def)
  next
    case False
    with SubscribeOp show ?thesis
      by (simp add: serve_def Let_def on_topic_def split: prod.splits)
  qed
next
  case (UnsubscribeOp s)
  obtain u' where "serve S (UnsubscribeOp s) u = Ret u'" using serve_unsubscribe_legal [OF assms, of s] by blast
  with UnsubscribeOp show ?thesis by simp
next
  case (EnqueueOp f)
  show ?thesis
  proof (cases "Header_Contains (Hdr f) Destination")
    case None
    with EnqueueOp show ?thesis by (simp add: serve_def)
  next
    case (Some d)
    then obtain u' where "serve S (EnqueueOp f) u = Ret u'" using serve_frame_legal(1) [OF assms] by blast
    with EnqueueOp Some show ?thesis by simp
  qed
next
  case (RequeueOp fo)
  show ?thesis
  proof (cases "request_dest r (up_store u)")
    case None
    with RequeueOp show ?thesis by (cases fo) (simp_all add: serve_def)
  next
    case (Some d)
    with RequeueOp obtain f where f: "fo = Some f" "Header_Contains (Hdr f) Destination = Some d"
      by (auto split: option.splits)
    then obtain u' where "serve S (RequeueOp (Some f)) u = Ret u'" using serve_frame_legal(2) [OF assms] by blast
    with RequeueOp f show ?thesis by simp
  qed
qed (simp_all add: serve_def)

theorem processor_panics_witness:
  "panics (serve memory_storage (EnqueueOp (mk_frame MESSAGE [])) sample_upper) \<and>
   \<not> panics (serve memory_storage (SubscribeOp 4) sample_upper)"
  using processor_panics [OF mem.queue_storage_axioms sample_upper_inv]
  by (simp add: sample_upper_def newRequestProcessor_def newSubscription_def mem_contents_def
      NewMemoryQueueStorage_def lists_get_def)

lemma next_timeout_range:
  "0 \<le> t \<Longrightarrow> t \<le> 5 * Second \<Longrightarrow> next_timeout t = (if t = 0 then 5 * Millisecond else min (t * 2) (5 * Second))"
  by (simp add: next_timeout_def Let_def int64_id min_def)

lemma Listen_bounds:
  "t = 0 \<or> 5 * Millisecond \<le> t \<Longrightarrow> t \<le> 5 * Second \<Longrightarrow>
     list_all (\<lambda>s. 5 * Millisecond \<le> s \<and> s \<le> 5 * Second) (fst (Listen rs t))"
proof (induction rs t rule: Listen.induct)
  case (2 rs t)
  then have "next_timeout t = 0 \<or> 5 * Millisecond \<le> next_timeout t" "next_timeout t \<le> 5 * Second"
    "5 * Millisecond \<le> next_timeout t"
    by (auto simp: next_timeout_range)
  with 2 show ?case by (auto simp: Let_def split: prod.splits)
qed (auto split: prod.splits)

lemma Listen_failures:
  "5 * Millisecond \<le> t \<Longrightarrow> t \<le> 5 * Second \<Longrightarrow>
     fst (Listen (replicate n TemporaryError @ rs) t) =
       map (\<lambda>k. min (t * 2 ^ Suc k) (5 * Second)) [0..<n] @
       fst (Listen rs (if n = 0 then t else min (t * 2 ^ n) (5 * Second)))"
proof (induction n arbitrary: t)
  case 0
  then show ?case by simp
next
  case (Suc n)
  let ?t = "min (t * 2) (5 * Second)"
  have nt: "next_timeout t = ?t" using Suc.prems by (simp add: next_timeout_range)
  have pw: "min (?t * 2 ^ k) (5 * Second) = min (t * 2 ^ Suc k) (5 * Second)" for k
  proof (cases "t * 2 \<le> 5 * Second")
    case False
    have one: "(1::int) \<le> 2 ^ k" by simp
    have a: "5 * Second \<le> 5 * Second * 2 ^ k" using mult_left_mono [OF one, of "5 * Second"] by simp
    have "t * 2 * 1 \<le> t * 2 * 2 ^ k" using Suc.prems by (intro mult_left_mono [OF one]) simp
    also have "t * 2 * 2 ^ k = t * 2 ^ Suc k" by simp
    finally have b: "5 * Second \<le> t * 2 ^ Suc k" using False by linarith
    have "?t = 5 * Second" using False by simp
    with min_absorb2 [OF a] min_absorb2 [OF b] show ?thesis by simp
  qed simp
  have "fst (Listen (replicate (Suc n) TemporaryError @ rs) t) =
      ?t # fst (Listen (replicate n TemporaryError @ rs) ?t)"
    by (simp add: nt Let_def split: prod.splits)
  also have "fst (Listen (replicate n TemporaryError @ rs) ?t) =
      map (\<lambda>k. min (?t * 2 ^ Suc k) (5 * Second)) [0..<n] @
      fst (Listen rs (if n = 0 then ?t else min (?t * 2 ^ n) (5 * Second)))"
    using Suc.prems by (intro Suc.IH) auto
  finally have "fst (Listen (replicate (Suc n) TemporaryError @ rs) t) =
      ?t # map (\<lambda>k. min (t * 2 ^ Suc (Suc k)) (5 * Second)) [0..<n] @
      fst (Listen rs (if n = 0 then ?t else min (t * 2 ^ Suc n) (5 * Second)))" by (simp only: pw)
  moreover have "(if n = 0 then ?t else min (t * 2 ^ Suc n) (5 * Second)) = min (t * 2 ^ Suc n) (5 * Second)"
    by simp
  moreover have "map (\<lambda>k. min (t * 2 ^ Suc k) (5 * Second)) [0..<Suc n] =
      ?t # map (\<lambda>k. min (t * 2 ^ Suc (Suc k)) (5 * Second)) [0..<n]"
    by (simp add: map_upt_Suc del: upt_Suc)
  ultimately show ?case by simp
qed

text \<open>
  The accept loop backs off: after \<open>k\<close> failures in a row the next one sleeps
  \<open>5ms * 2^k\<close> but never more than five seconds, a successful \<open>Accept\<close> starts over, and the
  loop makes one connection for every \<open>Accept\<close> before the first permanent error, at which it
  returns.
\<close>

theorem listen_backoff:
  "fst (Listen (replicate n TemporaryError @ Accepted # rs) 0) =
     map (\<lambda>k. min (5 * Millisecond * 2 ^ k) (5 * Second)) [0..<n] @ fst (Listen rs 0) \<and>
   list_all (\<lambda>s. 5 * Millisecond \<le> s \<and> s \<le> 5 * Second) (fst (Listen rs 0)) \<and>
   snd (Listen rs 0) = (count_list (takeWhile (\<lambda>r. r \<noteq> FatalError) rs) Accepted, FatalError \<in> set rs)"
proof (intro conjI)
  show "fst (Listen (replicate n TemporaryError @ Accepted # rs) 0) =
     map (\<lambda>k. min (5 * Millisecond * 2 ^ k) (5 * Second)) [0..<n] @ fst (Listen rs 0)"
  proof (cases n)
    case 0
    then show ?thesis by (simp split: prod.splits)
  next
    case (Suc m)
    have "fst (Listen (replicate n TemporaryError @ Accepted # rs) 0) =
        5 * Millisecond # fst (Listen (replicate m TemporaryError @ Accepted # rs) (5 * Millisecond))"
      using Suc by (simp add: next_timeout_range Let_def split: prod.splits)
    also have "fst (Listen (replicate m TemporaryError @ Accepted # rs) (5 * Millisecond)) =
        map (\<lambda>k. min (5 * Millisecond * 2 ^ Suc k) (5 * Second)) [0..<m] @ fst (Listen rs 0)"
      using Listen_failures [of "5 * Millisecond" m "Accepted # rs"] by (simp split: prod.splits)
    finally show ?thesis
      using Suc by (simp add: map_upt_Suc del: upt_Suc power_Suc)
  qed
  show "list_all (\<lambda>s. 5 * Millisecond \<le> s \<and> s \<le> 5 * Second) (fst (Listen rs 0))"
    by (rule Listen_bounds) simp_all
  have "snd (Listen rs t) = (count_list (takeWhile (\<lambda>r. r \<noteq> FatalError) rs) Accepted, FatalError \<in> set rs)" for t
    by (induction rs t rule: Listen.induct) (auto simp: Let_def split: prod.splits)
  then show "snd (Listen rs 0) = (count_list (takeWhile (\<lambda>r. r \<noteq> FatalError) rs) Accepted, FatalError \<in> set rs)" .
qed

end
