(* ===== verification/Server_World.thy ===== *)
theory Server_World
  imports Server_Delivery Server_Processor
begin

section \<open>The goroutines of a server\<close>

text \<open>
  Any number of connections and the request processor, interleaved, with the bounds of the
  channels between them. A connection's processing goroutine takes one turn of its loop, or one step
  of its cleanup; the requests of a turn are then put on \<open>requestChannel\<close> one by one, and the goroutine
  does nothing else until all are there, since a send on a full channel blocks. In the same way the processor
  serves one request and is then busy until its deliveries are on the channels of the
  connections. The reading goroutines and the network are events. A panic in any goroutine ends the process.

  The subscriptions are shared objects: they are in the store of the upper layer, on which every turn
  works. Between two synchronisations a goroutine touches only subscriptions that nobody else
  holds (\<open>located\<close> in theory \<open>Server_Safe\<close>), so taking a turn as one step loses no behaviour.
\<close>

subsection \<open>State\<close>

record 'q ServerWorld =
  sw_conns :: "conn_ref \<rightharpoonup> Conn"
  sw_pend :: "conn_ref \<Rightarrow> Request list"
  sw_reqCh :: "Request list"
  sw_upper :: "'q Upper"
  sw_out :: "Delivery list"
  sw_fresh :: sub_ref
  sw_crash :: "string option"

text \<open>The store when nothing has subscribed yet; references from \<open>sw_fresh\<close> on are unused.\<close>

definition no_subs :: sub_store where
  "no_subs = (\<lambda>s. newSubscription 0 [] [] AckAuto)"

definition start_server :: "'q \<Rightarrow> 'q ServerWorld" where
  "start_server storage =
     \<lparr>sw_conns = Map.empty, sw_pend = (\<lambda>_. []), sw_reqCh = [], sw_upper = newRequestProcessor storage no_subs,
      sw_out = [], sw_fresh = 0, sw_crash = None\<rparr>"

text \<open>The server that the package functions \<open>Serve\<close> and \<open>ListenAndServe\<close> make.\<close>

definition default_server :: "string \<Rightarrow> Server" where
  "default_server addr = \<lparr>srv_Addr = addr, srv_Authenticator = None, srv_HeartBeat = 0, srv_Log = None\<rparr>"

lemma default_server_config:
  "Authenticate (newConfig (default_server addr)) login passcode" "cfg_HeartBeat (newConfig (default_server addr)) = Minute"
  "listen_address (default_server []) = DefaultAddr"
  by (simp_all add: default_server_def newConfig_def config_Authenticate_def config_HeartBeat_def DefaultHeartBeat_def listen_address_def)

text \<open>
  The two methods by which other goroutines may send to a client; \<open>None\<close> means that the caller blocks. A connection ends when it has
  written what \<open>SendError\<close> sends.
\<close>

definition Conn_Send :: "Frame \<Rightarrow> Conn \<Rightarrow> Conn option" where
  "Conn_Send f k =
     (if length (c_writeChannel k) < maxPendingWrites then Some (k\<lparr>c_writeChannel := c_writeChannel k @ [f]\<rparr>) else None)"

definition SendError :: "(string \<Rightarrow> string) \<Rightarrow> go_error \<Rightarrow> Conn \<Rightarrow> Conn option" where
  "SendError quote err k = Conn_Send (mk_frame ERROR [(MessageHdr, Error_text quote err)]) k"

lemma SendError_ends:
  assumes "SendError quote err k = Some k'" and "c_writeChannel k' = fs @ [f]"
  shows "c_writeChannel k = fs \<and> \<not> fst (on_write f v)"
  using assms by (auto simp: SendError_def Conn_Send_def on_write_def allocateMessageId_def mk_frame_def split: if_splits prod.splits)

text \<open>What a turn of a connection works on, and its result in the world.\<close>

definition world_view :: "Conn \<Rightarrow> 'q ServerWorld \<Rightarrow> View" where
  "world_view k w = Conn.extend k \<lparr>v_store = up_store (sw_upper w), v_fresh = sw_fresh w, v_req = []\<rparr>"

definition put_view :: "conn_ref \<Rightarrow> View \<Rightarrow> 'q ServerWorld \<Rightarrow> 'q ServerWorld" where
  "put_view c v w =
     w\<lparr>sw_conns := (sw_conns w)(c \<mapsto> Conn.truncate v), sw_pend := (sw_pend w)(c := v_req v),
       sw_upper := (sw_upper w)\<lparr>up_store := v_store v\<rparr>, sw_fresh := v_fresh v\<rparr>"

subsection \<open>Turns\<close>

text \<open>What the \<open>select\<close> of a connection can receive. The write and the subscription channel are never closed.\<close>

fun take_select :: "select_case \<Rightarrow> Conn \<Rightarrow> Conn option" where
  "take_select (SelWrite fo) k =
     (case (fo, c_writeChannel k) of (Some f, x # xs) \<Rightarrow> if x = f then Some (k\<lparr>c_writeChannel := xs\<rparr>) else None | _ \<Rightarrow> None)"
| "take_select (SelRead fo) k =
     (case c_readChannel k of
        x # xs \<Rightarrow> if fo = Some x then Some (k\<lparr>c_readChannel := xs\<rparr>) else None
      | [] \<Rightarrow> if fo = None \<and> c_readClosed k then Some k else None)"
| "take_select (SelSub so) k =
     (case (so, c_subChannel k) of (Some s, x # xs) \<Rightarrow> if x = s then Some (k\<lparr>c_subChannel := xs\<rparr>) else None | _ \<Rightarrow> None)"
| "take_select SelTimer k = (if c_timer k \<or> c_writeTimeout k > 0 then Some k else None)"

text \<open>
  The cleanup of a connection in steps between which the goroutine may block: the phases of
  \<open>cleanupConn\<close>, with the loop of \<open>cleanupSubChannel\<close> one subscription at a time.
\<close>

definition drain_one :: "nat \<Rightarrow> View \<Rightarrow> View \<Rightarrow> View" where
  "drain_one k finished v =
     (case c_subChannel v of
        [] \<Rightarrow> finished
      | s # rest \<Rightarrow> send_request (RequeueOp (sub_frame (v_store v s))) (v\<lparr>c_subChannel := rest, c_pc := Cleanup k\<rparr>))"

definition cleanup_step :: "sub_ref list \<Rightarrow> nat \<Rightarrow> View \<Rightarrow> View" where
  "cleanup_step order k v =
     (if k = 0 then (cleanup_unsubscribe order v)\<lparr>c_pc := Cleanup 1\<rparr>
      else if k = 1 then (cleanup_requeue v)\<lparr>c_pc := Cleanup 2\<rparr>
      else if k = 2 then (discardWriteChannelFrames v)\<lparr>c_pc := Cleanup 3\<rparr>
      else if k = 3 then drain_one 3 (v\<lparr>c_pc := Cleanup 4\<rparr>) v
      else if k = 4 then (cleanup_disconnected v)\<lparr>c_pc := Cleanup 5\<rparr>
      else if k = 5 then (discardWriteChannelFrames v)\<lparr>c_pc := Cleanup 6\<rparr>
      else drain_one 6 (v\<lparr>c_rwClosed := True, c_pc := Closed\<rparr>) v)"

subsection \<open>Steps\<close>

text \<open>\<open>allowed\<close> is what is known of the frames that the clients send.\<close>

inductive server_step :: "'q Storage \<Rightarrow> (string \<Rightarrow> string) \<Rightarrow> Config \<Rightarrow> (Frame \<Rightarrow> bool) \<Rightarrow>
    'q ServerWorld \<Rightarrow> 'q ServerWorld \<Rightarrow> bool" for S quote cfg allowed where
  accept: "sw_crash w = None \<Longrightarrow> sw_conns w c = None \<Longrightarrow>
      server_step S quote cfg allowed w
        (w\<lparr>sw_conns := (sw_conns w)(c \<mapsto> NewConn c (NewWriter room fault)), sw_pend := (sw_pend w)(c := [])\<rparr>)"
| read: "sw_crash w = None \<Longrightarrow> sw_conns w c = Some k \<Longrightarrow> \<not> c_readClosed k \<Longrightarrow>
      length (c_readChannel k) < maxPendingReads \<Longrightarrow> header_ok (Hdr f) \<Longrightarrow> allowed f \<Longrightarrow>
      server_step S quote cfg allowed w
        (w\<lparr>sw_conns := (sw_conns w)(c \<mapsto> k\<lparr>c_readChannel := c_readChannel k @ [f]\<rparr>)\<rparr>)"
| read_end: "sw_crash w = None \<Longrightarrow> sw_conns w c = Some k \<Longrightarrow>
      server_step S quote cfg allowed w (w\<lparr>sw_conns := (sw_conns w)(c \<mapsto> k\<lparr>c_readClosed := True\<rparr>)\<rparr>)"
| turn: "sw_crash w = None \<Longrightarrow> sw_conns w c = Some k \<Longrightarrow> c_pc k = InLoop \<Longrightarrow> sw_pend w c = [] \<Longrightarrow>
      take_select sel k = Some k' \<Longrightarrow> processLoop_turn quote cfg sel (world_view k' w) = Ret (continue, v) \<Longrightarrow>
      server_step S quote cfg allowed w (put_view c (if continue then v else v\<lparr>c_pc := Cleanup 0\<rparr>) w)"
| turn_panic: "sw_crash w = None \<Longrightarrow> sw_conns w c = Some k \<Longrightarrow> c_pc k = InLoop \<Longrightarrow> sw_pend w c = [] \<Longrightarrow>
      take_select sel k = Some k' \<Longrightarrow> processLoop_turn quote cfg sel (world_view k' w) = Panic m \<Longrightarrow>
      server_step S quote cfg allowed w (w\<lparr>sw_crash := Some m\<rparr>)"
| cleanup: "sw_crash w = None \<Longrightarrow> sw_conns w c = Some k \<Longrightarrow> c_pc k = Cleanup n \<Longrightarrow> sw_pend w c = [] \<Longrightarrow>
      map_range (c_subs k) order \<Longrightarrow>
      server_step S quote cfg allowed w (put_view c (cleanup_step order n (world_view k w)) w)"
| post: "sw_crash w = None \<Longrightarrow> sw_pend w c = r # rs \<Longrightarrow> length (sw_reqCh w) < requestChannelCapacity \<Longrightarrow>
      server_step S quote cfg allowed w (w\<lparr>sw_pend := (sw_pend w)(c := rs), sw_reqCh := sw_reqCh w @ [r]\<rparr>)"
| serve: "sw_crash w = None \<Longrightarrow> sw_out w = [] \<Longrightarrow> sw_reqCh w = r # rs \<Longrightarrow>
      serve S r ((sw_upper w)\<lparr>up_out := []\<rparr>) = Ret u \<Longrightarrow>
      server_step S quote cfg allowed w (w\<lparr>sw_reqCh := rs, sw_upper := u, sw_out := up_out u\<rparr>)"
| serve_panic: "sw_crash w = None \<Longrightarrow> sw_out w = [] \<Longrightarrow> sw_reqCh w = r # rs \<Longrightarrow>
      serve S r ((sw_upper w)\<lparr>up_out := []\<rparr>) = Panic m \<Longrightarrow>
      server_step S quote cfg allowed w (w\<lparr>sw_crash := Some m\<rparr>)"
| deliver_sub: "sw_crash w = None \<Longrightarrow> sw_out w = ToSubChannel c s # ds \<Longrightarrow> sw_conns w c = Some k \<Longrightarrow>
      length (c_subChannel k) < maxPendingWrites \<Longrightarrow>
      server_step S quote cfg allowed w
        (w\<lparr>sw_out := ds, sw_conns := (sw_conns w)(c \<mapsto> k\<lparr>c_subChannel := c_subChannel k @ [s]\<rparr>)\<rparr>)"
| deliver_write: "sw_crash w = None \<Longrightarrow> sw_out w = ToWriteChannel c f # ds \<Longrightarrow> sw_conns w c = Some k \<Longrightarrow>
      length (c_writeChannel k) < maxPendingWrites \<Longrightarrow>
      server_step S quote cfg allowed w
        (w\<lparr>sw_out := ds, sw_conns := (sw_conns w)(c \<mapsto> k\<lparr>c_writeChannel := c_writeChannel k @ [f]\<rparr>)\<rparr>)"

inductive server_reachable :: "'q Storage \<Rightarrow> (string \<Rightarrow> string) \<Rightarrow> Config \<Rightarrow> (Frame \<Rightarrow> bool) \<Rightarrow> 'q \<Rightarrow>
    'q ServerWorld \<Rightarrow> bool" for S quote cfg allowed storage where
  start: "server_reachable S quote cfg allowed storage (start_server storage)"
| step: "server_reachable S quote cfg allowed storage w \<Longrightarrow> server_step S quote cfg allowed w w' \<Longrightarrow>
    server_reachable S quote cfg allowed storage w'"

lemma world_view_sel [simp]:
  "c_self (world_view k w) = c_self k" "c_writer (world_view k w) = c_writer k"
  "c_subChannel (world_view k w) = c_subChannel k" "c_writeChannel (world_view k w) = c_writeChannel k"
  "c_readChannel (world_view k w) = c_readChannel k" "c_readClosed (world_view k w) = c_readClosed k"
  "c_state (world_view k w) = c_state k" "c_writeTimeout (world_view k w) = c_writeTimeout k"
  "c_version (world_view k w) = c_version k" "c_txStore (world_view k w) = c_txStore k"
  "c_lastMsgId (world_view k w) = c_lastMsgId k" "c_subList (world_view k w) = c_subList k"
  "c_subs (world_view k w) = c_subs k" "c_validator (world_view k w) = c_validator k"
  "c_timer (world_view k w) = c_timer k" "c_pc (world_view k w) = c_pc k" "c_rwClosed (world_view k w) = c_rwClosed k"
  "v_store (world_view k w) = up_store (sw_upper w)" "v_fresh (world_view k w) = sw_fresh w" "v_req (world_view k w) = []"
  by (simp_all add: world_view_def Conn.extend_def)

lemma truncate_sel [simp]:
  "c_self (Conn.truncate v) = c_self v" "c_writer (Conn.truncate v) = c_writer v"
  "c_subChannel (Conn.truncate v) = c_subChannel v" "c_writeChannel (Conn.truncate v) = c_writeChannel v"
  "c_readChannel (Conn.truncate v) = c_readChannel v" "c_readClosed (Conn.truncate v) = c_readClosed v"
  "c_state (Conn.truncate v) = c_state v" "c_writeTimeout (Conn.truncate v) = c_writeTimeout v"
  "c_version (Conn.truncate v) = c_version v" "c_txStore (Conn.truncate v) = c_txStore v"
  "c_lastMsgId (Conn.truncate v) = c_lastMsgId v" "c_subList (Conn.truncate v) = c_subList v"
  "c_subs (Conn.truncate v) = c_subs v" "c_validator (Conn.truncate v) = c_validator v"
  "c_timer (Conn.truncate v) = c_timer v" "c_pc (Conn.truncate v) = c_pc v" "c_rwClosed (Conn.truncate v) = c_rwClosed v"
  by (simp_all add: Conn.truncate_def)

lemma put_view_sel [simp]:
  "sw_conns (put_view c v w) = (sw_conns w)(c \<mapsto> Conn.truncate v)" "sw_pend (put_view c v w) = (sw_pend w)(c := v_req v)"
  "sw_reqCh (put_view c v w) = sw_reqCh w" "sw_upper (put_view c v w) = (sw_upper w)\<lparr>up_store := v_store v\<rparr>"
  "sw_out (put_view c v w) = sw_out w" "sw_fresh (put_view c v w) = v_fresh v" "sw_crash (put_view c v w) = sw_crash w"
  by (simp_all add: put_view_def)

subsection \<open>The two descriptions of the cleanup agree\<close>

text \<open>The steps one after the other, until the connection is closed.\<close>

fun cleanup_steps :: "nat \<Rightarrow> sub_ref list \<Rightarrow> View \<Rightarrow> View" where
  "cleanup_steps 0 order v = v"
| "cleanup_steps (Suc m) order v =
     (case c_pc v of Cleanup n \<Rightarrow> cleanup_steps m order (cleanup_step order n v) | _ \<Rightarrow> v)"

lemma drain_steps:
  "c_pc v = Cleanup n \<Longrightarrow> (n = 3 \<and> fin = (\<lambda>v. v\<lparr>c_pc := Cleanup 4\<rparr>)) \<or> (n = 6 \<and> fin = (\<lambda>v. v\<lparr>c_rwClosed := True, c_pc := Closed\<rparr>)) \<Longrightarrow>
   cleanup_steps (length (c_subChannel v) + Suc m) order v = cleanup_steps m order (fin (cleanupSubChannel v))"
proof (induction "c_subChannel v" arbitrary: v)
  case Nil
  then have "cleanupSubChannel v = v" by (simp add: cleanupSubChannel_def)
  with Nil show ?case by (auto simp: cleanup_step_def drain_one_def)
next
  case (Cons s ss)
  let ?v = "send_request (RequeueOp (sub_frame (v_store v s))) (v\<lparr>c_subChannel := ss, c_pc := Cleanup n\<rparr>)"
  have "cleanup_step order n v = ?v" using Cons.prems(2) Cons.hyps(2) by (auto simp: cleanup_step_def drain_one_def split: list.splits)
  then have "cleanup_steps (length (c_subChannel v) + Suc m) order v = cleanup_steps (length (c_subChannel ?v) + Suc m) order ?v"
    using Cons.prems(1) Cons.hyps(2) [symmetric] by (simp add: send_request_def)
  also have "\<dots> = cleanup_steps m order (fin (cleanupSubChannel ?v))"
    using Cons.prems(2) by (intro Cons.hyps(1)) (simp_all add: send_request_def)
  also have "fin (cleanupSubChannel ?v) = fin (cleanupSubChannel v)"
    using Cons.prems Cons.hyps(2) [symmetric] by (auto simp: cleanupSubChannel_def send_request_def)
  finally show ?case .
qed

lemma cleanup_steps_agree:
  assumes "c_pc v = Cleanup 0"
  shows "cleanup_steps (length (c_subChannel v) + 7) order v = cleanupConn order (\<lambda>k v. v) v"
proof -
  let ?v1 = "(cleanup_unsubscribe order v)\<lparr>c_pc := Cleanup 1\<rparr>"
  let ?v2 = "(cleanup_requeue ?v1)\<lparr>c_pc := Cleanup 2\<rparr>"
  let ?v3 = "(discardWriteChannelFrames ?v2)\<lparr>c_pc := Cleanup 3\<rparr>"
  let ?v4 = "(cleanupSubChannel ?v3)\<lparr>c_pc := Cleanup 4\<rparr>"
  have ch: "c_subChannel ?v3 = c_subChannel v"
    using cleanup_requeue_eq [of ?v1] by (auto simp: discardWriteChannelFrames_def cleanup_unsubscribe_eq)
  have "cleanup_steps (length (c_subChannel v) + 7) order v = cleanup_steps (length (c_subChannel ?v3) + Suc 3) order ?v3"
    using assms ch by (simp add: cleanup_step_def numeral_eq_Suc)
  also have "\<dots> = cleanup_steps 3 order ?v4" by (rule drain_steps [where n = 3 and fin = "\<lambda>v. v\<lparr>c_pc := Cleanup 4\<rparr>"]) auto
  also have "\<dots> = cleanupConn order (\<lambda>k v. v) v"
    by (simp add: cleanupConn_def cleanup_phase_def cleanup_step_def cleanup_drain_def cleanup_close_def drain_one_def
        cleanupSubChannel_def discardWriteChannelFrames_def cleanup_disconnected_def send_request_def numeral_eq_Suc)
  finally show ?thesis .
qed

end
