(* ===== verification/Server_Polite.thy ===== *)
theory Server_Polite
  imports Server_Session
begin

section \<open>Connections of polite clients\<close>

text \<open>
  Three things that a client may send take the server down: a \<open>SEND\<close> without destination, a subscription in mode
  \<open>client\<close> (or in an unknown mode) that is then acknowledged, and an acknowledgement of message 0. A client that
  does none of them is polite. Here: no frame of a polite client makes a handler panic, and what the handlers
  then do to the state that the goroutines of the server share.
\<close>

subsection \<open>Polite frames\<close>

definition polite :: "Frame \<Rightarrow> bool" where
  "polite f \<longleftrightarrow>
     (if Command f = SEND then Header_Contains (Hdr f) Destination \<noteq> None
      else if Command f = SUBSCRIBE
        then Header_Contains (Hdr f) AckHdr \<in> {None, Some AckAuto, Some AckClientIndividual}
      else if Command f \<in> {ACK, NACK} then ack_message_id f \<noteq> Inr 0
      else True)"

definition addressed :: "Frame \<Rightarrow> bool" where
  "addressed f \<longleftrightarrow> header_ok (Hdr f) \<and> Header_Contains (Hdr f) Destination \<noteq> None"

text \<open>The requests that are always legal: the processor serves them whatever the subscriptions do.\<close>

fun harmless :: "Request \<Rightarrow> bool" where
  "harmless (SubscribeOp s) = False"
| "harmless (UnsubscribeOp s) = True"
| "harmless (EnqueueOp f) = addressed f"
| "harmless (RequeueOp fo) = (case fo of None \<Rightarrow> False | Some f \<Rightarrow> addressed f)"
| "harmless (ConnectedOp c) = True"
| "harmless (DisconnectedOp c) = True"

definition tx_polite :: "txStore \<Rightarrow> bool" where
  "tx_polite txs \<longleftrightarrow> (\<forall>tx l. tx_lookup txs tx = Some l \<longrightarrow> list_all (\<lambda>f. tx_plain f \<and> polite f) l)"

text \<open>The unacknowledged subscriptions of a connection are acknowledged one by one, and none by a polite client.\<close>

definition mild :: "View \<Rightarrow> bool" where
  "mild v \<longleftrightarrow> (\<forall>s \<in> set (c_subList v). sub_ack (v_store v s) = AckClientIndividual \<and> sub_msgId (v_store v s) = 0)"

text \<open>What a handler leaves alone.\<close>

definition same_channels :: "View \<Rightarrow> View \<Rightarrow> bool" where
  "same_channels v v' \<longleftrightarrow>
     c_self v' = c_self v \<and> c_subChannel v' = c_subChannel v \<and> c_writeChannel v' = c_writeChannel v \<and>
     c_readChannel v' = c_readChannel v \<and> c_readClosed v' = c_readClosed v \<and> c_pc v' = c_pc v"

definition calm :: "View \<Rightarrow> View \<Rightarrow> bool" where
  "calm v v' \<longleftrightarrow>
     same_channels v v' \<and> c_subList v' = c_subList v \<and> v_store v' = v_store v \<and> v_fresh v' = v_fresh v \<and>
     (tx_polite (c_txStore v) \<longrightarrow> tx_polite (c_txStore v')) \<and>
     (\<exists>rs. v_req v' = v_req v @ rs \<and> list_all harmless rs)"

lemma calm_refl: "calm v v"
  by (simp add: calm_def same_channels_def)

lemma calm_trans: "calm v1 v2 \<Longrightarrow> calm v2 v3 \<Longrightarrow> calm v1 v3"
  by (auto simp: calm_def same_channels_def)

lemma calm_mild: "calm v v' \<Longrightarrow> mild v' = mild v"
  by (simp add: calm_def mild_def)

lemma calm_upds [simp]:
  "calm v (v'\<lparr>c_writer := w\<rparr>) = calm v v'" "calm v (v'\<lparr>c_timer := b\<rparr>) = calm v v'"
  "calm v (v'\<lparr>c_lastMsgId := n\<rparr>) = calm v v'" "calm v (v'\<lparr>c_state := x\<rparr>) = calm v v'"
  "calm v (v'\<lparr>c_version := ver\<rparr>) = calm v v'" "calm v (v'\<lparr>c_validator := vd\<rparr>) = calm v v'"
  "calm v (v'\<lparr>c_writeTimeout := d\<rparr>) = calm v v'" "calm v (v'\<lparr>c_subs := m\<rparr>) = calm v v'"
  by (simp_all add: calm_def same_channels_def)

lemma calm_request: "calm v v' \<Longrightarrow> harmless r \<Longrightarrow> calm v (send_request r v')"
  by (auto simp: calm_def same_channels_def send_request_def)

lemma calm_put: "calm v v' \<Longrightarrow> (tx_polite (c_txStore v') \<Longrightarrow> tx_polite txs) \<Longrightarrow> calm v (put_tx txs v')"
  by (auto simp: calm_def same_channels_def put_tx_def)

lemma mild_upds [simp]:
  "mild (v\<lparr>c_writer := w\<rparr>) = mild v" "mild (v\<lparr>c_timer := b\<rparr>) = mild v" "mild (v\<lparr>c_lastMsgId := n\<rparr>) = mild v"
  by (simp_all add: mild_def)

subsection \<open>The transaction store\<close>

lemma tx_polite_plain: "tx_polite txs \<Longrightarrow> tx_plain_inv txs"
  by (fastforce simp: tx_polite_def tx_plain_inv_def list_all_iff)

lemma tx_polite_upd:
  "tx_polite txs \<Longrightarrow> tx_lookup txs' = (tx_lookup txs)(tx := lo) \<Longrightarrow>
     (\<And>l. lo = Some l \<Longrightarrow> list_all (\<lambda>f. tx_plain f \<and> polite f) l) \<Longrightarrow> tx_polite txs'"
  by (auto simp: tx_polite_def split: if_splits)

lemma tx_polite_same: "tx_lookup txs' = tx_lookup txs \<Longrightarrow> tx_polite txs \<Longrightarrow> tx_polite txs'"
  by (simp add: tx_polite_def)

lemma tx_polite_Begin: "tx_polite txs \<Longrightarrow> tx_Begin tx txs = (err, txs') \<Longrightarrow> tx_polite txs'"
  by (drule tx_Begin_lookup) (auto intro: tx_polite_same tx_polite_upd [of txs _ tx "Some []"])

lemma tx_polite_Abort: "tx_polite txs \<Longrightarrow> tx_Abort tx txs = (err, txs') \<Longrightarrow> tx_polite txs'"
  by (drule tx_Abort_lookup) (auto intro: tx_polite_upd [of txs _ tx None])

lemma polite_Contains:
  assumes "polite f" and "Command g = Command f"
    and "\<And>k. k \<in> {Destination, AckHdr, MessageId} \<Longrightarrow> Header_Contains (Hdr g) k = Header_Contains (Hdr f) k"
  shows "polite g"
proof -
  have "ack_message_id g = ack_message_id f"
    using assms(3) [of AckHdr] assms(3) [of MessageId] by (simp add: ack_message_id_def cong: option.case_cong)
  with assms(1,2) assms(3) [of Destination] assms(3) [of AckHdr] show ?thesis
    by (auto simp: polite_def split: if_splits)
qed

lemma polite_del:
  "polite f \<Longrightarrow> header_ok (Hdr f) \<Longrightarrow> k \<in> {Transaction, Receipt} \<Longrightarrow> polite (f\<lparr>Hdr := Header_Del (Hdr f) k\<rparr>)"
  by (erule polite_Contains) (auto simp: hm.lookup_del)

lemma tx_polite_Add:
  assumes "tx_polite txs" and "polite f" and "header_ok (Hdr f)" and "Command f \<in> {SEND, ACK, NACK}"
    and "Header_Contains (Hdr f) Receipt = None" and "tx_Add tx f txs = (err, txs')"
  shows "tx_polite txs'"
proof -
  have "tx_plain (f\<lparr>Hdr := Header_Del (Hdr f) Transaction\<rparr>)" "polite (f\<lparr>Hdr := Header_Del (Hdr f) Transaction\<rparr>)"
    using assms(2-5) polite_del [of f Transaction] by (auto simp: tx_plain_def tx_frame_ok_def hm.lookup_del)
  with tx_Add_lookup [OF assms(6)] assms(1) show ?thesis
    by (fastforce simp: tx_polite_def split: if_splits)
qed

subsection \<open>Handlers\<close>

text \<open>A receipt changes the writer only, and the frame stays polite.\<close>

lemma polite_receipt:
  assumes "sendReceiptImmediately f v = (err, g, u)" and "polite f" and "header_ok (Hdr f)"
  obtains w where "u = v\<lparr>c_writer := w\<rparr>" "polite g" "header_ok (Hdr g)" "Command g = Command f"
    "Header_Contains (Hdr g) Receipt = None"
proof -
  have "polite g"
    by (rule polite_Contains [OF assms(2)]) (use sendReceipt_Contains(3,4) [OF assms(1,3)] in auto)
  with sendReceipt_frame [OF assms(1)] sendReceipt_Contains [OF assms(1,3)] that show thesis by auto
qed

lemma store_in_tx_calm:
  assumes "polite f" and "header_ok (Hdr f)" and "Command f \<in> {SEND, ACK, NACK}"
    and "Header_Contains (Hdr f) Receipt = None" and "store_in_tx tx f v = (err, f', v')"
  shows "calm v v'"
proof -
  obtain e txs where a: "tx_Add tx f (c_txStore v) = (e, txs)" by fastforce
  with assms(5) have "v' = put_tx txs v" by (auto simp: store_in_tx_def split: option.splits)
  then show ?thesis using tx_polite_Add [OF _ assms(1-4) a] by (simp add: calm_put calm_refl)
qed

lemma handleSend_calm:
  assumes "polite f" and "header_ok (Hdr f)" and "Command f = SEND" and "handleSend f v = (err, f', v')"
  shows "calm v v'"
proof -
  obtain e g u where r: "sendReceiptImmediately f v = (e, g, u)" using prod_cases3 by blast
  obtain w where g: "u = v\<lparr>c_writer := w\<rparr>" "polite g" "header_ok (Hdr g)" "Command g = SEND"
    "Header_Contains (Hdr g) Receipt = None"
    using polite_receipt [OF r assms(1,2)] assms(3) by metis
  have u: "calm v u" by (simp add: g(1) calm_refl)
  have "addressed (g\<lparr>Command := MESSAGE\<rparr>)" using g(2-4) by (simp add: addressed_def polite_def)
  with u have "calm v (send_request (EnqueueOp (g\<lparr>Command := MESSAGE\<rparr>)) u)" by (simp add: calm_request)
  moreover have "calm v v'" if "store_in_tx tx g u = (err, f', v')" for tx
    using calm_trans [OF u store_in_tx_calm [OF g(2,3) _ g(5) that]] g(4) by simp
  ultimately show ?thesis
    using assms(4) r u by (auto simp: handleSend_def Let_def split: option.splits)
qed

lemma mild_ack:
  assumes "mild v" and "m \<noteq> 0"
  shows "SL_Ack m ack_closure (c_subList v) (v_store v, rs) = Ret (c_subList v, v_store v, rs)"
    "SL_Nack m nack_closure (c_subList v) (v_store v, rs) = (c_subList v, v_store v, rs)"
proof -
  have "\<forall>s \<in> set (c_subList v). valid_ack (sub_ack (v_store v s))" "\<forall>s \<in> set (c_subList v). \<not> acked m (v_store v s)"
    "\<forall>s \<in> set (c_subList v). \<not> IsNackedBy (v_store v s) m"
    using assms by (auto simp: mild_def valid_ack_def acked_def IsAckedBy_def IsNackedBy_def)
  then show "SL_Ack m ack_closure (c_subList v) (v_store v, rs) = Ret (c_subList v, v_store v, rs)"
    "SL_Nack m nack_closure (c_subList v) (v_store v, rs) = (c_subList v, v_store v, rs)"
    by (simp_all add: ack_cb.ack_partition nack_cb.nack_partition filter_True filter_False)
qed

lemma view_same: "(v :: View)\<lparr>c_subList := c_subList v, v_store := v_store v, v_req := v_req v\<rparr> = v"
  by simp

lemma handleAck_calm:
  assumes "polite f" and "header_ok (Hdr f)" and "Command f = ACK" and "mild v"
  shows "\<exists>err f' v'. handleAck f v = Ret (err, f', v') \<and> calm v v'"
proof (cases "ack_message_id f")
  case (Inl err)
  then show ?thesis by (simp add: handleAck_def calm_refl)
next
  case (Inr m)
  with assms(1,3) have m: "m \<noteq> 0" by (simp add: polite_def)
  obtain e g u where r: "sendReceiptImmediately f v = (e, g, u)" using prod_cases3 by blast
  obtain w where g: "u = v\<lparr>c_writer := w\<rparr>" "polite g" "header_ok (Hdr g)" "Command g = ACK"
    "Header_Contains (Hdr g) Receipt = None"
    using polite_receipt [OF r assms(1,2)] assms(3) by metis
  have u: "calm v u" "mild u" using assms(4) by (simp_all add: g(1) calm_refl)
  have "\<exists>err f' v'. store_in_tx tx g u = (err, f', v') \<and> calm v v'" for tx
    using calm_trans [OF u(1) store_in_tx_calm [OF g(2,3) _ g(5)]] g(4) by (metis insertCI prod_cases3)
  then show ?thesis
    using Inr r u(1) mild_ack(1) [OF u(2) m, of "v_req u"]
    by (cases e; cases "Header_Contains (Hdr g) Transaction") (simp_all add: handleAck_def)
qed

lemma handleNack_calm:
  assumes "polite f" and "header_ok (Hdr f)" and "Command f = NACK" and "mild v" and "handleNack f v = (err, f', v')"
  shows "calm v v'"
proof (cases "ack_message_id f")
  case (Inl err)
  with assms(5) show ?thesis by (simp add: handleNack_def calm_refl)
next
  case (Inr m)
  with assms(1,3) have m: "m \<noteq> 0" by (simp add: polite_def)
  obtain e g u where r: "sendReceiptImmediately f v = (e, g, u)" using prod_cases3 by blast
  obtain w where g: "u = v\<lparr>c_writer := w\<rparr>" "polite g" "header_ok (Hdr g)" "Command g = NACK"
    "Header_Contains (Hdr g) Receipt = None"
    using polite_receipt [OF r assms(1,2)] assms(3) by metis
  have u: "calm v u" "mild u" using assms(4) by (simp_all add: g(1) calm_refl)
  have "calm v v'" if "store_in_tx tx g u = (err, f', v')" for tx
    using calm_trans [OF u(1) store_in_tx_calm [OF g(2,3) _ g(5) that]] g(4) by simp
  with assms(5) Inr r u(1) mild_ack(2) [OF u(2) m, of "v_req u"] show ?thesis
    by (auto simp: handleNack_def split: option.splits)
qed

subsection \<open>Commit\<close>

lemma plain_calm:
  assumes "tx_plain f" and "polite f" and "c_state v = Connected" and "mild v"
  shows "\<exists>err v'. commit_func (run_state (Suc 0) cfg) f v = Ret (err, v') \<and> calm v v' \<and> c_state v' = Connected"
proof -
  from assms(1) have f: "header_ok (Hdr f)" "Header_Contains (Hdr f) Receipt = None"
    "Header_Contains (Hdr f) Transaction = None" "Command f \<in> {SEND, ACK, NACK}"
    by (simp_all add: tx_plain_def tx_frame_ok_def)
  have r: "sendReceiptImmediately f v = (None, f, v)" using f(2) by (simp add: sendReceiptImmediately_def)
  have step: "\<exists>err f' v'. connected (run_state 0 cfg) f v = Ret (err, f', v') \<and> calm v v' \<and> c_state v' = Connected"
  proof -
    consider "Command f = SEND" | "Command f = ACK" | "Command f = NACK" using f(4) by blast
    then show ?thesis
    proof cases
      case 1
      have "handleSend f v = (None, f\<lparr>Command := MESSAGE\<rparr>, send_request (EnqueueOp (f\<lparr>Command := MESSAGE\<rparr>)) v)"
        using r f(3) by (simp add: handleSend_def Let_def)
      with handleSend_calm [OF assms(2) f(1) 1] 1 assms(3) show ?thesis
        by (simp add: connected_def) (simp add: send_request_def)
    next
      case 2
      from handleAck_calm [OF assms(2) f(1) 2 assms(4)] obtain err f' v'
        where a: "handleAck f v = Ret (err, f', v')" "calm v v'" by blast
      with r f(3) assms(3) have "c_state v' = Connected"
        by (auto simp: handleAck_def go_bind_eq_Ret split: sum.splits)
      with a 2 show ?thesis by (simp add: connected_def)
    next
      case 3
      obtain err f' v' where a: "handleNack f v = (err, f', v')" using prod_cases3 by blast
      with r f(3) assms(3) have "c_state v' = Connected"
        by (auto simp: handleNack_def split: sum.splits prod.splits)
      with a 3 handleNack_calm [OF assms(2) f(1) 3 assms(4) a] show ?thesis by (simp add: connected_def)
    qed
  qed
  then show ?thesis using assms(3) by (auto simp: commit_func_def)
qed

lemma run_frames_calm:
  "list_all (\<lambda>f. tx_plain f \<and> polite f) l \<Longrightarrow> c_state v = Connected \<Longrightarrow> mild v \<Longrightarrow>
   \<exists>err rest v'. run_frames (commit_func (run_state (Suc 0) cfg)) l v = Ret (err, rest, v') \<and> calm v v' \<and>
     list_all (\<lambda>f. tx_plain f \<and> polite f) rest"
proof (induction l arbitrary: v)
  case Nil
  then show ?case by (simp add: calm_refl)
next
  case (Cons f l)
  then obtain e u where s: "commit_func (run_state (Suc 0) cfg) f v = Ret (e, u)" "calm v u" "c_state u = Connected"
    using plain_calm [of f v cfg] by auto
  show ?case
  proof (cases e)
    case None
    from Cons.IH [of u] Cons.prems s calm_mild [OF s(2)] obtain err rest v'
      where "run_frames (commit_func (run_state (Suc 0) cfg)) l u = Ret (err, rest, v')" "calm u v'"
        "list_all (\<lambda>f. tx_plain f \<and> polite f) rest" by (auto simp del: run_state.simps)
    with s None calm_trans [OF s(2)] show ?thesis by (simp del: run_state.simps)
  next
    case (Some x)
    with s Cons.prems show ?thesis by (simp del: run_state.simps)
  qed
qed

lemma tx_Commit_calm:
  assumes "c_state v = Connected" and "mild v" and "tx_polite (c_txStore v)"
  shows "\<exists>err v'. tx_Commit c_txStore put_tx tx (commit_func (run_state (Suc 0) cfg)) v = Ret (err, v') \<and> calm v v'"
proof (cases "tx_lookup (c_txStore v) tx")
  case None
  then show ?thesis by (simp add: tx_Commit_def calm_refl)
next
  case (Some l)
  with assms(3) have l: "list_all (\<lambda>f. tx_plain f \<and> polite f) l" by (simp add: tx_polite_def)
  from run_frames_calm [OF l assms(1,2)] obtain e rest u
    where run: "run_frames (commit_func (run_state (Suc 0) cfg)) l v = Ret (e, rest, u)" "calm v u"
      and rest: "list_all (\<lambda>f. tx_plain f \<and> polite f) rest" by blast
  let ?lo = "case e of None \<Rightarrow> None | Some x \<Rightarrow> Some rest"
  have "tx_Commit c_txStore put_tx tx (commit_func (run_state (Suc 0) cfg)) v =
      Ret (e, put_tx (tx_assign tx ?lo (c_txStore v)) u)"
    using conn_tx.commit_run [OF tx_plain_tx_inv [OF tx_polite_plain [OF assms(3)]] Some, of 0 cfg] run(1)
    by (cases e) (simp_all del: run_state.simps)
  moreover have "tx_polite (tx_assign tx ?lo (c_txStore v))"
    by (rule tx_polite_upd [OF assms(3), of _ tx ?lo]) (use Some rest in \<open>auto split: option.splits\<close>)
  ultimately show ?thesis using run(2) by (auto intro: calm_put)
qed

lemma handleCommit_calm:
  assumes "polite f" and "header_ok (Hdr f)" and "c_state v = Connected" and "mild v" and "tx_polite (c_txStore v)"
  shows "\<exists>err f' v'. handleCommit (run_state (Suc 0) cfg) f v = Ret (err, f', v') \<and> calm v v'"
proof -
  obtain e g u where r: "sendReceiptImmediately f v = (e, g, u)" using prod_cases3 by blast
  obtain w where u: "u = v\<lparr>c_writer := w\<rparr>" using polite_receipt [OF r assms(1,2)] by metis
  have "\<exists>err v'. tx_Commit c_txStore put_tx tx (commit_func (run_state (Suc 0) cfg)) u = Ret (err, v') \<and> calm v v'" for tx
    using tx_Commit_calm [of u tx cfg] calm_trans [of v u] assms(3-5) by (auto simp: u calm_refl)
  then have "\<exists>err f' v'. go_bind (tx_Commit c_txStore put_tx tx (commit_func (run_state (Suc 0) cfg)) u)
      (\<lambda>(err, v''). Ret (err, g, v'')) = Ret (err, f', v') \<and> calm v v'" for tx
    by (fastforce simp: go_bind_eq_Ret simp del: run_state.simps)
  with r show ?thesis
    by (cases e; cases "Header_Contains (Hdr f) Transaction")
      (simp_all add: handleCommit_def calm_refl u del: run_state.simps)
qed

subsection \<open>State functions\<close>

text \<open>What a polite frame does: a new subscription that asks for its first message, or nothing to any subscription.\<close>

definition subscribed :: "View \<Rightarrow> View \<Rightarrow> bool" where
  "subscribed v v' \<longleftrightarrow>
     same_channels v v' \<and> c_subList v' = c_subList v \<and> c_txStore v' = c_txStore v \<and> v_fresh v' = Suc (v_fresh v) \<and>
     (\<exists>dest i ack. ack \<in> {AckAuto, AckClientIndividual} \<and>
        v_store v' = (v_store v)(v_fresh v := newSubscription (c_self v) dest i ack)) \<and>
     v_req v' = v_req v @ [SubscribeOp (v_fresh v)]"

lemma subscribed_upds [simp]:
  "subscribed v (v'\<lparr>c_writer := w\<rparr>) = subscribed v v'" "subscribed (v\<lparr>c_timer := b\<rparr>) v' = subscribed v v'"
  by (simp_all add: subscribed_def same_channels_def)

lemma calm_from [simp]: "calm (v\<lparr>c_timer := b\<rparr>) v' = calm v v'"
  by (simp add: calm_def same_channels_def)

lemma handleSubscribe_polite:
  assumes "polite f" and "Command f = SUBSCRIBE" and "handleSubscribe f v = (err, f', v')"
  shows "calm v v' \<or> subscribed v v'"
proof (cases "Header_Contains (Hdr f) IdHdr = None \<or> Header_Contains (Hdr f) Destination = None \<or>
    c_subs v (Header_Get (Hdr f) IdHdr) \<noteq> None")
  case True
  with assms(3) show ?thesis
    by (auto simp: handleSubscribe_def Let_def Header_Get_def calm_refl split: option.splits)
next
  case False
  then obtain i dest where f: "Header_Contains (Hdr f) IdHdr = Some i" "Header_Contains (Hdr f) Destination = Some dest"
    "c_subs v i = None" by (auto simp: Header_Get_def)
  let ?ack = "case Header_Contains (Hdr f) AckHdr of Some a \<Rightarrow> a | None \<Rightarrow> AckAuto"
  from assms(1,2) have ack: "?ack \<in> {AckAuto, AckClientIndividual}" by (auto simp: polite_def)
  have v': "v' = send_request (SubscribeOp (v_fresh v)) (v\<lparr>v_fresh := Suc (v_fresh v),
      v_store := (v_store v)(v_fresh v := newSubscription (c_self v) dest i ?ack), c_subs := (c_subs v)(i \<mapsto> v_fresh v)\<rparr>)"
    using f assms(3) by (auto simp: handleSubscribe_def Let_def simp del: fun_upd_apply)
  then have "v_store v' = (v_store v)(v_fresh v := newSubscription (c_self v) dest i ?ack)"
    by (simp add: send_request_def)
  with ack v' have "subscribed v v'"
    unfolding subscribed_def by (auto simp: same_channels_def send_request_def simp del: fun_upd_apply)
  then show ?thesis ..
qed

lemma stateFunc_polite:
  assumes "polite f" and "header_ok (Hdr f)" and "mild v" and "tx_polite (c_txStore v)"
  shows "\<exists>err f' v'. stateFunc cfg f v = Ret (err, f', v') \<and> (calm v v' \<or> subscribed v v')"
proof (cases "c_state v")
  case Connecting
  have "\<exists>err f' v'. connecting cfg f v = (err, f', v') \<and> calm v v'"
  proof (cases "connect_ok cfg f")
    case True
    have "calm v (v\<lparr>v_req := v_req v @ [ConnectedOp (c_self v)]\<rparr>)"
      using calm_request [OF calm_refl, of "ConnectedOp (c_self v)" v] by (simp add: send_request_def)
    then show ?thesis
      by (rule_tac connecting_accepts [OF True, of v]) (simp, simp add: calm_def same_channels_def)
  next
    case False
    show ?thesis by (rule connecting_rejects [OF False, of v]) (simp add: calm_refl)
  qed
  with Connecting show ?thesis by (auto simp: connecting_state)
next
  case Connected
  let ?st = "run_state (Suc 0) cfg"
  define ok where "ok m \<longleftrightarrow> (\<exists>err f' v'. m = Ret (err, f', v') \<and> (calm v v' \<or> subscribed v v'))"
    for m :: "handler_result go"
  have okI: "ok (Ret h)" if "calm v (snd (snd h)) \<or> subscribed v (snd (snd h))" for h
    using that by (cases h) (auto simp: ok_def)
  obtain e g u where r: "sendReceiptImmediately f v = (e, g, u)" using prod_cases3 by blast
  obtain w where u: "u = v\<lparr>c_writer := w\<rparr>" using polite_receipt [OF r assms(1,2)] by metis
  have "ok (Ret (handleDisconnect f v))"
    using r by (intro okI) (simp add: handleDisconnect_def u calm_refl)
  moreover have "ok (Ret (handleBegin f v))"
    using r tx_polite_Begin [of "c_txStore v"]
    by (intro okI) (auto simp: handleBegin_def u calm_refl intro!: calm_put split: option.splits prod.splits)
  moreover have "ok (Ret (handleAbort f v))"
    using r tx_polite_Abort [of "c_txStore v"]
    by (intro okI) (auto simp: handleAbort_def u calm_refl intro!: calm_put split: option.splits prod.splits)
  moreover have "ok (Ret (handleUnsubscribe f v))"
    by (intro okI) (auto simp: handleUnsubscribe_def calm_refl intro!: calm_request split: option.splits)
  moreover have "ok (handleCommit ?st f v)"
    using handleCommit_calm [OF assms(1,2) Connected assms(3,4), of cfg] unfolding ok_def by blast
  moreover have "ok (Ret (handleSend f v))" if "Command f = SEND"
    using handleSend_calm [OF assms(1,2) that, of v] by (intro okI) (metis prod.collapse)
  moreover have "ok (Ret (handleSubscribe f v))" if "Command f = SUBSCRIBE"
    using handleSubscribe_polite [OF assms(1) that, of v] by (intro okI) (metis prod.collapse)
  moreover have "ok (handleAck f v)" if "Command f = ACK"
    using handleAck_calm [OF assms(1,2) that assms(3)] unfolding ok_def by blast
  moreover have "ok (Ret (handleNack f v))" if "Command f = NACK"
    using handleNack_calm [OF assms(1,2) that assms(3)] by (intro okI) (metis prod.collapse)
  moreover have "ok (Ret (err, f, v))" for err by (rule okI) (simp add: calm_refl)
  ultimately have "ok (connected ?st f v)"
    by (simp add: connected_def del: run_state.simps)
  then show ?thesis unfolding ok_def by (simp only: stateFunc_connected [OF Connected])
qed

subsection \<open>Turns of the loop\<close>

lemma sendError_view: "\<exists>w. sendErrorImmediately quote e fo v = v\<lparr>c_writer := w\<rparr>"
  unfolding sendErrorImmediately_def Let_def by (metis prod.collapse sendImmediately_frame)

lemma on_read_polite:
  assumes "polite f" and "header_ok (Hdr f)" and "mild v" and "tx_polite (c_txStore v)"
  shows "\<exists>b v'. on_read quote cfg f v = Ret (b, v') \<and> (calm v v' \<or> subscribed v v')"
proof -
  obtain err f' u where u: "stateFunc cfg f v = Ret (err, f', u)" "calm v u \<or> subscribed v u"
    using stateFunc_polite [OF assms, of cfg] by blast
  show ?thesis
  proof (cases err)
    case None
    with u show ?thesis by (auto simp: on_read_state)
  next
    case (Some e)
    obtain w where "sendErrorImmediately quote e (Some f') u = u\<lparr>c_writer := w\<rparr>" using sendError_view by blast
    with Some u show ?thesis by (auto simp: on_read_state)
  qed
qed

text \<open>
  What a turn does with a subscription that the upper layer has handed over with a message: the message is given back,
  or was lost with the connection; or the subscription asks for the next one; or it waits for the acknowledgement.
\<close>

definition handed_over :: "sub_ref \<Rightarrow> View \<Rightarrow> View \<Rightarrow> bool" where
  "handed_over s v v' \<longleftrightarrow>
     same_channels v v' \<and> c_txStore v' = c_txStore v \<and> v_fresh v' = v_fresh v \<and>
     ((\<exists>f rs. addressed f \<and> v_store v' = (v_store v)(s := (v_store v s)\<lparr>sub_frame := Some f\<rparr>) \<and>
         c_subList v' = c_subList v \<and> v_req v' = v_req v @ rs \<and> list_all harmless rs) \<or>
      v_store v' = (v_store v)(s := (v_store v s)\<lparr>sub_frame := None\<rparr>) \<and> c_subList v' = c_subList v \<and>
        v_req v' = v_req v @ [SubscribeOp s] \<or>
      (\<exists>f. addressed f \<and> sub_ack (v_store v s) \<noteq> AckAuto \<and>
         v_store v' = (v_store v)(s := (v_store v s)\<lparr>sub_frame := Some f, sub_subList := Some (ConnList (c_self v))\<rparr>) \<and>
         c_subList v' = c_subList v @ [s] \<and> v_req v' = v_req v))"

lemma addressed_set: "addressed f \<Longrightarrow> k \<noteq> Destination \<Longrightarrow> addressed (f\<lparr>Hdr := Header_Set (Hdr f) k x\<rparr>)"
  by (simp add: addressed_def hm.put_other)

lemma addressed_allocate:
  "addressed f \<Longrightarrow> allocateMessageId f sub v = (f', v') \<Longrightarrow> addressed f'"
  by (auto simp: allocateMessageId_def Let_def addressed_def hm.lookup_put hm.lookup_del split: if_splits)

lemma on_sub_polite:
  assumes "sub_frame (v_store v s) = Some f" and "addressed f" and "sub_subList (v_store v s) = None"
  shows "\<exists>b v'. on_sub s v = Ret (b, v') \<and> handed_over s v v'"
proof (cases "c_subs v (sub_id (v_store v s))")
  case None
  have "(v_store v)(s := (v_store v s)\<lparr>sub_frame := Some f\<rparr>) = v_store v" using assms(1) by (simp add: fun_upd_idem)
  with None assms show ?thesis
    by (auto simp: on_sub_def handed_over_def same_channels_def send_request_def intro!: exI [of _ f])
next
  case (Some x)
  let ?sub = "v_store v s"
  obtain f' v1 where a: "allocateMessageId f (Some ?sub) (v\<lparr>c_timer := False\<rparr>) = (f', v1)" by fastforce
  obtain n where v1: "v1 = v\<lparr>c_timer := False, c_lastMsgId := n\<rparr>"
    using allocateMessageId_view [of f "Some ?sub" "v\<lparr>c_timer := False\<rparr>"] a by auto
  have f': "addressed f'" by (rule addressed_allocate [OF assms(2) a])
  let ?v2 = "v1\<lparr>v_store := (v_store v1)(s := ?sub\<lparr>sub_frame := Some f'\<rparr>)\<rparr>"
  obtain err v3 where w: "sendImmediately (Some f') ?v2 = (err, v3)" by fastforce
  obtain wr where v3: "v3 = ?v2\<lparr>c_writer := wr\<rparr>" using sendImmediately_frame [OF w] by blast
  have on: "on_sub s v =
      (if err \<noteq> None then Ret (False, v3)
       else if sub_ack ?sub = AckAuto
         then Ret (True, send_request (SubscribeOp s) (v3\<lparr>v_store := (v_store v)(s := ?sub\<lparr>sub_frame := None\<rparr>)\<rparr>))
       else Ret (True, v3\<lparr>c_subList := c_subList v @ [s],
              v_store := (v_store v)(s := ?sub\<lparr>sub_frame := Some f', sub_subList := Some (ConnList (c_self v))\<rparr>)\<rparr>))"
    using Some assms a w by (auto simp: on_sub_def Let_def SL_Add_def v3 v1)
  show ?thesis
  proof (cases "err \<noteq> None \<or> sub_ack ?sub = AckAuto")
    case True
    with on f' show ?thesis
      by (cases "err = None") (auto simp: v3 v1 handed_over_def same_channels_def send_request_def)
  next
    case False
    with on f' show ?thesis by (auto simp: v3 v1 handed_over_def same_channels_def)
  qed
qed

fun select_polite :: "select_case \<Rightarrow> sub_store \<Rightarrow> bool" where
  "select_polite (SelRead (Some f)) st = (polite f \<and> header_ok (Hdr f))"
| "select_polite (SelSub (Some s)) st =
     ((case sub_frame (st s) of None \<Rightarrow> False | Some f \<Rightarrow> addressed f) \<and> sub_subList (st s) = None)"
| "select_polite sel st = True"

lemma turn_polite:
  assumes "mild v" and "tx_polite (c_txStore v)" and "select_polite sel (v_store v)"
  obtains b v' where "processLoop_turn quote cfg sel v = Ret (b, v')"
    "calm v v' \<or> subscribed v v' \<or> (\<exists>s. sel = SelSub (Some s) \<and> handed_over s v v')"
proof -
  obtain tm where p: "loop_prologue v = v\<lparr>c_timer := tm\<rparr>" using prologue_timer by blast
  let ?v = "v\<lparr>c_timer := tm\<rparr>"
  have w: "calm v (snd (on_write f ?v))" for f using on_write_view [of f ?v] by (auto simp: calm_refl)
  have t: "calm v (snd (on_timer ?v))" using on_timer_view [of ?v] by (auto simp: calm_refl)
  consider "sel \<in> {SelWrite None, SelRead None, SelSub None}" | f where "sel = SelWrite (Some f)"
    | f where "sel = SelRead (Some f)" | s where "sel = SelSub (Some s)" | "sel = SelTimer"
    by (metis insertCI option.exhaust select_case.exhaust)
  then show thesis
  proof cases
    case 1
    then have "processLoop_turn quote cfg sel v = Ret (False, ?v)" using p by (auto simp: processLoop_turn_def)
    with that [of False ?v] show thesis by (simp add: calm_refl)
  next
    case 2
    then have "processLoop_turn quote cfg sel v = Ret (on_write f ?v)" using p by (simp add: processLoop_turn_def)
    with w [of f] that show thesis by (metis prod.collapse)
  next
    case 3
    with assms obtain b v' where "on_read quote cfg f ?v = Ret (b, v')" "calm ?v v' \<or> subscribed ?v v'"
      using on_read_polite [of f ?v quote cfg] by auto
    with 3 p that show thesis by (simp add: processLoop_turn_def)
  next
    case 4
    with assms(3) obtain f where "sub_frame (v_store v s) = Some f" "addressed f" "sub_subList (v_store v s) = None"
      by (auto split: option.splits)
    then obtain b v' where "on_sub s ?v = Ret (b, v')" "handed_over s ?v v'"
      using on_sub_polite [of ?v s f] by auto
    moreover from this have "handed_over s v v'" by (simp add: handed_over_def same_channels_def)
    ultimately show thesis using 4 p that by (simp add: processLoop_turn_def)
  next
    case 5
    then have "processLoop_turn quote cfg sel v = Ret (on_timer ?v)" using p by (simp add: processLoop_turn_def)
    with t that show thesis by (metis prod.collapse)
  qed
qed

end
