(* ===== verification/Server_Safe.thy ===== *)
theory Server_Safe
  imports Server_World Server_Polite
begin

section \<open>A server of polite clients does not crash\<close>

text \<open>
  The invariant of the whole server. A subscription object moves: from the connection that creates it to the
  request channel, to a queue or topic, with a message through the processor's hands to the channel of its connection, and
  from there back to the upper layer or into the list of the unacknowledged. A map \<open>loc\<close> from subscriptions to places witnesses
  that it is in at most one place at a time; in each place it carries a message or not, as the code there expects.
\<close>

subsection \<open>Places\<close>

datatype place =
    AtReq
  | AtPend conn_ref
  | AtQueue string
  | AtTopic string
  | AtOut conn_ref
  | AtChan conn_ref
  | AtList conn_ref
  | Nowhere

fun asks :: "Request list \<Rightarrow> sub_ref list" where
  "asks [] = []"
| "asks (SubscribeOp s # rs) = s # asks rs"
| "asks (r # rs) = asks rs"

fun out_subs :: "conn_ref \<Rightarrow> Delivery list \<Rightarrow> sub_ref list" where
  "out_subs c [] = []"
| "out_subs c (ToSubChannel d s # ds) = (if d = c then s # out_subs c ds else out_subs c ds)"
| "out_subs c (ToWriteChannel d f # ds) = out_subs c ds"

text \<open>The subscriptions that are in a place.\<close>

fun held :: "'q ServerWorld \<Rightarrow> place \<Rightarrow> sub_ref list" where
  "held w AtReq = asks (sw_reqCh w)"
| "held w (AtPend c) = asks (sw_pend w c)"
| "held w (AtQueue d) = (case up_qm (sw_upper w) d of None \<Rightarrow> [] | Some q \<Rightarrow> q_subs q)"
| "held w (AtTopic d) = (case up_tm (sw_upper w) d of None \<Rightarrow> [] | Some t \<Rightarrow> t_subs t)"
| "held w (AtOut c) = out_subs c (sw_out w)"
| "held w (AtChan c) = (case sw_conns w c of None \<Rightarrow> [] | Some k \<Rightarrow> c_subChannel k)"
| "held w (AtList c) = (case sw_conns w c of None \<Rightarrow> [] | Some k \<Rightarrow> c_subList k)"
| "held w Nowhere = []"

definition located :: "(sub_ref \<Rightarrow> place) \<Rightarrow> (place \<Rightarrow> sub_ref list) \<Rightarrow> bool" where
  "located loc h \<longleftrightarrow> (\<forall>p. distinct (h p) \<and> (\<forall>s \<in> set (h p). loc s = p))"

text \<open>What a subscription carries in a place. The queues and topics have their own invariant.\<close>

definition carries :: "Subscription \<Rightarrow> bool" where
  "carries sub \<longleftrightarrow> (case sub_frame sub of None \<Rightarrow> False | Some f \<Rightarrow> addressed f)"

fun placed :: "place \<Rightarrow> Subscription \<Rightarrow> bool" where
  "placed AtReq sub = (sub_frame sub = None \<and> sub_subList sub = None)"
| "placed (AtPend c) sub = (sub_frame sub = None \<and> sub_subList sub = None)"
| "placed (AtQueue d) sub = True"
| "placed (AtTopic d) sub = True"
| "placed (AtOut c) sub = (carries sub \<and> sub_subList sub = None \<and> sub_conn sub = c)"
| "placed (AtChan c) sub = (carries sub \<and> sub_subList sub = None)"
| "placed (AtList c) sub = (carries sub \<and> sub_ack sub \<noteq> AckAuto)"
| "placed Nowhere sub = True"

lemma asks_append [simp]: "asks (rs @ rs') = asks rs @ asks rs'"
  by (induction rs rule: asks.induct) simp_all

lemma asks_harmless [simp]: "list_all harmless rs \<Longrightarrow> asks rs = []"
  by (induction rs rule: asks.induct) simp_all

lemma out_subs_append [simp]: "out_subs c (ds @ ds') = out_subs c ds @ out_subs c ds'"
  by (induction c ds rule: out_subs.induct) simp_all

subsection \<open>Moving a subscription\<close>

text \<open>Places may lose subscriptions; a subscription that moves must have left the place where it was.\<close>

lemma located_shrink:
  "located loc h \<Longrightarrow> (\<And>p. distinct (h' p) \<and> set (h' p) \<subseteq> set (h p)) \<Longrightarrow> located loc h'"
  by (fastforce simp: located_def)

lemma located_move:
  assumes "located loc h" and "loc s = p" and "s \<notin> set (h' p)" and "p \<noteq> q" and "h' q = h q @ [s]"
    and "\<And>p'. p' \<noteq> q \<Longrightarrow> distinct (h' p') \<and> set (h' p') \<subseteq> set (h p')"
  shows "located (loc(s := q)) h'"
  unfolding located_def
proof (intro allI)
  fix p'
  have s: "s \<notin> set (h p')" if "p' \<noteq> p" using assms(1,2) that by (auto simp: located_def)
  show "distinct (h' p') \<and> (\<forall>x \<in> set (h' p'). (loc(s := q)) x = p')"
  proof (cases "p' = q")
    case True
    with assms(1,4,5) s show ?thesis by (auto simp: located_def)
  next
    case False
    have "s \<notin> set (h' p')" using s assms(3) assms(6) [OF False] by (cases "p' = p") auto
    with assms(1) assms(6) [OF False] False show ?thesis by (fastforce simp: located_def)
  qed
qed

lemma located_append:
  assumes "located loc h" and "loc s = p" and "s \<notin> set (h p)" and "p \<noteq> q" and "h' = h(q := h q @ [s])"
  shows "located (loc(s := q)) h'"
  by (rule located_move [OF assms(1,2)]) (use assms in \<open>auto simp: located_def\<close>)

subsection \<open>The invariant\<close>

definition request_ok :: "Request \<Rightarrow> bool" where
  "request_ok r \<longleftrightarrow> (case r of SubscribeOp s \<Rightarrow> True | _ \<Rightarrow> harmless r)"

definition requests_ok :: "'q ServerWorld \<Rightarrow> bool" where
  "requests_ok w \<longleftrightarrow> list_all request_ok (sw_reqCh w) \<and> (\<forall>c. list_all request_ok (sw_pend w c))"

definition conn_ok :: "conn_ref \<Rightarrow> Conn \<Rightarrow> bool" where
  "conn_ok c k \<longleftrightarrow> c_self k = c \<and> tx_polite (c_txStore k) \<and> list_all (\<lambda>f. polite f \<and> header_ok (Hdr f)) (c_readChannel k)"

definition conns_ok :: "'q ServerWorld \<Rightarrow> bool" where
  "conns_ok w \<longleftrightarrow> (\<forall>c k. sw_conns w c = Some k \<longrightarrow> conn_ok c k)"

definition subs_ok :: "(sub_ref \<Rightarrow> place) \<Rightarrow> sub_store \<Rightarrow> sub_ref \<Rightarrow> bool" where
  "subs_ok loc st fresh \<longleftrightarrow>
     (\<forall>s. placed (loc s) (st s) \<and> sub_msgId (st s) = 0 \<and> sub_ack (st s) \<in> {AckAuto, AckClientIndividual} \<and>
        (fresh \<le> s \<longrightarrow> loc s = Nowhere))"

definition upper_ok :: "('q \<Rightarrow> string \<Rightarrow> Frame list) \<Rightarrow> ('q \<Rightarrow> bool) \<Rightarrow> 'q Upper \<Rightarrow> bool" where
  "upper_ok contents started u \<longleftrightarrow> upper_inv contents started u \<and> (\<forall>d. list_all addressed (contents (up_storage u) d))"

definition server_inv :: "('q \<Rightarrow> string \<Rightarrow> Frame list) \<Rightarrow> ('q \<Rightarrow> bool) \<Rightarrow> (sub_ref \<Rightarrow> place) \<Rightarrow> 'q ServerWorld \<Rightarrow> bool" where
  "server_inv contents started loc w \<longleftrightarrow>
     sw_crash w = None \<and> located loc (held w) \<and> subs_ok loc (up_store (sw_upper w)) (sw_fresh w) \<and>
     upper_ok contents started (sw_upper w) \<and> requests_ok w \<and> conns_ok w"

lemmas server_inv_parts = server_inv_def requests_ok_def conns_ok_def conn_ok_def

lemma request_ok_harmless: "harmless r \<Longrightarrow> request_ok r"
  by (cases r) (simp_all add: request_ok_def)

lemma requests_ok_harmless: "list_all harmless rs \<Longrightarrow> list_all request_ok rs"
  by (auto simp: list_all_iff request_ok_harmless)

lemma subs_ok_upd:
  "subs_ok loc st n \<Longrightarrow> s < n \<Longrightarrow> placed p sub \<Longrightarrow> sub_msgId sub = sub_msgId (st s) \<Longrightarrow> sub_ack sub = sub_ack (st s) \<Longrightarrow>
     subs_ok (loc(s := p)) (st(s := sub)) n"
  by (auto simp: subs_ok_def)

lemma subs_okD:
  assumes "subs_ok loc st n"
  shows "placed (loc s) (st s)" "sub_msgId (st s) = 0" "sub_ack (st s) \<noteq> AckAuto \<Longrightarrow> sub_ack (st s) = AckClientIndividual"
    "n \<le> s \<Longrightarrow> loc s = Nowhere"
  using assms by (auto simp: subs_ok_def)

lemma subs_ok_old: "subs_ok loc st n \<Longrightarrow> loc s \<noteq> Nowhere \<Longrightarrow> s < n"
  by (metis linorder_not_less subs_ok_def)

text \<open>The queues and topics see only the subscriptions that they hold.\<close>

lemma upper_ok_store:
  assumes "upper_ok contents started (sw_upper w)" and "located loc (held w)"
    and "\<And>s d. loc s = AtQueue d \<or> loc s = AtTopic d \<Longrightarrow> st s = up_store (sw_upper w) s"
  shows "upper_ok contents started ((sw_upper w)\<lparr>up_store := st\<rparr>)"
proof -
  have q: "loc s = AtQueue d" if "up_qm (sw_upper w) d = Some q" "s \<in> set (q_subs q)" for s d q
    using assms(2) that unfolding located_def by (auto dest!: spec [of _ "AtQueue d"])
  have t: "loc s = AtTopic d" if "up_tm (sw_upper w) d = Some t" "s \<in> set (t_subs t)" for s d t
    using assms(2) that unfolding located_def by (auto dest!: spec [of _ "AtTopic d"])
  have "upper_inv contents started ((sw_upper w)\<lparr>up_store := st\<rparr>)"
    unfolding upper_inv_def
  proof (intro conjI allI impI)
    show "started (up_storage ((sw_upper w)\<lparr>up_store := st\<rparr>))" using assms(1) by (simp add: upper_ok_def upper_inv_def)
  next
    fix d x assume x: "up_qm ((sw_upper w)\<lparr>up_store := st\<rparr>) d = Some x"
    then have "\<forall>s \<in> set (q_subs x). st s = up_store (sw_upper w) s" using q [of d x] assms(3) by auto
    with x assms(1) show "q_destination x = d" "isQueueDestination d"
      "queue_inv contents started (queue_view ((sw_upper w)\<lparr>up_store := st\<rparr>) x)"
      by (auto simp: upper_ok_def upper_inv_def queue_view_def queue_inv_def list_inv_def)
  next
    fix d x assume x: "up_tm ((sw_upper w)\<lparr>up_store := st\<rparr>) d = Some x"
    then have "\<forall>s \<in> set (t_subs x). st s = up_store (sw_upper w) s" using t [of d x] assms(3) by auto
    with x assms(1) show "t_destination x = d" "\<not> isQueueDestination d"
      "\<forall>s \<in> set (t_subs x). sub_dest (up_store ((sw_upper w)\<lparr>up_store := st\<rparr>) s) = d \<and>
         sub_frame (up_store ((sw_upper w)\<lparr>up_store := st\<rparr>) s) = None"
      by (auto simp: upper_ok_def upper_inv_def)
  qed
  with assms(1) show ?thesis by (simp add: upper_ok_def)
qed

lemma start_inv:
  assumes "queue_storage S contents started" and "started storage" and "contents storage = (\<lambda>d. [])"
  shows "server_inv contents started (\<lambda>s. Nowhere) (start_server storage)"
proof -
  have "located (\<lambda>s. Nowhere) (held (start_server storage))"
    unfolding located_def
  proof (intro allI)
    fix p show "distinct (held (start_server storage) p) \<and> (\<forall>s \<in> set (held (start_server storage) p). Nowhere = p)"
      by (cases p) (simp_all add: start_server_def newRequestProcessor_def)
  qed
  with assms show ?thesis
    by (simp add: server_inv_parts start_server_def newRequestProcessor_def upper_ok_def upper_inv_def subs_ok_def no_subs_def newSubscription_def)
qed

subsection \<open>Turns keep the invariant\<close>

lemma held_put_view:
  "held (put_view c v w) =
     (held w)(AtPend c := asks (v_req v), AtChan c := c_subChannel v, AtList c := c_subList v)"
proof
  fix p show "held (put_view c v w) p =
      ((held w)(AtPend c := asks (v_req v), AtChan c := c_subChannel v, AtList c := c_subList v)) p"
    by (cases p) auto
qed

lemma put_view_inv:
  assumes "server_inv contents started loc w" and "located loc' (held (put_view c v w))"
    and "subs_ok loc' (v_store v) (v_fresh v)"
    and "\<And>s d. loc s = AtQueue d \<or> loc s = AtTopic d \<Longrightarrow> v_store v s = up_store (sw_upper w) s"
    and "list_all request_ok (v_req v)" and "conn_ok c (Conn.truncate v)"
  shows "server_inv contents started loc' (put_view c v w)"
  using assms upper_ok_store [of contents started w loc "v_store v"]
  by (simp add: server_inv_def requests_ok_def conns_ok_def)

lemma held_conn:
  "located loc (held w) \<Longrightarrow> sw_conns w c = Some k \<Longrightarrow> distinct (c_subChannel k) \<and> distinct (c_subList k) \<and>
     (\<forall>s \<in> set (c_subChannel k). loc s = AtChan c) \<and> (\<forall>s \<in> set (c_subList k). loc s = AtList c)"
  unfolding located_def by (auto dest: spec [of _ "AtChan c"] spec [of _ "AtList c"])

text \<open>What is left of a connection after a receive.\<close>

lemma take_select_sel:
  assumes "take_select sel k = Some k'"
  shows "c_self k' = c_self k" "c_subList k' = c_subList k" "c_txStore k' = c_txStore k"
    "c_subChannel k = (case sel of SelSub (Some s) \<Rightarrow> s # c_subChannel k' | _ \<Rightarrow> c_subChannel k')"
    "c_readChannel k = (case sel of SelRead (Some f) \<Rightarrow> f # c_readChannel k' | _ \<Rightarrow> c_readChannel k')"
  using assms by (cases sel; auto split: option.splits list.splits if_splits)+

lemma select_politeI:
  "(\<And>f. sel = SelRead (Some f) \<Longrightarrow> polite f \<and> header_ok (Hdr f)) \<Longrightarrow>
     (\<And>s. sel = SelSub (Some s) \<Longrightarrow> carries (st s) \<and> sub_subList (st s) = None) \<Longrightarrow> select_polite sel st"
  by (cases "(sel, st)" rule: select_polite.cases) (simp_all add: carries_def)

lemma turn_select_polite:
  assumes inv: "server_inv contents started loc w" and k: "sw_conns w c = Some k" and sel: "take_select sel k = Some k'"
  shows "mild (world_view k' w)" "tx_polite (c_txStore (world_view k' w))" "select_polite sel (up_store (sw_upper w))"
proof -
  note h = held_conn [OF _ k, of loc] and t = take_select_sel [OF sel]
  have subs: "subs_ok loc (up_store (sw_upper w)) (sw_fresh w)" and l: "located loc (held w)" and c: "conn_ok c k"
    using inv k by (auto simp: server_inv_parts)
  have "sub_ack (up_store (sw_upper w) s) = AckClientIndividual \<and> sub_msgId (up_store (sw_upper w) s) = 0"
    if "s \<in> set (c_subList k)" for s
    using h [OF l] that subs_okD(1-3) [OF subs, of s] by simp
  then show "mild (world_view k' w)" by (simp add: mild_def t(2))
  show "tx_polite (c_txStore (world_view k' w))" using c by (simp add: t(3) conn_ok_def)
  have "loc s = AtChan c" if "sel = SelSub (Some s)" for s using h [OF l] t(4) that by simp
  then have "carries (up_store (sw_upper w) s) \<and> sub_subList (up_store (sw_upper w) s) = None" if "sel = SelSub (Some s)" for s
    using subs_okD(1) [OF subs, of s] that by simp
  then show "select_polite sel (up_store (sw_upper w))"
    using c t(5) by (intro select_politeI) (auto simp: conn_ok_def)
qed

lemma turn_conn_ok:
  assumes "server_inv contents started loc w" and "sw_conns w c = Some k" and "take_select sel k = Some k'"
    and "same_channels (world_view k' w) v" and "tx_polite (c_txStore v)"
  shows "conn_ok c (Conn.truncate v)"
proof -
  have "conn_ok c k" using assms(1,2) by (auto simp: server_inv_parts)
  moreover have "set (c_readChannel k') \<subseteq> set (c_readChannel k)"
    using take_select_sel(5) [OF assms(3)] by (auto split: select_case.splits option.splits)
  ultimately show ?thesis
    using assms(4,5) take_select_sel(1) [OF assms(3)] by (auto simp: conn_ok_def same_channels_def list_all_iff)
qed

text \<open>The places after a turn: the channel may have lost its first subscription.\<close>

lemma turn_places:
  assumes inv: "server_inv contents started loc w" and k: "sw_conns w c = Some k" and pend: "sw_pend w c = []"
    and sel: "take_select sel k = Some k'"
  shows "located loc ((held w)(AtPend c := [], AtChan c := c_subChannel k', AtList c := c_subList k'))"
    "sel = SelSub (Some s) \<Longrightarrow> loc s = AtChan c \<and> s \<notin> set (c_subChannel k')"
proof -
  have l: "located loc (held w)" using inv by (simp add: server_inv_def)
  note h = held_conn [OF l k] and t = take_select_sel [OF sel]
  have "distinct (c_subChannel k') \<and> set (c_subChannel k') \<subseteq> set (c_subChannel k)"
    using h t(4) by (auto split: select_case.splits option.splits)
  then show "located loc ((held w)(AtPend c := [], AtChan c := c_subChannel k', AtList c := c_subList k'))"
    using k pend l t(2) h by (intro located_shrink [OF l]) (auto simp: located_def)
  show "sel = SelSub (Some s) \<Longrightarrow> loc s = AtChan c \<and> s \<notin> set (c_subChannel k')" using h t(4) by auto
qed

lemma put_view_pc:
  "server_inv contents started loc (put_view c (v\<lparr>c_pc := x\<rparr>) w) = server_inv contents started loc (put_view c v w)"
  by (auto simp: server_inv_def requests_ok_def conns_ok_def conn_ok_def held_put_view)

lemma calm_turn_inv:
  assumes inv: "server_inv contents started loc w" and k: "sw_conns w c = Some k" and pend: "sw_pend w c = []"
    and sel: "take_select sel k = Some k'" and calm: "calm (world_view k' w) v"
  shows "server_inv contents started loc (put_view c v w)"
proof (rule put_view_inv [OF inv])
  from calm obtain rs where rs: "v_req v = rs" "list_all harmless rs" by (auto simp: calm_def)
  have "held (put_view c v w) = (held w)(AtPend c := [], AtChan c := c_subChannel k', AtList c := c_subList k')"
    using calm rs by (simp add: held_put_view calm_def same_channels_def)
  with turn_places(1) [OF inv k pend sel] show "located loc (held (put_view c v w))" by simp
  show "subs_ok loc (v_store v) (v_fresh v)" using inv calm by (simp add: server_inv_def calm_def)
  show "list_all request_ok (v_req v)" using rs by (simp add: requests_ok_harmless)
  show "conn_ok c (Conn.truncate v)"
    using calm turn_select_polite(2) [OF inv k sel] by (intro turn_conn_ok [OF inv k sel]) (simp_all add: calm_def)
qed (use calm in \<open>simp_all add: calm_def\<close>)

lemma subscribed_turn_inv:
  assumes inv: "server_inv contents started loc w" and k: "sw_conns w c = Some k" and pend: "sw_pend w c = []"
    and sel: "take_select sel k = Some k'" and sub: "subscribed (world_view k' w) v"
  shows "server_inv contents started (loc(sw_fresh w := AtPend c)) (put_view c v w)"
proof (rule put_view_inv [OF inv])
  let ?s = "sw_fresh w" and ?st = "up_store (sw_upper w)"
  have subs: "subs_ok loc ?st ?s" using inv by (simp add: server_inv_def)
  then have s: "loc ?s = Nowhere" by (simp add: subs_ok_def)
  obtain dest i ack where st: "v_store v = ?st(?s := newSubscription (c_self k') dest i ack)" "ack \<in> {AckAuto, AckClientIndividual}"
    using sub by (auto simp: subscribed_def)
  let ?h = "(held w)(AtPend c := [], AtChan c := c_subChannel k', AtList c := c_subList k')"
  have "held (put_view c v w) = ?h(AtPend c := ?h (AtPend c) @ [?s])"
    using sub by (auto simp: held_put_view subscribed_def same_channels_def)
  then show "located (loc(?s := AtPend c)) (held (put_view c v w))"
    by (intro located_append [OF turn_places(1) [OF inv k pend sel] s]) simp_all
  show "subs_ok (loc(?s := AtPend c)) (v_store v) (v_fresh v)"
    using subs st sub by (auto simp: subs_ok_def newSubscription_def subscribed_def)
  show "v_store v s = ?st s" if "loc s = AtQueue d \<or> loc s = AtTopic d" for s d
    using that s st by auto
  show "list_all request_ok (v_req v)" using sub by (simp add: subscribed_def request_ok_def)
  show "conn_ok c (Conn.truncate v)"
    using sub turn_select_polite(2) [OF inv k sel] by (intro turn_conn_ok [OF inv k sel]) (simp_all add: subscribed_def)
qed

lemma handed_over_turn_inv:
  assumes inv: "server_inv contents started loc w" and k: "sw_conns w c = Some k" and pend: "sw_pend w c = []"
    and sel: "take_select (SelSub (Some s)) k = Some k'" and ho: "handed_over s (world_view k' w) v"
  shows "\<exists>p. server_inv contents started (loc(s := p)) (put_view c v w)"
proof -
  let ?st = "up_store (sw_upper w)" and ?h = "(held w)(AtPend c := [], AtChan c := c_subChannel k', AtList c := c_subList k')"
  have subs: "subs_ok loc ?st (sw_fresh w)" using inv by (simp add: server_inv_def)
  note l = turn_places(1) [OF inv k pend sel] and s = turn_places(2) [OF inv k pend sel refl, THEN conjunct1]
    turn_places(2) [OF inv k pend sel refl, THEN conjunct2]
  have old: "s < sw_fresh w" using subs_ok_old [OF subs, of s] s(1) by simp
  have pl: "carries (?st s)" "sub_subList (?st s) = None" using subs_okD(1) [OF subs, of s] s(1) by simp_all
  have ok: "conn_ok c (Conn.truncate v)"
    using ho turn_select_polite(2) [OF inv k sel] by (intro turn_conn_ok [OF inv k sel]) (simp_all add: handed_over_def)
  have self: "c_self k' = c" using inv k take_select_sel(1) [OF sel] by (auto simp: server_inv_parts)
  have place: "server_inv contents started (loc(s := p)) (put_view c v w)"
    if "located (loc(s := p)) (held (put_view c v w))" "v_store v = ?st(s := sub)" "placed p sub"
      "sub_msgId sub = sub_msgId (?st s)" "sub_ack sub = sub_ack (?st s)" "list_all request_ok (v_req v)" for p sub
  proof (rule put_view_inv [OF inv that(1) _ _ that(6) ok])
    show "subs_ok (loc(s := p)) (v_store v) (v_fresh v)"
      using subs_ok_upd [OF subs old that(3-5)] that(2) ho by (simp add: handed_over_def)
    show "v_store v x = ?st x" if "loc x = AtQueue d \<or> loc x = AtTopic d" for x d
      using that s(1) \<open>v_store v = ?st(s := sub)\<close> by auto
  qed
  from ho consider
      f rs where "addressed f" "v_store v = ?st(s := (?st s)\<lparr>sub_frame := Some f\<rparr>)" "c_subList v = c_subList k'"
        "v_req v = rs" "list_all harmless rs" "c_subChannel v = c_subChannel k'"
    | "v_store v = ?st(s := (?st s)\<lparr>sub_frame := None\<rparr>)" "c_subList v = c_subList k'" "v_req v = [SubscribeOp s]"
        "c_subChannel v = c_subChannel k'"
    | f where "addressed f" "sub_ack (?st s) \<noteq> AckAuto"
        "v_store v = ?st(s := (?st s)\<lparr>sub_frame := Some f, sub_subList := Some (ConnList c)\<rparr>)"
        "c_subList v = c_subList k' @ [s]" "v_req v = []" "c_subChannel v = c_subChannel k'"
    by (auto simp: handed_over_def same_channels_def self)
  then show ?thesis
  proof cases
    case 1
    have "located loc (held (put_view c v w))" using 1 l by (simp add: held_put_view)
    moreover have "loc(s := AtChan c) = loc" using s(1) by auto
    ultimately show ?thesis using place [OF _ 1(2), of "AtChan c"] 1 pl
      by (intro exI [of _ "AtChan c"]) (simp add: carries_def requests_ok_harmless)
  next
    case 2
    have "located (loc(s := AtPend c)) (held (put_view c v w))"
      by (rule located_append [OF l s(1)]) (use 2 s in \<open>auto simp: held_put_view\<close>)
    then show ?thesis using place [OF _ 2(1), of "AtPend c"] 2 pl by (auto simp: request_ok_def)
  next
    case 3
    have "located (loc(s := AtList c)) (held (put_view c v w))"
      by (rule located_append [OF l s(1)]) (use 3 s in \<open>auto simp: held_put_view\<close>)
    then show ?thesis using place [OF _ 3(3), of "AtList c"] 3 by (auto simp: carries_def)
  qed
qed

lemma turn_server_inv:
  assumes inv: "server_inv contents started loc w" and k: "sw_conns w c = Some k" and pend: "sw_pend w c = []"
    and sel: "take_select sel k = Some k'" and turn: "processLoop_turn quote cfg sel (world_view k' w) = Ret (b, v)"
  shows "\<exists>loc'. server_inv contents started loc' (put_view c (if b then v else v\<lparr>c_pc := Cleanup 0\<rparr>) w)"
proof -
  note p = turn_select_polite [OF inv k sel]
  have "calm (world_view k' w) v \<or> subscribed (world_view k' w) v \<or>
      (\<exists>s. sel = SelSub (Some s) \<and> handed_over s (world_view k' w) v)"
    by (rule turn_polite [OF p(1,2), of sel quote cfg]) (use p(3) turn in auto)
  then have "\<exists>loc'. server_inv contents started loc' (put_view c v w)"
    using calm_turn_inv [OF inv k pend sel] subscribed_turn_inv [OF inv k pend sel]
      handed_over_turn_inv [OF inv k pend] sel by blast
  then show ?thesis by (simp add: put_view_pc)
qed

lemma turn_no_panic:
  assumes inv: "server_inv contents started loc w" and k: "sw_conns w c = Some k" and sel: "take_select sel k = Some k'"
  shows "processLoop_turn quote cfg sel (world_view k' w) \<noteq> Panic m"
  by (rule turn_polite [of "world_view k' w" sel quote cfg]) (use turn_select_polite [OF assms] in auto)

subsection \<open>Closing a connection keeps the invariant\<close>

lemma requeue_unacked_store:
  "fst (requeue_unacked subs st rs) = (\<lambda>s. if s \<in> set subs then (st s)\<lparr>sub_subList := None\<rparr> else st s)"
proof (induction subs arbitrary: st rs)
  case Nil
  then show ?case by (simp add: requeue_unacked.simps SL_Get_def)
next
  case (Cons s subs)
  let ?st = "st(s := (st s)\<lparr>sub_subList := None\<rparr>)"
  have "requeue_unacked (s # subs) st rs = requeue_unacked subs ?st (rs @ [RequeueOp (sub_frame (?st s))])"
    by (subst requeue_unacked.simps) (simp add: SL_Get_def)
  then show ?case by (auto simp: Cons.IH fun_eq_iff)
qed

definition withdraws :: "Conn \<Rightarrow> 'q ServerWorld \<Rightarrow> View \<Rightarrow> bool" where
  "withdraws k w v \<longleftrightarrow>
     c_self v = c_self k \<and> tx_polite (c_txStore v) \<and> c_readChannel v = c_readChannel k \<and> v_fresh v = sw_fresh w \<and>
     list_all harmless (v_req v) \<and> c_subChannel v \<in> {c_subChannel k, tl (c_subChannel k)} \<and> c_subList v \<in> {c_subList k, []} \<and>
     (\<forall>s. v_store v s = up_store (sw_upper w) s \<or>
        s \<in> set (c_subList k) \<and> v_store v s = (up_store (sw_upper w) s)\<lparr>sub_subList := None\<rparr>)"

lemma withdraws_inv:
  assumes inv: "server_inv contents started loc w" and k: "sw_conns w c = Some k" and pend: "sw_pend w c = []"
    and v: "withdraws k w v"
  shows "server_inv contents started loc (put_view c v w)"
proof -
  let ?st = "up_store (sw_upper w)"
  have l: "located loc (held w)" and subs: "subs_ok loc ?st (sw_fresh w)" and ok: "conn_ok c k"
    using inv k by (auto simp: server_inv_parts)
  note h = held_conn [OF l k]
  have chan: "distinct (c_subChannel v) \<and> set (c_subChannel v) \<subseteq> set (c_subChannel k)"
    using h v by (cases "c_subChannel k") (auto simp: withdraws_def)
  have lst: "distinct (c_subList v) \<and> set (c_subList v) \<subseteq> set (c_subList k)"
    using h v by (auto simp: withdraws_def)
  have rs: "list_all harmless (v_req v)" using v by (simp add: withdraws_def)
  have "located loc (held (put_view c v w))"
  proof (rule located_shrink [OF l])
    fix p show "distinct (held (put_view c v w) p) \<and> set (held (put_view c v w) p) \<subseteq> set (held w p)"
      using l chan lst k rs pend by (simp add: held_put_view) (simp add: located_def)
  qed
  moreover have st: "v_store v s = ?st s \<or> loc s = AtList c \<and> v_store v s = (?st s)\<lparr>sub_subList := None\<rparr>" for s
    using v h by (auto simp: withdraws_def)
  have "subs_ok loc (v_store v) (v_fresh v)"
    unfolding subs_ok_def
  proof
    fix s
    show "placed (loc s) (v_store v s) \<and> sub_msgId (v_store v s) = 0 \<and>
        sub_ack (v_store v s) \<in> {AckAuto, AckClientIndividual} \<and> (v_fresh v \<le> s \<longrightarrow> loc s = Nowhere)"
      using st [of s] subs [unfolded subs_ok_def, rule_format, of s] v
      by (auto simp: carries_def withdraws_def)
  qed
  moreover have "conn_ok c (Conn.truncate v)" using ok v by (simp add: conn_ok_def withdraws_def)
  moreover have "v_store v s = ?st s" if "loc s = AtQueue d \<or> loc s = AtTopic d" for s d
    using st [of s] that by auto
  ultimately show ?thesis
    using rs by (intro put_view_inv [OF inv]) (simp_all add: requests_ok_harmless)
qed

lemma carried_harmless:
  "subs_ok loc st n \<Longrightarrow> loc s \<in> {AtChan c, AtList c} \<Longrightarrow> harmless (RequeueOp (sub_frame (st s)))"
  using subs_okD(1) [of loc st n s] by (auto simp: carries_def)

lemma drain_withdraws:
  assumes "server_inv contents started loc w" and "sw_conns w c = Some k"
    and "finished = (world_view k w)\<lparr>c_rwClosed := b, c_pc := pc\<rparr>"
  shows "withdraws k w (drain_one n finished (world_view k w))"
proof -
  have l: "located loc (held w)" and subs: "subs_ok loc (up_store (sw_upper w)) (sw_fresh w)" and ok: "conn_ok c k"
    using assms(1,2) by (auto simp: server_inv_parts)
  show ?thesis
  proof (cases "c_subChannel k")
    case Nil
    with ok assms(3) show ?thesis by (simp add: drain_one_def withdraws_def conn_ok_def)
  next
    case (Cons s rest)
    then have "harmless (RequeueOp (sub_frame (up_store (sw_upper w) s)))"
      using carried_harmless [OF subs] held_conn [OF l assms(2)] by auto
    with Cons ok show ?thesis by (simp add: drain_one_def withdraws_def conn_ok_def send_request_def)
  qed
qed

lemma requeue_withdraws:
  assumes "server_inv contents started loc w" and "sw_conns w c = Some k"
  shows "withdraws k w ((cleanup_requeue (world_view k w))\<lparr>c_pc := pc\<rparr>)"
proof -
  have l: "located loc (held w)" and subs: "subs_ok loc (up_store (sw_upper w)) (sw_fresh w)" and ok: "conn_ok c k"
    using assms by (auto simp: server_inv_parts)
  have "list_all harmless (requeues (up_store (sw_upper w)) (c_subList k))"
    unfolding requeues_def list_all_iff using carried_harmless [OF subs] held_conn [OF l assms(2)] by fastforce
  moreover have "requeue_unacked (c_subList k) (up_store (sw_upper w)) [] =
      ((\<lambda>s. if s \<in> set (c_subList k) then (up_store (sw_upper w) s)\<lparr>sub_subList := None\<rparr> else up_store (sw_upper w) s),
       requeues (up_store (sw_upper w)) (c_subList k))"
    using requeue_unacked_store [of "c_subList k" "up_store (sw_upper w)" "[]"]
      requeue_unacked_eq [of "c_subList k" "up_store (sw_upper w)" "[]"] by auto
  ultimately show ?thesis using ok by (simp add: cleanup_requeue_def withdraws_def conn_ok_def)
qed

lemma cleanup_withdraws:
  assumes "server_inv contents started loc w" and "sw_conns w c = Some k"
  shows "withdraws k w (cleanup_step order n (world_view k w))"
proof -
  have ok: "conn_ok c k" using assms by (auto simp: server_inv_parts)
  have "list_all harmless (map UnsubscribeOp order)" by (simp add: list_all_iff)
  then have "withdraws k w ((cleanup_unsubscribe order (world_view k w))\<lparr>c_pc := pc\<rparr>)" for pc
    using ok by (simp add: cleanup_unsubscribe_eq withdraws_def conn_ok_def tx_polite_def)
  moreover have "withdraws k w ((discardWriteChannelFrames (world_view k w))\<lparr>c_pc := pc\<rparr>)"
    "withdraws k w ((cleanup_disconnected (world_view k w))\<lparr>c_pc := pc\<rparr>)" for pc
    using ok by (simp_all add: discardWriteChannelFrames_def cleanup_disconnected_def send_request_def withdraws_def conn_ok_def)
  moreover have "withdraws k w (drain_one 3 ((world_view k w)\<lparr>c_pc := Cleanup 4\<rparr>) (world_view k w))"
    by (rule drain_withdraws [OF assms, where b = "c_rwClosed k" and pc = "Cleanup 4"])
      (simp add: world_view_def Conn.extend_def)
  moreover have "withdraws k w (drain_one 6 ((world_view k w)\<lparr>c_rwClosed := True, c_pc := Closed\<rparr>) (world_view k w))"
    by (rule drain_withdraws [OF assms refl])
  ultimately show ?thesis using requeue_withdraws [OF assms] by (simp add: cleanup_step_def)
qed

subsection \<open>The other events\<close>

text \<open>Events that change no place and no subscription.\<close>

lemma still_inv:
  assumes "server_inv contents started loc w" and "\<And>p. distinct (held w' p) \<and> set (held w' p) \<subseteq> set (held w p)"
    and "sw_crash w' = None" and "sw_upper w' = sw_upper w" and "sw_fresh w' = sw_fresh w" and "requests_ok w'" and "conns_ok w'"
  shows "server_inv contents started loc w'"
  using assms located_shrink [of loc "held w" "held w'"] by (simp add: server_inv_def)

lemma held_distinct: "server_inv contents started loc w \<Longrightarrow> distinct (held w p)"
  by (simp add: server_inv_def located_def)

lemma accept_inv:
  assumes inv: "server_inv contents started loc w" and "sw_conns w c = None"
  shows "server_inv contents started loc
    (w\<lparr>sw_conns := (sw_conns w)(c \<mapsto> NewConn c wr), sw_pend := (sw_pend w)(c := [])\<rparr>)" (is "server_inv _ _ _ ?w")
proof (rule still_inv [OF inv])
  fix p show "distinct (held ?w p) \<and> set (held ?w p) \<subseteq> set (held w p)"
    using held_distinct [OF inv, of p] by (cases p) (auto simp: NewConn_def)
  show "conns_ok ?w" using inv by (auto simp: server_inv_parts NewConn_def tx_polite_def)
qed (use inv in \<open>auto simp: server_inv_parts\<close>)

lemma read_inv:
  assumes inv: "server_inv contents started loc w" and k: "sw_conns w c = Some k" and "conn_ok c k'"
    and "c_subChannel k' = c_subChannel k" and "c_subList k' = c_subList k"
  shows "server_inv contents started loc (w\<lparr>sw_conns := (sw_conns w)(c \<mapsto> k')\<rparr>)" (is "server_inv _ _ _ ?w")
proof (rule still_inv [OF inv])
  fix p show "distinct (held ?w p) \<and> set (held ?w p) \<subseteq> set (held w p)"
    using held_distinct [OF inv, of p] k assms(4,5) by (cases p) auto
  show "conns_ok ?w" using inv assms(3) by (auto simp: server_inv_def conns_ok_def)
qed (use inv in \<open>auto simp: server_inv_parts\<close>)

lemma post_inv:
  assumes inv: "server_inv contents started loc w" and r: "sw_pend w c = r # rs"
  shows "\<exists>loc'. server_inv contents started loc' (w\<lparr>sw_pend := (sw_pend w)(c := rs), sw_reqCh := sw_reqCh w @ [r]\<rparr>)"
    (is "\<exists>loc'. server_inv _ _ loc' ?w")
proof -
  have l: "located loc (held w)" using inv by (simp add: server_inv_def)
  have ok: "list_all request_ok (r # rs)" using inv r unfolding server_inv_def requests_ok_def by metis
  then have rq: "requests_ok ?w" "conns_ok ?w" using inv by (auto simp: server_inv_parts)
  show ?thesis
  proof (cases "\<exists>s. r = SubscribeOp s")
    case True
    then obtain s where s: "r = SubscribeOp s" by blast
    have mine: "distinct (s # asks rs)" "loc s = AtPend c"
      using l r s unfolding located_def by (auto dest: spec [of _ "AtPend c"])
    have "located (loc(s := AtReq)) (held ?w)"
    proof (rule located_move [OF l mine(2)])
      fix p' assume "p' \<noteq> AtReq"
      then show "distinct (held ?w p') \<and> set (held ?w p') \<subseteq> set (held w p')"
        using held_distinct [OF inv, of p'] r mine s by (cases p') auto
    qed (use mine s in auto)
    moreover have "subs_ok (loc(s := AtReq)) (up_store (sw_upper w)) (sw_fresh w)"
      using inv mine(2) unfolding server_inv_def subs_ok_def by (auto dest: spec [of _ s])
    ultimately show ?thesis using inv rq by (auto simp: server_inv_def)
  next
    case False
    then have "asks (r # rs) = asks rs" "asks [r] = []" by (cases r; simp)+
    then have "distinct (held ?w p) \<and> set (held ?w p) \<subseteq> set (held w p)" for p
      using held_distinct [OF inv, of p] r by (cases p) auto
    then show ?thesis using still_inv [OF inv _ _ _ _ rq] inv by (auto simp: server_inv_def)
  qed
qed

lemma deliver_write_inv:
  assumes inv: "server_inv contents started loc w" and out: "sw_out w = ToWriteChannel c f # ds" and k: "sw_conns w c = Some k"
  shows "server_inv contents started loc
    (w\<lparr>sw_out := ds, sw_conns := (sw_conns w)(c \<mapsto> k\<lparr>c_writeChannel := c_writeChannel k @ [f]\<rparr>)\<rparr>)" (is "server_inv _ _ _ ?w")
proof (rule still_inv [OF inv])
  fix p show "distinct (held ?w p) \<and> set (held ?w p) \<subseteq> set (held w p)"
    using held_distinct [OF inv, of p] k out by (cases p) auto
  show "conns_ok ?w" using inv k by (auto simp: server_inv_parts)
qed (use inv in \<open>auto simp: server_inv_parts\<close>)

lemma deliver_sub_inv:
  assumes inv: "server_inv contents started loc w" and out: "sw_out w = ToSubChannel c s # ds" and k: "sw_conns w c = Some k"
  shows "server_inv contents started (loc(s := AtChan c))
    (w\<lparr>sw_out := ds, sw_conns := (sw_conns w)(c \<mapsto> k\<lparr>c_subChannel := c_subChannel k @ [s]\<rparr>)\<rparr>)" (is "server_inv _ _ _ ?w")
proof -
  have l: "located loc (held w)" using inv by (simp add: server_inv_def)
  have mine: "distinct (s # out_subs c ds)" "loc s = AtOut c"
    using l out unfolding located_def by (auto dest: spec [of _ "AtOut c"])
  have "located (loc(s := AtChan c)) (held ?w)"
  proof (rule located_move [OF l mine(2)])
    fix p' assume "p' \<noteq> AtChan c"
    then show "distinct (held ?w p') \<and> set (held ?w p') \<subseteq> set (held w p')"
      using held_distinct [OF inv, of p'] out mine k by (cases p') (auto split: if_splits)
  qed (use mine k in auto)
  moreover have "subs_ok (loc(s := AtChan c)) (up_store (sw_upper w)) (sw_fresh w)"
    using inv mine(2) unfolding server_inv_def subs_ok_def by (auto dest: spec [of _ s])
  moreover have "conns_ok ?w" using inv k by (auto simp: server_inv_parts)
  ultimately show ?thesis using inv by (simp add: server_inv_def requests_ok_def)
qed

subsection \<open>What serving a request does\<close>

definition qsubs :: "'q Upper \<Rightarrow> string \<Rightarrow> sub_ref list" where
  "qsubs u d = (case up_qm u d of None \<Rightarrow> [] | Some q \<Rightarrow> q_subs q)"

definition tsubs :: "'q Upper \<Rightarrow> string \<Rightarrow> sub_ref list" where
  "tsubs u d = (case up_tm u d of None \<Rightarrow> [] | Some t \<Rightarrow> t_subs t)"

lemma qm_Find_qsubs:
  assumes "qm_Find d (up_qm u) = (q, qm)"
  shows "q_subs q = qsubs u d"
    "qsubs (u\<lparr>up_qm := qm(d \<mapsto> q'), up_storage := g, up_store := st, up_out := ds\<rparr>) = (qsubs u)(d := q_subs q')"
proof -
  have "qm x = up_qm u x" if "x \<noteq> d" for x
    using assms that by (auto simp: qm_Find_def split: option.splits)
  then show "qsubs (u\<lparr>up_qm := qm(d \<mapsto> q'), up_storage := g, up_store := st, up_out := ds\<rparr>) = (qsubs u)(d := q_subs q')"
    by (auto simp: qsubs_def fun_eq_iff)
  show "q_subs q = qsubs u d"
    using assms by (auto simp: qm_Find_def qsubs_def newQueue_def split: option.splits)
qed

lemma on_queue_call:
  assumes "qm_Find d (up_qm u) = (q, qm)" and "call (queue_view u q) = Ret (e, qs)"
  shows "\<exists>u'. on_queue d call u = Ret u' \<and> up_tm u' = up_tm u \<and> qsubs u' = (qsubs u)(d := q_subs (qs_queue qs)) \<and>
    up_storage u' = qs_storage qs \<and> up_store u' = qs_store qs \<and> up_out u' = qs_out qs"
  using assms(2) qm_Find_qsubs(2) [OF assms(1)] by (simp add: on_queue_def assms(1) queue_view_def)

lemma subscribe_effect:
  assumes S: "queue_storage S contents started" and inv: "upper_inv contents started u" and out: "up_out u = []"
    and d: "isQueueDestination (sub_dest (up_store u s))" and s: "sub_frame (up_store u s) = None" "sub_subList (up_store u s) = None"
  obtains u' where "serve S (SubscribeOp s) u = Ret u'" "upper_inv contents started u'" "up_tm u' = up_tm u"
    "qsubs u' = (qsubs u)(sub_dest (up_store u s) := qsubs u (sub_dest (up_store u s)) @ [s]) \<and> up_out u' = [] \<and>
       up_store u' = (up_store u)(s := (up_store u s)\<lparr>sub_subList := Some (QueueList (sub_dest (up_store u s)))\<rparr>) \<and>
       contents (up_storage u') = contents (up_storage u) \<or>
     (\<exists>f l. contents (up_storage u) (sub_dest (up_store u s)) = f # l \<and> qsubs u' = qsubs u \<and>
       up_out u' = [ToSubChannel (sub_conn (up_store u s)) s] \<and>
       up_store u' = (up_store u)(s := (up_store u s)\<lparr>sub_frame := Some (with_sub (up_store u) s f)\<rparr>) \<and>
       contents (up_storage u') = (contents (up_storage u))(sub_dest (up_store u s) := l))"
proof -
  let ?d = "sub_dest (up_store u s)" and ?st = "up_store u" and ?g = "up_storage u"
  obtain q qm where f: "qm_Find ?d (up_qm u) = (q, qm)" and dest: "q_destination q = ?d"
    using qm_Find_view [OF inv d] by metis
  note q = qm_Find_qsubs(1) [OF f] and call = on_queue_call [OF f, of "Queue_Subscribe S s"]
  have "started ?g" using inv by (simp add: upper_inv_def)
  from queue_storage.dequeue [OF S this, of ?d] obtain g'
    where g': "st_Dequeue S ?d ?g = Ret (Inr (case contents ?g ?d of [] \<Rightarrow> None | f # l \<Rightarrow> Some f), g')"
      "contents g' = (contents ?g)(?d := tl (contents ?g ?d))" by blast
  from serve_subscribe_legal [OF S inv, of s] s obtain u' where u': "serve S (SubscribeOp s) u = Ret u'" "upper_inv contents started u'"
    by auto
  have srv: "serve S (SubscribeOp s) u = on_queue ?d (Queue_Subscribe S s) u" using d by (simp add: serve_def Let_def)
  show thesis
  proof (cases "contents ?g ?d")
    case Nil
    let ?st' = "?st(s := (?st s)\<lparr>sub_subList := Some (QueueList ?d)\<rparr>)"
    have "Queue_Subscribe S s (queue_view u q) =
        Ret (None, (queue_view u q)\<lparr>qs_storage := g', qs_store := ?st', qs_queue := q\<lparr>q_subs := q_subs q @ [s]\<rparr>\<rparr>)"
      using g' Nil s dest by (simp add: Queue_Subscribe_def queue_view_def SL_Add_def)
    from call [OF this] u' srv g'(2) Nil q out that [OF u'] show thesis
      by (auto simp: queue_view_def fun_upd_idem)
  next
    case (Cons f l)
    let ?st' = "?st(s := (?st s)\<lparr>sub_frame := Some (with_sub ?st s f)\<rparr>)"
    have "Queue_Subscribe S s (queue_view u q) =
        Ret (None, (queue_view u q)\<lparr>qs_storage := g', qs_store := ?st', qs_out := up_out u @ [ToSubChannel (sub_conn (?st s)) s]\<rparr>)"
      using g' Cons s by (simp add: Queue_Subscribe_def queue_view_def queue_send_Ret)
    from call [OF this] u'(1) srv q out have e: "up_tm u' = up_tm u" "qsubs u' = qsubs u" "up_storage u' = g'"
      "up_store u' = ?st'" "up_out u' = [ToSubChannel (sub_conn (?st s)) s]"
      by (auto simp: queue_view_def fun_upd_idem)
    have "contents g' = (contents ?g)(?d := l)" using Cons g'(2) by simp
    with Cons e that [OF u' e(1)] show thesis by blast
  qed
qed

lemma frame_effect:
  assumes S: "queue_storage S contents started" and inv: "upper_inv contents started u" and out: "up_out u = []"
    and d: "isQueueDestination d" "Header_Contains (Hdr f) Destination = Some d"
    and r: "r = EnqueueOp f \<or> r = RequeueOp (Some f)"
  obtains u' where "serve S r u = Ret u'" "upper_inv contents started u'" "up_tm u' = up_tm u"
    "qsubs u' = qsubs u \<and> up_out u' = [] \<and> up_store u' = up_store u \<and>
       (\<exists>l. contents (up_storage u') = (contents (up_storage u))(d := l) \<and> l \<in> {contents (up_storage u) d @ [f], f # contents (up_storage u) d}) \<or>
     (\<exists>s rest. qsubs u d = s # rest \<and> qsubs u' = (qsubs u)(d := rest) \<and> up_out u' = [ToSubChannel (sub_conn (up_store u s)) s] \<and>
       up_store u' = (up_store u)(s := (up_store u s)\<lparr>sub_subList := None, sub_frame := Some (with_sub (up_store u) s f)\<rparr>) \<and>
       contents (up_storage u') = contents (up_storage u))"
proof -
  let ?st = "up_store u" and ?g = "up_storage u"
  define call where "call = (if r = EnqueueOp f then Queue_Enqueue S f else Queue_Requeue S f)"
  obtain q qm where q: "qm_Find d (up_qm u) = (q, qm)" "q_destination q = d" "queue_inv contents started (queue_view u q)"
    using qm_Find_view [OF inv d(1)] by metis
  note subs = qm_Find_qsubs(1) [OF q(1)]
  have srv: "serve S r u = on_queue d call u" using r d by (auto simp: serve_def call_def)
  from serve_frame_legal [OF S inv d(2)] r obtain u' where u': "serve S r u = Ret u'" "upper_inv contents started u'" by auto
  have st: "started ?g" using inv by (simp add: upper_inv_def)
  show thesis
  proof (cases "qsubs u d")
    case Nil
    obtain g' where g': "call (queue_view u q) = Ret (None, (queue_view u q)\<lparr>qs_storage := g'\<rparr>)"
      "\<exists>l. contents g' = (contents ?g)(d := l) \<and> l \<in> {contents ?g d @ [f], f # contents ?g d}"
    proof (cases "r = EnqueueOp f")
      case True
      obtain g' where g': "st_Enqueue S d f ?g = Ret (None, g')" "contents g' = (contents ?g)(d := contents ?g d @ [f])"
        using queue_storage.enqueue [OF S st, of d f] by blast
      have "\<exists>l. contents g' = (contents ?g)(d := l) \<and> l \<in> {contents ?g d @ [f], f # contents ?g d}" using g'(2) by blast
      with g'(1) True Nil subs q(2) that [of g'] show thesis by (simp add: call_def Queue_Enqueue_def queue_view_def SL_Get_def)
    next
      case False
      obtain g' where g': "st_Requeue S d f ?g = Ret (None, g')" "contents g' = (contents ?g)(d := f # contents ?g d)"
        using queue_storage.requeue [OF S st, of d f] by blast
      have "\<exists>l. contents g' = (contents ?g)(d := l) \<and> l \<in> {contents ?g d @ [f], f # contents ?g d}" using g'(2) by blast
      with g'(1) False Nil subs q(2) that [of g'] show thesis by (simp add: call_def Queue_Requeue_def queue_view_def SL_Get_def)
    qed
    from on_queue_call [OF q(1), of call, OF g'(1)] g'(2) u' srv subs out that [OF u'] show thesis
      by (auto simp: queue_view_def fun_upd_idem)
  next
    case (Cons s rest)
    have none: "sub_frame (?st s) = None" using q(3) subs Cons by (simp add: queue_inv_def queue_view_def)
    let ?st' = "?st(s := (?st s)\<lparr>sub_subList := None, sub_frame := Some (with_sub ?st s f)\<rparr>)"
    have "call (queue_view u q) = Ret (None, (queue_view u q)\<lparr>qs_store := ?st', qs_queue := q\<lparr>q_subs := rest\<rparr>,
        qs_out := up_out u @ [ToSubChannel (sub_conn (?st s)) s]\<rparr>)"
      using Cons subs none
      by (simp add: call_def Queue_Enqueue_def Queue_Requeue_def queue_view_def SL_Get_def queue_send_Ret with_sub_def)
    from on_queue_call [OF q(1), of call, OF this] u' srv Cons out that [OF u'] show thesis
      by (auto simp: queue_view_def)
  qed
qed

text \<open>Requests about topics: nothing but the list of one topic changes, and no subscription is handed out.\<close>

lemma on_topic_call:
  assumes "tm_Find d (up_tm u) = (t, tm)" and "call t (up_store u, up_out u) = Ret (t', st, ds)"
  shows "\<exists>u'. on_topic d call u = Ret u' \<and> up_qm u' = up_qm u \<and> tsubs u' = (tsubs u)(d := t_subs t') \<and>
    up_storage u' = up_storage u \<and> up_store u' = st \<and> up_out u' = ds"
proof -
  have "tm x = up_tm u x" if "x \<noteq> d" for x
    using assms(1) that by (auto simp: tm_Find_def split: option.splits)
  then show ?thesis using assms by (auto simp: on_topic_def tsubs_def fun_eq_iff)
qed

lemma tm_Find_tsubs: "tm_Find d (up_tm u) = (t, tm) \<Longrightarrow> t_subs t = tsubs u d"
  by (auto simp: tm_Find_def tsubs_def newTopic_def split: option.splits)

lemma out_subs_topic [simp]: "out_subs c (map (\<lambda>s. topic_delivery w s f) ss) = []"
  by (induction ss) (simp_all add: topic_delivery_def)

lemma topic_effect:
  assumes inv: "upper_inv contents started u" and out: "up_out u = []" and d: "\<not> isQueueDestination d"
    and r: "r = SubscribeOp s \<and> sub_dest (up_store u s) = d \<and> sub_frame (up_store u s) = None \<and> l = tsubs u d @ [s] \<or>
      r = UnsubscribeOp s \<and> sub_dest (up_store u s) = d \<and> l = remove1 s (tsubs u d) \<or>
      r = EnqueueOp f \<and> Header_Contains (Hdr f) Destination = Some d \<and> l = tsubs u d"
    and S: "queue_storage S contents started"
  obtains u' where "serve S r u = Ret u'" "upper_inv contents started u'" "up_qm u' = up_qm u"
    "tsubs u' = (tsubs u)(d := l)" "up_storage u' = up_storage u" "up_store u' = up_store u" "\<And>c. out_subs c (up_out u') = []"
    "up_out u' = (if r = EnqueueOp f then map (\<lambda>s. topic_delivery (up_store u, []) s f) (tsubs u d) else [])"
proof -
  obtain t tm where t: "tm_Find d (up_tm u) = (t, tm)"
    "\<forall>s \<in> set (t_subs t). sub_dest (up_store u s) = d \<and> sub_frame (up_store u s) = None"
    using tm_Find_view [OF inv d] by metis
  define call where "call = (\<lambda>t w. case r of
      SubscribeOp s \<Rightarrow> Ret (Topic_Subscribe s t, w) | UnsubscribeOp s \<Rightarrow> Ret (Topic_Unsubscribe s t, w)
    | _ \<Rightarrow> go_bind (Topic_Enqueue send_topic f t w) (\<lambda>w'. Ret (t, w')))"
  have srv: "serve S r u = on_topic d call u" using r d by (auto simp: serve_def call_def Let_def)
  obtain u' where u': "serve S r u = Ret u'" "upper_inv contents started u'"
    using r serve_subscribe_legal [OF S inv, of s] serve_unsubscribe_legal [OF S inv, of s] serve_frame_legal(1) [OF S inv, of f d] d
    by fastforce
  have "\<exists>t' ds. call t (up_store u, up_out u) = Ret (t', up_store u, ds) \<and> t_subs t' = l \<and>
      ds = (if r = EnqueueOp f then map (\<lambda>s. topic_delivery (up_store u, []) s f) (tsubs u d) else [])"
    using r t(2) tm_Find_tsubs [OF t(1)] out
    by (auto simp: call_def Topic_Subscribe_def Topic_Unsubscribe_def remove_first_remove1 topic_enqueue_sends)
  then obtain t' ds where "call t (up_store u, up_out u) = Ret (t', up_store u, ds)" "t_subs t' = l"
    "ds = (if r = EnqueueOp f then map (\<lambda>s. topic_delivery (up_store u, []) s f) (tsubs u d) else [])" by blast
  with on_topic_call [OF t(1), of call] u' srv that [OF u'] show thesis by auto
qed

lemma unsubscribe_effect:
  assumes S: "queue_storage S contents started" and inv: "upper_inv contents started u" and out: "up_out u = []"
    and d: "isQueueDestination (sub_dest (up_store u s))"
  obtains u' where "serve S (UnsubscribeOp s) u = Ret u'" "upper_inv contents started u'" "up_tm u' = up_tm u"
    "qsubs u' = (qsubs u)(sub_dest (up_store u s) := remove1 s (qsubs u (sub_dest (up_store u s))))"
    "up_storage u' = up_storage u" "up_out u' = []"
    "up_store u' = (if s \<in> set (qsubs u (sub_dest (up_store u s)))
       then (up_store u)(s := (up_store u s)\<lparr>sub_subList := None\<rparr>) else up_store u)"
proof -
  let ?d = "sub_dest (up_store u s)"
  obtain q qm where q: "qm_Find ?d (up_qm u) = (q, qm)" using qm_Find_view [OF inv d] by metis
  note subs = qm_Find_qsubs(1) [OF q]
  from serve_unsubscribe_legal [OF S inv, of s] obtain u'
    where u': "serve S (UnsubscribeOp s) u = Ret u'" "upper_inv contents started u'" by auto
  have srv: "serve S (UnsubscribeOp s) u = on_queue ?d (\<lambda>qs. Ret (None, Queue_Unsubscribe s qs)) u"
    using d by (simp add: serve_def Let_def)
  from on_queue_call [OF q, of "\<lambda>qs. Ret (None, Queue_Unsubscribe s qs)" None "Queue_Unsubscribe s (queue_view u q)"]
    u' srv out subs that [OF u'] show thesis
    by (auto simp: Queue_Unsubscribe_def SL_Remove_remove1 queue_view_def)
qed

subsection \<open>Serving keeps the invariant\<close>

definition served :: "Request list \<Rightarrow> 'q Upper \<Rightarrow> 'q ServerWorld \<Rightarrow> 'q ServerWorld" where
  "served rs u w = w\<lparr>sw_reqCh := rs, sw_upper := u, sw_out := up_out u\<rparr>"

lemma served_sel [simp]:
  "sw_reqCh (served rs u w) = rs" "sw_pend (served rs u w) = sw_pend w" "sw_upper (served rs u w) = u"
  "sw_out (served rs u w) = up_out u" "sw_conns (served rs u w) = sw_conns w" "sw_fresh (served rs u w) = sw_fresh w"
  "sw_crash (served rs u w) = sw_crash w"
  by (simp_all add: served_def)

text \<open>The places in terms of the lists of the upper layer.\<close>

lemma held_upper [simp]: "held w (AtQueue d) = qsubs (sw_upper w) d" "held w (AtTopic d) = tsubs (sw_upper w) d"
  by (simp_all add: qsubs_def tsubs_def)

declare held.simps(3,4) [simp del]

lemma subs_same [simp]:
  "qsubs (u\<lparr>up_out := ds\<rparr>) = qsubs u" "tsubs (u\<lparr>up_out := ds\<rparr>) = tsubs u"
  "upper_inv contents started (u\<lparr>up_out := ds\<rparr>) = upper_inv contents started u"
  by (simp_all add: qsubs_def tsubs_def fun_eq_iff upper_inv_def queue_view_def queue_inv_def)

lemma served_inv:
  assumes inv: "server_inv contents started loc w" and r: "sw_reqCh w = r # rs"
    and "located loc' (held (served rs u w))" and "subs_ok loc' (up_store u) (sw_fresh w)"
    and "upper_inv contents started u" and "\<And>d. list_all addressed (contents (up_storage u) d)"
  shows "server_inv contents started loc' (served rs u w)"
  using assms by (simp add: server_inv_def requests_ok_def conns_ok_def upper_ok_def)

lemma served_shrink:
  assumes inv: "server_inv contents started loc w" and r: "sw_reqCh w = r # rs"
    and "\<And>d. distinct (qsubs u d) \<and> set (qsubs u d) \<subseteq> set (qsubs (sw_upper w) d)"
    and "\<And>d. distinct (tsubs u d) \<and> set (tsubs u d) \<subseteq> set (tsubs (sw_upper w) d)" and "\<And>c. out_subs c (up_out u) = []"
  shows "located loc (held (served rs u w))"
proof (rule located_shrink)
  show l: "located loc (held w)" using inv by (simp add: server_inv_def)
  have "distinct (asks rs) \<and> set (asks rs) \<subseteq> set (asks (sw_reqCh w))"
    using held_distinct [OF inv, of AtReq] r by (cases r) auto
  then show "distinct (held (served rs u w) p) \<and> set (held (served rs u w) p) \<subseteq> set (held w p)" for p
    using assms(3-5) held_distinct [OF inv, of p] by (cases p) simp_all
qed

lemma serve_harmless_inv:
  assumes S: "queue_storage S contents started" and inv: "server_inv contents started loc w" and r: "sw_reqCh w = r # rs"
    and keep: "\<And>c. out_subs c (up_out u) = []" "\<And>d. distinct (qsubs u d) \<and> set (qsubs u d) \<subseteq> set (qsubs (sw_upper w) d)"
      "\<And>d. distinct (tsubs u d) \<and> set (tsubs u d) \<subseteq> set (tsubs (sw_upper w) d)"
      "\<And>s. up_store u s = up_store (sw_upper w) s \<or>
         (\<exists>d. loc s = AtQueue d) \<and> up_store u s = (up_store (sw_upper w) s)\<lparr>sub_subList := None\<rparr>"
    and u: "upper_inv contents started u" "\<And>d. list_all addressed (contents (up_storage u) d)"
  shows "server_inv contents started loc (served rs u w)"
proof (rule served_inv [OF inv r _ _ u])
  show "located loc (held (served rs u w))" using keep(1-3) by (intro served_shrink [OF inv r]) simp_all
  show "subs_ok loc (up_store u) (sw_fresh w)"
    unfolding subs_ok_def
  proof
    fix s
    from inv have "subs_ok loc (up_store (sw_upper w)) (sw_fresh w)" by (simp add: server_inv_def)
    with keep(4) [of s] show "placed (loc s) (up_store u s) \<and> sub_msgId (up_store u s) = 0 \<and>
        sub_ack (up_store u s) \<in> {AckAuto, AckClientIndividual} \<and> (sw_fresh w \<le> s \<longrightarrow> loc s = Nowhere)"
      by (auto simp: subs_ok_def dest: spec [of _ s])
  qed
qed

text \<open>A subscription that is served moves, and is changed in no other place.\<close>

lemma serve_move_inv:
  assumes inv: "server_inv contents started loc w" and r: "sw_reqCh w = r # rs"
    and "loc s \<noteq> Nowhere" and "located (loc(s := p)) (held (served rs u w))" and "up_store u = (up_store (sw_upper w))(s := sub)"
    and "placed p sub" "sub_msgId sub = sub_msgId (up_store (sw_upper w) s)" "sub_ack sub = sub_ack (up_store (sw_upper w) s)"
    and u: "upper_inv contents started u" "\<And>d. list_all addressed (contents (up_storage u) d)"
  shows "server_inv contents started (loc(s := p)) (served rs u w)"
proof (rule served_inv [OF inv r assms(4) _ u])
  have subs: "subs_ok loc (up_store (sw_upper w)) (sw_fresh w)" using inv by (simp add: server_inv_def)
  from subs_ok_upd [OF this subs_ok_old [OF this assms(3)] assms(6-8)]
  show "subs_ok (loc(s := p)) (up_store u) (sw_fresh w)" by (simp add: assms(5))
qed

lemma addressed_with_sub: "addressed f \<Longrightarrow> addressed (with_sub st s f)"
  by (simp add: with_sub_def addressed_set)

lemma upper_queue_distinct: "server_inv contents started loc w \<Longrightarrow> distinct (qsubs (sw_upper w) d) \<and> distinct (tsubs (sw_upper w) d)"
  using held_distinct [of contents started loc w "AtQueue d"] held_distinct [of contents started loc w "AtTopic d"] by simp

text \<open>A subscription that asks leaves the request channel for one other place.\<close>

lemma asking:
  assumes inv: "server_inv contents started loc w" and r: "sw_reqCh w = SubscribeOp s # rs"
  shows "loc s = AtReq" "s \<notin> set (asks rs)" "sub_frame (up_store (sw_upper w) s) = None" "sub_subList (up_store (sw_upper w) s) = None"
proof -
  have "located loc (held w)" and subs: "subs_ok loc (up_store (sw_upper w)) (sw_fresh w)"
    using inv by (simp_all add: server_inv_def)
  then show s: "loc s = AtReq" "s \<notin> set (asks rs)"
    using r unfolding located_def by (auto dest: spec [of _ AtReq])
  show "sub_frame (up_store (sw_upper w) s) = None" "sub_subList (up_store (sw_upper w) s) = None"
    using subs_okD(1) [OF subs, of s] s(1) by simp_all
qed

lemma ask_moves:
  assumes inv: "server_inv contents started loc w" and r: "sw_reqCh w = SubscribeOp s # rs"
    and "q \<noteq> AtReq" "held (served rs u w) q = held w q @ [s]"
    and "\<And>p. p \<noteq> AtReq \<Longrightarrow> p \<noteq> q \<Longrightarrow> held (served rs u w) p = held w p"
  shows "located (loc(s := q)) (held (served rs u w))"
proof (rule located_move [where p = AtReq])
  fix p assume "p \<noteq> q"
  then show "distinct (held (served rs u w) p) \<and> set (held (served rs u w) p) \<subseteq> set (held w p)"
    using assms(5) [of p] held_distinct [OF inv, of p] r by (cases "p = AtReq") auto
qed (use assms asking(1,2) [OF inv r] in \<open>auto simp: server_inv_def\<close>)

lemma serve_subscribe_queue_inv:
  assumes S: "queue_storage S contents started" and inv: "server_inv contents started loc w" and r: "sw_reqCh w = SubscribeOp s # rs"
    and out: "sw_out w = []" and d: "isQueueDestination (sub_dest (up_store (sw_upper w) s))"
  shows "\<exists>u loc'. serve S (SubscribeOp s) ((sw_upper w)\<lparr>up_out := []\<rparr>) = Ret u \<and> server_inv contents started loc' (served rs u w)"
proof -
  let ?u = "(sw_upper w)\<lparr>up_out := []\<rparr>" and ?st = "up_store (sw_upper w)"
  let ?d = "sub_dest (?st s)"
  have up: "upper_inv contents started ?u" and ad: "\<And>d. list_all addressed (contents (up_storage (sw_upper w)) d)"
    using inv by (auto simp: server_inv_def upper_ok_def)
  note mine = asking [OF inv r]
  from subscribe_effect [OF S up, of s] d mine(3,4) obtain u where u: "serve S (SubscribeOp s) ?u = Ret u" "upper_inv contents started u"
    "up_tm u = up_tm (sw_upper w)"
    and e: "qsubs u = (qsubs (sw_upper w))(?d := qsubs (sw_upper w) ?d @ [s]) \<and> up_out u = [] \<and>
       up_store u = ?st(s := (?st s)\<lparr>sub_subList := Some (QueueList ?d)\<rparr>) \<and>
       contents (up_storage u) = contents (up_storage (sw_upper w)) \<or>
     (\<exists>f l. contents (up_storage (sw_upper w)) ?d = f # l \<and> qsubs u = qsubs (sw_upper w) \<and>
       up_out u = [ToSubChannel (sub_conn (?st s)) s] \<and>
       up_store u = ?st(s := (?st s)\<lparr>sub_frame := Some (with_sub ?st s f)\<rparr>) \<and>
       contents (up_storage u) = (contents (up_storage (sw_upper w)))(?d := l))"
    by auto
  have t: "tsubs u = tsubs (sw_upper w)" using u(3) by (simp add: tsubs_def fun_eq_iff)
  from e show ?thesis
  proof (elim disjE exE conjE)
    assume e: "qsubs u = (qsubs (sw_upper w))(?d := qsubs (sw_upper w) ?d @ [s])" "up_out u = []"
      "up_store u = ?st(s := (?st s)\<lparr>sub_subList := Some (QueueList ?d)\<rparr>)"
      "contents (up_storage u) = contents (up_storage (sw_upper w))"
    have "held (served rs u w) p = held w p" if "p \<noteq> AtReq" "p \<noteq> AtQueue ?d" for p
      using that e t out by (cases p) auto
    then have "located (loc(s := AtQueue ?d)) (held (served rs u w))"
      using e by (intro ask_moves [OF inv r]) simp_all
    from serve_move_inv [OF inv r _ this e(3)] mine(1) e(4) ad u(1,2) show ?thesis by auto
  next
    fix f fs assume e: "contents (up_storage (sw_upper w)) ?d = f # fs" "qsubs u = qsubs (sw_upper w)"
      "up_out u = [ToSubChannel (sub_conn (?st s)) s]"
      "up_store u = ?st(s := (?st s)\<lparr>sub_frame := Some (with_sub ?st s f)\<rparr>)"
      "contents (up_storage u) = (contents (up_storage (sw_upper w)))(?d := fs)"
    have "held (served rs u w) p = held w p" if "p \<noteq> AtReq" "p \<noteq> AtOut (sub_conn (?st s))" for p
      using that e t out by (cases p) auto
    then have l: "located (loc(s := AtOut (sub_conn (?st s)))) (held (served rs u w))"
      using e out by (intro ask_moves [OF inv r]) simp_all
    have "addressed f" using ad [of ?d] e(1) by (simp add: list_all_iff)
    moreover have "list_all addressed (contents (up_storage u) d)" for d using ad [of d] e(1,5) by (cases "d = ?d") simp_all
    ultimately show ?thesis
      using serve_move_inv [OF inv r _ l e(4)] mine u(1,2) by (auto simp: carries_def addressed_with_sub)
  qed
qed

lemma serve_subscribe_topic_inv:
  assumes S: "queue_storage S contents started" and inv: "server_inv contents started loc w" and r: "sw_reqCh w = SubscribeOp s # rs"
    and out: "sw_out w = []" and d: "\<not> isQueueDestination (sub_dest (up_store (sw_upper w) s))"
  shows "\<exists>u loc'. serve S (SubscribeOp s) ((sw_upper w)\<lparr>up_out := []\<rparr>) = Ret u \<and> server_inv contents started loc' (served rs u w)"
proof -
  let ?u = "(sw_upper w)\<lparr>up_out := []\<rparr>" and ?st = "up_store (sw_upper w)"
  let ?d = "sub_dest (?st s)"
  have up: "upper_inv contents started ?u" and ad: "\<And>d. list_all addressed (contents (up_storage (sw_upper w)) d)"
    using inv by (auto simp: server_inv_def upper_ok_def)
  note mine = asking [OF inv r]
  obtain u
    where u: "serve S (SubscribeOp s) ?u = Ret u" "upper_inv contents started u" "up_qm u = up_qm (sw_upper w)"
      "tsubs u = (tsubs (sw_upper w))(?d := tsubs (sw_upper w) ?d @ [s])" "up_storage u = up_storage (sw_upper w)"
      "up_store u = ?st" "\<And>c. out_subs c (up_out u) = []"
    by (rule topic_effect [OF up _ d _ S, of "SubscribeOp s" s "tsubs (sw_upper w) ?d @ [s]" undefined]) (use mine(3) that in simp_all)
  have q: "qsubs u = qsubs (sw_upper w)" using u(3) by (simp add: qsubs_def fun_eq_iff)
  have "held (served rs u w) p = held w p" if "p \<noteq> AtReq" "p \<noteq> AtTopic ?d" for p
    using that u(4,7) q out by (cases p) auto
  then have "located (loc(s := AtTopic ?d)) (held (served rs u w))"
    using u(4) by (intro ask_moves [OF inv r]) simp_all
  then have "server_inv contents started (loc(s := AtTopic ?d)) (served rs u w)"
    using mine(1) u(2,5,6) ad by (intro serve_move_inv [OF inv r, of s "AtTopic ?d" u "?st s"]) (simp_all add: fun_upd_idem)
  with u(1) show ?thesis by blast
qed

lemma serve_unsubscribe_inv:
  assumes S: "queue_storage S contents started" and inv: "server_inv contents started loc w" and r: "sw_reqCh w = UnsubscribeOp s # rs"
  shows "\<exists>u loc'. serve S (UnsubscribeOp s) ((sw_upper w)\<lparr>up_out := []\<rparr>) = Ret u \<and> server_inv contents started loc' (served rs u w)"
proof -
  let ?u = "(sw_upper w)\<lparr>up_out := []\<rparr>" and ?st = "up_store (sw_upper w)"
  let ?d = "sub_dest (?st s)"
  have l: "located loc (held w)" and up: "upper_inv contents started ?u"
    and ad: "\<And>d. list_all addressed (contents (up_storage (sw_upper w)) d)"
    using inv by (auto simp: server_inv_def upper_ok_def)
  note dist = upper_queue_distinct [OF inv]
  show ?thesis
  proof (cases "isQueueDestination ?d")
    case True
    obtain u where u: "serve S (UnsubscribeOp s) ?u = Ret u" "upper_inv contents started u"
      "up_tm u = up_tm ?u" "qsubs u = (qsubs ?u)(?d := remove1 s (qsubs ?u ?d))" "up_storage u = up_storage ?u" "up_out u = []"
      "up_store u = (if s \<in> set (qsubs ?u ?d) then (up_store ?u)(s := (up_store ?u s)\<lparr>sub_subList := None\<rparr>) else up_store ?u)"
      using unsubscribe_effect [OF S up, of s] True by auto
    have t: "tsubs u = tsubs (sw_upper w)" using u(3) by (simp add: tsubs_def fun_eq_iff)
    have "loc s = AtQueue ?d" if "s \<in> set (qsubs (sw_upper w) ?d)"
      using l that unfolding located_def by (auto dest: spec [of _ "AtQueue ?d"])
    then have k: "up_store u x = ?st x \<or> (\<exists>d. loc x = AtQueue d) \<and> up_store u x = (?st x)\<lparr>sub_subList := None\<rparr>" for x
      by (cases "x = s"; cases "s \<in> set (qsubs (sw_upper w) ?d)") (simp_all add: u(7))
    have "distinct (qsubs u x) \<and> set (qsubs u x) \<subseteq> set (qsubs (sw_upper w) x)" for x
      using u(4) dist [of x] by (cases "x = ?d") (simp_all add: set_remove1_subset distinct_remove1)
    then have "server_inv contents started loc (served rs u w)"
      using u(2,5,6) t dist ad k by (intro serve_harmless_inv [OF S inv r]) simp_all
    with u(1) show ?thesis by blast
  next
    case False
    obtain u
      where u: "serve S (UnsubscribeOp s) ?u = Ret u" "upper_inv contents started u" "up_qm u = up_qm (sw_upper w)"
        "tsubs u = (tsubs (sw_upper w))(?d := remove1 s (tsubs (sw_upper w) ?d))" "up_storage u = up_storage (sw_upper w)"
        "up_store u = ?st" "\<And>c. out_subs c (up_out u) = []"
      by (rule topic_effect [OF up _ False _ S, of "UnsubscribeOp s" s "remove1 s (tsubs (sw_upper w) ?d)" undefined]) (use that in simp_all)
    have q: "qsubs u = qsubs (sw_upper w)" using u(3) by (simp add: qsubs_def fun_eq_iff)
    have "distinct (tsubs u x) \<and> set (tsubs u x) \<subseteq> set (tsubs (sw_upper w) x)" for x
      using u(4) dist [of x] by (cases "x = ?d") (simp_all add: set_remove1_subset distinct_remove1)
    then have "server_inv contents started loc (served rs u w)"
      using u(2,5-7) q dist ad by (intro serve_harmless_inv [OF S inv r]) simp_all
    with u(1) show ?thesis by blast
  qed
qed

text \<open>A message for a queue goes to the subscription that waits longest, or is stored.\<close>

lemma serve_frame_queue_inv:
  assumes S: "queue_storage S contents started" and inv: "server_inv contents started loc w" and r: "sw_reqCh w = r # rs"
    and out: "sw_out w = []" and f: "addressed f" "r = EnqueueOp f \<or> r = RequeueOp (Some f)"
    and d: "Header_Contains (Hdr f) Destination = Some d" "isQueueDestination d"
  shows "\<exists>u loc'. serve S r ((sw_upper w)\<lparr>up_out := []\<rparr>) = Ret u \<and> server_inv contents started loc' (served rs u w)"
proof -
  let ?u = "(sw_upper w)\<lparr>up_out := []\<rparr>" and ?st = "up_store (sw_upper w)"
  have l: "located loc (held w)" and subs: "subs_ok loc ?st (sw_fresh w)" and up: "upper_inv contents started ?u"
    and ad: "\<And>d. list_all addressed (contents (up_storage (sw_upper w)) d)"
    using inv by (auto simp: server_inv_def upper_ok_def)
  obtain u where u: "serve S r ?u = Ret u" "upper_inv contents started u"
    "up_tm u = up_tm (sw_upper w)"
    and e: "qsubs u = qsubs (sw_upper w) \<and> up_out u = [] \<and> up_store u = ?st \<and>
       (\<exists>l. contents (up_storage u) = (contents (up_storage (sw_upper w)))(d := l) \<and>
          l \<in> {contents (up_storage (sw_upper w)) d @ [f], f # contents (up_storage (sw_upper w)) d}) \<or>
     (\<exists>s rest. qsubs (sw_upper w) d = s # rest \<and> qsubs u = (qsubs (sw_upper w))(d := rest) \<and>
       up_out u = [ToSubChannel (sub_conn (?st s)) s] \<and>
       up_store u = ?st(s := (?st s)\<lparr>sub_subList := None, sub_frame := Some (with_sub ?st s f)\<rparr>) \<and>
       contents (up_storage u) = contents (up_storage (sw_upper w)))"
    by (rule frame_effect [OF S up _ d(2,1) f(2)]) (simp, rule that, simp_all)
  have t: "tsubs u = tsubs (sw_upper w)" using u(3) by (simp add: tsubs_def fun_eq_iff)
  from e show ?thesis
  proof (elim disjE exE conjE)
    fix fs assume e: "qsubs u = qsubs (sw_upper w)" "up_out u = []" "up_store u = ?st"
      "contents (up_storage u) = (contents (up_storage (sw_upper w)))(d := fs)" "fs \<in> {contents (up_storage (sw_upper w)) d @ [f], f # contents (up_storage (sw_upper w)) d}"
    have "list_all addressed (contents (up_storage u) d')" for d'
      using ad [of d'] e(4,5) f(1) by (cases "d' = d") auto
    then have "server_inv contents started loc (served rs u w)"
      using e t u(2) upper_queue_distinct [OF inv] by (intro serve_harmless_inv [OF S inv r]) simp_all
    with u(1) show ?thesis by blast
  next
    fix s rest assume e: "qsubs (sw_upper w) d = s # rest" "qsubs u = (qsubs (sw_upper w))(d := rest)"
      "up_out u = [ToSubChannel (sub_conn (?st s)) s]"
      "up_store u = ?st(s := (?st s)\<lparr>sub_subList := None, sub_frame := Some (with_sub ?st s f)\<rparr>)"
      "contents (up_storage u) = contents (up_storage (sw_upper w))"
    have s: "loc s = AtQueue d" "s \<notin> set rest" "distinct rest"
      using l e(1) unfolding located_def by (auto dest: spec [of _ "AtQueue d"])
    have "asks (r # rs) = asks rs" using f(2) by auto
    then have shrink: "distinct (held (served rs u w) p) \<and> set (held (served rs u w) p) \<subseteq> set (held w p)"
      if "p \<noteq> AtOut (sub_conn (?st s))" for p
      using that e t out s(3) r held_distinct [OF inv, of p] by (cases p) auto
    have "located (loc(s := AtOut (sub_conn (?st s)))) (held (served rs u w))"
      by (rule located_move [OF l s(1)]) (use shrink e s(2) out in auto)
    from serve_move_inv [OF inv r _ this e(4)] s(1) e(5) ad u(1,2) f(1) show ?thesis
      by (auto simp: carries_def addressed_with_sub)
  qed
qed

lemma serve_topic_frame_inv:
  assumes S: "queue_storage S contents started" and inv: "server_inv contents started loc w" and r: "sw_reqCh w = r # rs"
    and f: "r = EnqueueOp f \<or> r = RequeueOp (Some f)" and d: "Header_Contains (Hdr f) Destination = Some d" "\<not> isQueueDestination d"
  shows "\<exists>u loc'. serve S r ((sw_upper w)\<lparr>up_out := []\<rparr>) = Ret u \<and> server_inv contents started loc' (served rs u w)"
proof -
  let ?u = "(sw_upper w)\<lparr>up_out := []\<rparr>"
  have up: "upper_inv contents started ?u" and ad: "\<And>d. list_all addressed (contents (up_storage (sw_upper w)) d)"
    using inv by (auto simp: server_inv_def upper_ok_def)
  have "\<exists>u. serve S r ?u = Ret u \<and> upper_inv contents started u \<and> qsubs u = qsubs (sw_upper w) \<and> tsubs u = tsubs (sw_upper w) \<and>
      up_storage u = up_storage (sw_upper w) \<and> up_store u = up_store (sw_upper w) \<and> (\<forall>c. out_subs c (up_out u) = [])"
  proof (cases "r = EnqueueOp f")
    case True
    obtain u
      where "serve S r ?u = Ret u" "upper_inv contents started u" "up_qm u = up_qm (sw_upper w)" "tsubs u = tsubs (sw_upper w)"
        "up_storage u = up_storage (sw_upper w)" "up_store u = up_store (sw_upper w)" "\<And>c. out_subs c (up_out u) = []"
      by (rule topic_effect [OF up _ d(2) _ S, of r undefined "tsubs (sw_upper w) d" f]) (use True d(1) that in \<open>simp_all add: fun_upd_idem\<close>)
    moreover from this(3) have "qsubs u = qsubs (sw_upper w)" by (simp add: qsubs_def fun_eq_iff)
    ultimately show ?thesis by blast
  next
    case False
    then have "serve S r ?u = Ret ?u" using f d by (simp add: serve_def)
    with up show ?thesis by simp
  qed
  then obtain u where u: "serve S r ?u = Ret u" "upper_inv contents started u" "qsubs u = qsubs (sw_upper w)"
    "tsubs u = tsubs (sw_upper w)" "up_storage u = up_storage (sw_upper w)" "up_store u = up_store (sw_upper w)"
    "\<And>c. out_subs c (up_out u) = []" by blast
  then have "server_inv contents started loc (served rs u w)"
    using ad upper_queue_distinct [OF inv] by (intro serve_harmless_inv [OF S inv r]) simp_all
  with u(1) show ?thesis by blast
qed

lemma serve_server_inv:
  assumes S: "queue_storage S contents started" and inv: "server_inv contents started loc w" and r: "sw_reqCh w = r # rs"
    and out: "sw_out w = []"
  shows "\<exists>u loc'. serve S r ((sw_upper w)\<lparr>up_out := []\<rparr>) = Ret u \<and> server_inv contents started loc' (served rs u w)"
proof -
  have ok: "request_ok r" using inv r by (simp add: server_inv_parts)
  have frame: "\<exists>u loc'. serve S r ((sw_upper w)\<lparr>up_out := []\<rparr>) = Ret u \<and> server_inv contents started loc' (served rs u w)"
    if f: "addressed f" "r = EnqueueOp f \<or> r = RequeueOp (Some f)" for f
  proof -
    from f(1) obtain d where "Header_Contains (Hdr f) Destination = Some d" by (auto simp: addressed_def)
    then show ?thesis
      using serve_frame_queue_inv [OF S inv r out f] serve_topic_frame_inv [OF S inv r f(2)] by blast
  qed
  have idle: "server_inv contents started loc (served rs ((sw_upper w)\<lparr>up_out := []\<rparr>) w)"
    using inv upper_queue_distinct [OF inv]
    by (intro serve_harmless_inv [OF S inv r]) (auto simp: server_inv_def upper_ok_def)
  show ?thesis
  proof (cases r)
    case (SubscribeOp s)
    with serve_subscribe_queue_inv [OF S inv, of s rs] serve_subscribe_topic_inv [OF S inv, of s rs] r out show ?thesis by blast
  next
    case (UnsubscribeOp s)
    with serve_unsubscribe_inv [OF S inv, of s rs] r show ?thesis by blast
  next
    case (EnqueueOp f)
    with frame ok show ?thesis by (simp add: request_ok_def)
  next
    case (RequeueOp fo)
    with frame ok show ?thesis by (cases fo) (simp_all add: request_ok_def)
  qed (use idle in \<open>auto simp: serve_def\<close>)
qed

subsection \<open>The server does not crash\<close>

lemma step_server_inv:
  assumes S: "queue_storage S contents started" and step: "server_step S quote cfg polite w w'"
    and inv: "server_inv contents started loc w"
  shows "\<exists>loc'. server_inv contents started loc' w'"
  using step
proof cases
  case (accept c room fault)
  with accept_inv [OF inv] show ?thesis by blast
next
  case (read c k f)
  have "conn_ok c k" using inv read by (auto simp: server_inv_parts)
  with read have "conn_ok c (k\<lparr>c_readChannel := c_readChannel k @ [f]\<rparr>)" by (simp add: conn_ok_def)
  from read_inv [OF inv _ this] read show ?thesis by auto
next
  case (read_end c k)
  have "conn_ok c k" using inv read_end by (auto simp: server_inv_parts)
  then have "conn_ok c (k\<lparr>c_readClosed := True\<rparr>)" by (simp add: conn_ok_def)
  from read_inv [OF inv _ this] read_end show ?thesis by auto
next
  case (turn c k sel k' continue v)
  with turn_server_inv [OF inv] show ?thesis by blast
next
  case (turn_panic c k sel k' m)
  with turn_no_panic [OF inv] show ?thesis by blast
next
  case (cleanup c k n order)
  with withdraws_inv [OF inv _ _ cleanup_withdraws [OF inv]] show ?thesis by blast
next
  case (post c r rs)
  with post_inv [OF inv] show ?thesis by blast
next
  case (serve r rs u)
  with serve_server_inv [OF S inv, of r rs] show ?thesis by (auto simp: served_def)
next
  case (serve_panic r rs m)
  with serve_server_inv [OF S inv, of r rs] show ?thesis by auto
next
  case (deliver_sub c s ds k)
  with deliver_sub_inv [OF inv] show ?thesis by blast
next
  case (deliver_write c f ds k)
  with deliver_write_inv [OF inv] show ?thesis by blast
qed

lemma reachable_server_inv:
  assumes "server_reachable S quote cfg polite storage w" and "queue_storage S contents started" and "started storage"
    and "contents storage = (\<lambda>d. [])"
  shows "\<exists>loc. server_inv contents started loc w"
  using assms(1)
proof induction
  case start
  show ?case using start_inv [OF assms(2-4)] by blast
next
  case (step w w')
  then show ?case using step_server_inv [OF assms(2)] by blast
qed

text \<open>
  Property C4. A server does not crash as long as its clients are polite. Over any queue storage that keeps its contract, with
  any number of connections, whatever they send, in every interleaving of the connections, the processor and the
  network, also when connections break at any byte and are cleaned up while messages are on their way:
  if every \<open>SEND\<close> has a destination, every \<open>SUBSCRIBE\<close> asks for no acknowledgements or individual ones,
  and no acknowledgement names message 0, then no goroutine of the server ever panics.
\<close>

theorem server_never_panics:
  assumes "queue_storage S contents started" and "started storage" and "contents storage = (\<lambda>d. [])"
    and "server_reachable S quote cfg polite storage w"
  shows "sw_crash w = None"
  using reachable_server_inv [OF assms(4,1-3)] by (auto simp: server_inv_def)

text \<open>A connection whose client has sent its first frame.\<close>

definition first_world :: "MemoryQueueStorage ServerWorld" where
  "first_world = (start_server NewMemoryQueueStorage)\<lparr>sw_conns :=
     [0 \<mapsto> (NewConn 0 (NewWriter None ErrEOF))\<lparr>c_readChannel := [mk_frame CONNECT [(''accept-version'', ''1.2'')]]\<rparr>]\<rparr>"

lemma empty_storage: "mem_started NewMemoryQueueStorage" "mem_contents NewMemoryQueueStorage = (\<lambda>d. [])"
  by (simp_all add: mem_started_def NewMemoryQueueStorage_def mem_contents_def lists_get_def fun_eq_iff)

lemma first_world_reachable: "server_reachable memory_storage id sample_cfg polite NewMemoryQueueStorage first_world"
proof -
  let ?w0 = "start_server NewMemoryQueueStorage" and ?f = "mk_frame CONNECT [(''accept-version'', ''1.2'')]"
  let ?w1 = "?w0\<lparr>sw_conns := (sw_conns ?w0)(0 \<mapsto> NewConn 0 (NewWriter None ErrEOF)), sw_pend := (sw_pend ?w0)(0 := [])\<rparr>"
  have "server_step memory_storage id sample_cfg polite ?w0 ?w1"
    by (rule server_step.accept) (simp_all add: start_server_def)
  then have "server_reachable memory_storage id sample_cfg polite NewMemoryQueueStorage ?w1"
    by (intro server_reachable.step [OF server_reachable.start])
  moreover have "server_step memory_storage id sample_cfg polite ?w1
      (?w1\<lparr>sw_conns := (sw_conns ?w1)(0 \<mapsto> (NewConn 0 (NewWriter None ErrEOF))\<lparr>c_readChannel := c_readChannel (NewConn 0 (NewWriter None ErrEOF)) @ [?f]\<rparr>)\<rparr>)"
    by (rule server_step.read) (simp_all add: start_server_def NewConn_def maxPendingReads_def polite_def)
  ultimately have "server_reachable memory_storage id sample_cfg polite NewMemoryQueueStorage
      (?w1\<lparr>sw_conns := (sw_conns ?w1)(0 \<mapsto> (NewConn 0 (NewWriter None ErrEOF))\<lparr>c_readChannel := c_readChannel (NewConn 0 (NewWriter None ErrEOF)) @ [?f]\<rparr>)\<rparr>)"
    by (rule server_reachable.step)
  then show ?thesis by (simp add: first_world_def start_server_def NewConn_def fun_upd_idem)
qed

theorem server_never_panics_witness: "sw_conns first_world 0 \<noteq> None \<and> sw_crash first_world = None"
proof -
  from server_never_panics [OF mem.queue_storage_axioms empty_storage first_world_reachable] show ?thesis
    by (simp add: first_world_def)
qed



end
