(* ===== verification/Server_Deadlock.thy ===== *)
theory Server_Deadlock
  imports Server_Safe
begin

section \<open>A deadlock between a connection and the processor\<close>

text \<open>
  The processor waits for room on the write channel of a connection, and only the processing goroutine of that connection makes
  room there. That goroutine waits for room on the request channel, and only the processor makes room there. Here: when both
  channels are full the whole server stands still for good, and one polite client brings it into that state with one
  transaction.
\<close>

subsection \<open>Standing still\<close>

definition stuck :: "conn_ref \<Rightarrow> 'q ServerWorld \<Rightarrow> bool" where
  "stuck c w \<longleftrightarrow>
     (\<exists>f ds. sw_out w = ToWriteChannel c f # ds) \<and> length (sw_reqCh w) = requestChannelCapacity \<and> sw_pend w c \<noteq> [] \<and>
     (\<exists>k. sw_conns w c = Some k \<and> length (c_writeChannel k) = maxPendingWrites)"

lemma stuck_step:
  assumes "server_step S quote cfg allowed w w'" and "stuck c w"
  shows "stuck c w' \<and> sw_out w' = sw_out w \<and> sw_reqCh w' = sw_reqCh w \<and> sw_pend w' c = sw_pend w c"
  using assms by cases (auto simp: stuck_def)

lemma stuck_steps:
  assumes "(server_step S quote cfg allowed)\<^sup>*\<^sup>* w w'" and "stuck c w"
  shows "stuck c w' \<and> sw_out w' = sw_out w \<and> sw_reqCh w' = sw_reqCh w \<and> sw_pend w' c = sw_pend w c"
  using assms
proof (induction rule: rtranclp_induct)
  case (step y z)
  from step.IH [OF step.prems] stuck_step [OF step.hyps(2), of c] show ?case by simp
qed simp

subsection \<open>A commit fills the channels\<close>

text \<open>
  A connection is committing messages to a topic that it subscribes to itself: \<open>m\<close> of them are on its write channel,
  \<open>rs\<close> on the request channel, \<open>fs\<close> still to be sent.
\<close>

definition pumping :: "conn_ref \<Rightarrow> string \<Rightarrow> nat \<Rightarrow> Frame list \<Rightarrow> Frame list \<Rightarrow> 'q ServerWorld \<Rightarrow> bool" where
  "pumping c d m rs fs w \<longleftrightarrow>
     sw_crash w = None \<and> (\<exists>k. sw_conns w c = Some k \<and> length (c_writeChannel k) = m) \<and>
     sw_pend w c = map EnqueueOp fs \<and> sw_reqCh w = map EnqueueOp rs \<and> \<not> isQueueDestination d \<and>
     list_all (\<lambda>f. Header_Contains (Hdr f) Destination = Some d) (rs @ fs) \<and>
     (\<exists>t s. up_tm (sw_upper w) d = Some t \<and> t_subs t = [s] \<and> sub_conn (up_store (sw_upper w) s) = c \<and>
        sub_frame (up_store (sw_upper w) s) = None)"

lemma pump_post:
  assumes "server_reachable S quote cfg allowed st w" and "pumping c d m rs (f # fs) w" and "length rs < requestChannelCapacity"
  obtains w' where "server_reachable S quote cfg allowed st w'" "pumping c d m (rs @ [f]) fs w'" "sw_out w' = sw_out w"
proof -
  let ?w = "w\<lparr>sw_pend := (sw_pend w)(c := map EnqueueOp fs), sw_reqCh := sw_reqCh w @ [EnqueueOp f]\<rparr>"
  have "server_step S quote cfg allowed w ?w"
    using assms(2,3) by (intro server_step.post) (simp_all add: pumping_def)
  with assms(1) have "server_reachable S quote cfg allowed st ?w" by (rule server_reachable.step)
  moreover have "pumping c d m (rs @ [f]) fs ?w" using assms(2) by (auto simp: pumping_def)
  ultimately show thesis using that by simp
qed

lemma pump_serve:
  assumes "server_reachable S quote cfg allowed st w" and "pumping c d m (f # rs) fs w" and "sw_out w = []"
  obtains w' g where "server_reachable S quote cfg allowed st w'" "pumping c d m rs fs w'" "sw_out w' = [ToWriteChannel c g]"
proof -
  from assms(2) obtain t s where t: "up_tm (sw_upper w) d = Some t" "t_subs t = [s]" "sub_conn (up_store (sw_upper w) s) = c"
    "sub_frame (up_store (sw_upper w) s) = None" "Header_Contains (Hdr f) Destination = Some d" "\<not> isQueueDestination d"
    by (auto simp: pumping_def)
  let ?g = "f\<lparr>Hdr := Header_Set (Hdr f) SubscriptionHdr (sub_id (up_store (sw_upper w) s))\<rparr>"
  let ?u = "(sw_upper w)\<lparr>up_out := [ToWriteChannel c ?g]\<rparr>"
  have "serve S (EnqueueOp f) ((sw_upper w)\<lparr>up_out := []\<rparr>) = Ret ?u"
    using t by (simp add: serve_def on_topic_def tm_Find_def Topic_Enqueue_def send_topic_def SendTopicFrame_def
        setSubscriptionHeader_def fun_upd_idem)
  then have "server_step S quote cfg allowed w (w\<lparr>sw_reqCh := map EnqueueOp rs, sw_upper := ?u, sw_out := up_out ?u\<rparr>)"
    using assms(2,3) by (intro server_step.serve) (simp_all add: pumping_def)
  with assms(1) have "server_reachable S quote cfg allowed st (w\<lparr>sw_reqCh := map EnqueueOp rs, sw_upper := ?u, sw_out := up_out ?u\<rparr>)"
    by (rule server_reachable.step)
  moreover have "pumping c d m rs fs (w\<lparr>sw_reqCh := map EnqueueOp rs, sw_upper := ?u, sw_out := up_out ?u\<rparr>)"
    using assms(2) by (auto simp: pumping_def)
  ultimately show thesis using that by simp
qed

lemma pump_deliver:
  assumes "server_reachable S quote cfg allowed st w" and "pumping c d m rs fs w" and "sw_out w = [ToWriteChannel c g]"
    and "m < maxPendingWrites"
  obtains w' where "server_reachable S quote cfg allowed st w'" "pumping c d (Suc m) rs fs w'" "sw_out w' = []"
proof -
  from assms(2) obtain k where k: "sw_conns w c = Some k" "length (c_writeChannel k) = m" by (auto simp: pumping_def)
  let ?w = "w\<lparr>sw_out := [], sw_conns := (sw_conns w)(c \<mapsto> k\<lparr>c_writeChannel := c_writeChannel k @ [g]\<rparr>)\<rparr>"
  have "server_step S quote cfg allowed w ?w"
    using assms(2-4) k by (intro server_step.deliver_write) (simp_all add: pumping_def)
  with assms(1) have "server_reachable S quote cfg allowed st ?w" by (rule server_reachable.step)
  moreover have "pumping c d (Suc m) rs fs ?w" using assms(2) k by (auto simp: pumping_def)
  ultimately show thesis using that by simp
qed

text \<open>First the write channel fills, then one more delivery waits, then the request channel fills.\<close>

lemma pump_writes:
  "server_reachable S quote cfg allowed st w \<Longrightarrow> pumping c d m [] fs w \<Longrightarrow> sw_out w = [] \<Longrightarrow>
   m + n \<le> maxPendingWrites \<Longrightarrow> n \<le> length fs \<Longrightarrow>
   \<exists>w'. server_reachable S quote cfg allowed st w' \<and> pumping c d (m + n) [] (drop n fs) w' \<and> sw_out w' = []"
proof (induction n arbitrary: m fs w)
  case 0
  then show ?case by auto
next
  case (Suc n)
  then obtain f fs' where fs: "fs = f # fs'" by (cases fs) auto
  obtain w1 where w1: "server_reachable S quote cfg allowed st w1" "pumping c d m [f] fs' w1" "sw_out w1 = []"
    using pump_post [OF Suc.prems(1), of c d m "[]" f fs'] Suc.prems(2,3) fs by (auto simp: requestChannelCapacity_def)
  obtain w2 g where w2: "server_reachable S quote cfg allowed st w2" "pumping c d m [] fs' w2" "sw_out w2 = [ToWriteChannel c g]"
    using pump_serve [OF w1] by blast
  obtain w3 where "server_reachable S quote cfg allowed st w3" "pumping c d (Suc m) [] fs' w3" "sw_out w3 = []"
    using pump_deliver [OF w2] Suc.prems(4) by auto
  from Suc.IH [OF this] Suc.prems(4,5) fs show ?case by simp
qed

lemma pump_requests:
  "server_reachable S quote cfg allowed st w \<Longrightarrow> pumping c d m rs fs w \<Longrightarrow> length rs + n \<le> requestChannelCapacity \<Longrightarrow>
   n \<le> length fs \<Longrightarrow>
   \<exists>w' rs'. server_reachable S quote cfg allowed st w' \<and> pumping c d m rs' (drop n fs) w' \<and> length rs' = length rs + n \<and>
     sw_out w' = sw_out w"
proof (induction n arbitrary: rs fs w)
  case 0
  then show ?case by auto
next
  case (Suc n)
  then obtain f fs' where fs: "fs = f # fs'" by (cases fs) auto
  obtain w1 where w1: "server_reachable S quote cfg allowed st w1" "pumping c d m (rs @ [f]) fs' w1" "sw_out w1 = sw_out w"
    using pump_post [OF Suc.prems(1), of c d m rs f fs'] Suc.prems(2,3) fs by auto
  from Suc.IH [OF w1(1,2)] Suc.prems(3,4) fs w1(3) show ?case by fastforce
qed

lemma pump_stuck:
  assumes "server_reachable S quote cfg allowed st w" and "pumping c d 0 [] fs w" and "sw_out w = []"
    and "maxPendingWrites + requestChannelCapacity + 2 \<le> length fs"
  shows "\<exists>w'. server_reachable S quote cfg allowed st w' \<and> stuck c w'"
proof -
  obtain w1 where w1: "server_reachable S quote cfg allowed st w1" "pumping c d maxPendingWrites [] (drop maxPendingWrites fs) w1"
    "sw_out w1 = []"
    using pump_writes [OF assms(1-3), of maxPendingWrites] assms(4) by auto
  obtain f fs' where fs: "drop maxPendingWrites fs = f # fs'" "requestChannelCapacity < length fs'"
    using assms(4) by (cases "drop maxPendingWrites fs") (auto dest: arg_cong [of _ _ length])
  obtain w2 where w2: "server_reachable S quote cfg allowed st w2" "pumping c d maxPendingWrites [f] fs' w2" "sw_out w2 = []"
    using pump_post [OF w1(1), of c d maxPendingWrites "[]" f fs'] w1(2,3) fs by (auto simp: requestChannelCapacity_def)
  obtain w3 g where w3: "server_reachable S quote cfg allowed st w3" "pumping c d maxPendingWrites [] fs' w3"
    "sw_out w3 = [ToWriteChannel c g]" using pump_serve [OF w2] by blast
  obtain w4 rs where w4: "server_reachable S quote cfg allowed st w4"
    "pumping c d maxPendingWrites rs (drop requestChannelCapacity fs') w4" "length rs = requestChannelCapacity" "sw_out w4 = sw_out w3"
    using pump_requests [OF w3(1,2), of requestChannelCapacity] fs(2) by auto
  with fs(2) w3(3) have "stuck c w4" by (auto simp: stuck_def pumping_def)
  with w4(1) show ?thesis by blast
qed

subsection \<open>A client that brings the server there\<close>

text \<open>A connection between two frames, while the rest of the server is idle.\<close>

definition at_rest :: "conn_ref \<Rightarrow> Conn \<Rightarrow> 'q ServerWorld \<Rightarrow> bool" where
  "at_rest c k w \<longleftrightarrow>
     sw_crash w = None \<and> sw_conns w c = Some k \<and> c_self k = c \<and> c_pc k = InLoop \<and> c_readChannel k = [] \<and> \<not> c_readClosed k \<and>
     sw_pend w c = [] \<and> sw_reqCh w = [] \<and> sw_out w = []"

lemma world_view_conns [simp]: "world_view k (w\<lparr>sw_conns := m\<rparr>) = world_view k w"
  by (simp add: world_view_def)

lemma feed_steps:
  assumes "at_rest c k w" and "header_ok (Hdr f)" and "allowed f"
    and "processLoop_turn quote cfg (SelRead (Some f)) (world_view k w) = Ret (True, v)"
  shows "\<exists>w1. server_step S quote cfg allowed w w1 \<and> server_step S quote cfg allowed' w1 (put_view c v w)"
proof -
  let ?k = "k\<lparr>c_readChannel := c_readChannel k @ [f]\<rparr>"
  let ?w = "w\<lparr>sw_conns := (sw_conns w)(c \<mapsto> ?k)\<rparr>"
  have "server_step S quote cfg allowed w ?w"
    using assms(1-3) by (intro server_step.read) (simp_all add: at_rest_def maxPendingReads_def)
  moreover have "take_select (SelRead (Some f)) ?k = Some k" using assms(1) by (simp add: at_rest_def)
  then have "server_step S quote cfg allowed' ?w (put_view c (if True then v else v\<lparr>c_pc := Cleanup 0\<rparr>) ?w)"
    using assms(1,4) by (intro server_step.turn [where k = ?k and sel = "SelRead (Some f)" and k' = k]) (simp_all add: at_rest_def)
  moreover have "put_view c v ?w = put_view c v w" by (simp add: put_view_def)
  ultimately show ?thesis by (metis (full_types))
qed

lemma feed_frame:
  assumes "server_reachable S quote cfg allowed st w" and "at_rest c k w" and "header_ok (Hdr f)" and "allowed f"
    and "processLoop_turn quote cfg (SelRead (Some f)) (world_view k w) = Ret (True, v)"
  shows "server_reachable S quote cfg allowed st (put_view c v w)"
  using feed_steps [of c k w f allowed quote cfg v S allowed] assms server_reachable.step by metis

text \<open>The one request of a turn, when it is served without a delivery.\<close>

lemma flush_request:
  assumes "server_reachable S quote cfg allowed st w" and "sw_crash w = None" and "sw_pend w c = [r]" and "sw_reqCh w = []" and "sw_out w = []"
    and "serve S r ((sw_upper w)\<lparr>up_out := []\<rparr>) = Ret u" and "up_out u = []"
  shows "server_reachable S quote cfg allowed st (w\<lparr>sw_pend := (sw_pend w)(c := []), sw_upper := u\<rparr>)"
proof -
  let ?w = "w\<lparr>sw_pend := (sw_pend w)(c := []), sw_reqCh := sw_reqCh w @ [r]\<rparr>"
  have "server_step S quote cfg allowed w ?w"
    using assms(2-4) by (intro server_step.post) (simp_all add: requestChannelCapacity_def)
  with assms(1) have r: "server_reachable S quote cfg allowed st ?w" by (rule server_reachable.step)
  have "server_step S quote cfg allowed ?w (?w\<lparr>sw_reqCh := [], sw_upper := u, sw_out := up_out u\<rparr>)"
    using assms by (intro server_step.serve) simp_all
  moreover have "?w\<lparr>sw_reqCh := [], sw_upper := u, sw_out := up_out u\<rparr> = w\<lparr>sw_pend := (sw_pend w)(c := []), sw_upper := u\<rparr>"
    using assms(4,5,7) by (cases w) simp
  ultimately show ?thesis using server_reachable.step [OF r] by metis
qed

lemma tx_turn_world:
  assumes "tx_turn (world_view k w) txs v" and "at_rest c k w"
  obtains k' where "at_rest c k' (put_view c v w)" "c_state k' = c_state k" "c_txStore k' = txs" "ready (c_writer k')"
    "c_writeChannel k' = c_writeChannel k" "sw_upper (put_view c v w) = sw_upper w"
proof -
  obtain wr b where "ready wr" "v = (world_view k w)\<lparr>c_writer := wr, c_timer := b, c_txStore := txs\<rparr>"
    using assms(1) by (auto simp: tx_turn_def)
  with assms(2) that [of "Conn.truncate v"] show thesis by (simp add: at_rest_def)
qed

text \<open>The sends of a transaction, one by one.\<close>

lemma feed_sends:
  "server_reachable S quote cfg polite st w \<Longrightarrow> at_rest c k w \<Longrightarrow> c_state k = Connected \<Longrightarrow> ready (c_writer k) \<Longrightarrow>
   tx_inv (c_txStore k) \<Longrightarrow> tx_lookup (c_txStore k) tx = Some l \<Longrightarrow> list_all (\<lambda>f. tx_send tx f \<and> polite f) fs \<Longrightarrow>
   \<exists>w' k'. server_reachable S quote cfg polite st w' \<and> at_rest c k' w' \<and> c_state k' = Connected \<and> ready (c_writer k') \<and>
     tx_inv (c_txStore k') \<and> tx_lookup (c_txStore k') tx = Some (l @ map stripped fs) \<and>
     c_writeChannel k' = c_writeChannel k \<and> sw_upper w' = sw_upper w"
proof (induction fs arbitrary: w k l)
  case Nil
  then show ?case by auto
next
  case (Cons f fs)
  from Cons.prems(7) have f: "Command f = SEND" "header_ok (Hdr f)" "Header_Contains (Hdr f) Transaction = Some tx" "polite f"
    by (simp_all add: tx_send_def)
  let ?txs = "tx_assign tx (Some (l @ [stripped f])) (c_txStore k)"
  obtain v where v: "processLoop_turn quote cfg (SelRead (Some f)) (world_view k w) = Ret (True, v)" "tx_turn (world_view k w) ?txs v"
    using send_turn [of "world_view k w" f tx l quote cfg] Cons.prems(3,4,6) f by auto
  obtain k1 where k1: "at_rest c k1 (put_view c v w)" "c_state k1 = c_state k" "c_txStore k1 = ?txs" "ready (c_writer k1)"
    "c_writeChannel k1 = c_writeChannel k" "sw_upper (put_view c v w) = sw_upper w"
    using tx_turn_world [OF v(2) Cons.prems(2)] by blast
  have "list_all tx_frame_ok (l @ [stripped f])"
    using Cons.prems(5,6) f(2) by (auto simp: tx_inv_def tx_frame_ok_def stripped_Contains)
  then have "tx_inv (c_txStore k1)" using Cons.prems(5) k1(3) by (simp add: tx_inv_assign)
  moreover have "tx_lookup (c_txStore k1) tx = Some (l @ [stripped f])" using Cons.prems(6) k1(3) by simp
  moreover have "list_all (\<lambda>f. tx_send tx f \<and> polite f) fs" using Cons.prems(7) by simp
  moreover note feed_frame [OF Cons.prems(1,2) f(2,4) v(1)]
  ultimately obtain w' k' where "server_reachable S quote cfg polite st w'" "at_rest c k' w'" "c_state k' = Connected" "ready (c_writer k')"
     "tx_inv (c_txStore k')" "tx_lookup (c_txStore k') tx = Some ((l @ [stripped f]) @ map stripped fs)"
     "c_writeChannel k' = c_writeChannel k" "sw_upper w' = sw_upper w"
    using Cons.IH [of "put_view c v w" k1 "l @ [stripped f]"] k1 Cons.prems(3) by auto
  then show ?case by auto
qed

text \<open>The client: it logs in, subscribes to a topic, and sends a transaction of messages to it.\<close>

definition hello :: Frame where
  "hello = mk_frame CONNECT [(''login'', ''guest''), (''accept-version'', ''1.2'')]"

definition listen_to :: "string \<Rightarrow> Frame" where
  "listen_to d = mk_frame SUBSCRIBE [(''id'', ''1''), (''destination'', d)]"

definition tx_message :: Frame where
  "tx_message = mk_frame SEND [(''destination'', ''news''), (''transaction'', ''t'')]"

lemma hello_ok: "connect_ok sample_cfg hello"
proof -
  have "determineVersion hello = (V12, None)" "getHeartBeat hello = (0, 0, None)" by code_simp+
  then show ?thesis by (simp add: connect_ok_def sample_cfg_def hello_def Header_Get_def)
qed

lemma hello_turn:
  assumes "c_state v = Connecting" and "ready (c_writer v)"
  obtains b ver vd wt wr where "ready wr"
    "processLoop_turn quote sample_cfg (SelRead (Some hello)) v = Ret (True, v\<lparr>c_timer := b, c_version := ver, c_validator := vd,
       c_writeTimeout := wt, c_writer := wr, c_state := Connected, v_req := v_req v @ [ConnectedOp (c_self v)]\<rparr>)"
proof -
  have "\<exists>v'. processLoop_turn quote sample_cfg (SelRead (Some hello)) v = Ret (True, v') \<and>
      (\<exists>b ver vd wt wr. ready wr \<and> v' = v\<lparr>c_timer := b, c_version := ver, c_validator := vd, c_writeTimeout := wt,
         c_writer := wr, c_state := Connected, v_req := v_req v @ [ConnectedOp (c_self v)]\<rparr>)"
  proof (rule turn_read)
    fix b
    let ?v = "v\<lparr>c_timer := b\<rparr>"
    obtain wr where wr: "Writer_Write (Some (connected_frame sample_cfg hello)) (c_writer ?v) = (None, wr)" "ready wr"
      using Writer_Write_ready [of "c_writer ?v"] assms(2) by auto
    obtain w' where c: "connecting sample_cfg hello ?v =
      (None, hello, ?v\<lparr>c_version := fst (determineVersion hello), c_validator := Some validatorNull,
         c_writeTimeout := negotiated sample_cfg (fst (snd (getHeartBeat hello))) * Millisecond, c_writer := w',
         c_state := Connected, v_req := v_req ?v @ [ConnectedOp (c_self ?v)]\<rparr>)"
      "w' = snd (Writer_Write (Some (connected_frame sample_cfg hello)) (c_writer ?v))"
      by (rule connecting_accepts [OF hello_ok, of ?v]) blast
    have "stateFunc sample_cfg hello ?v = Ret (connecting sample_cfg hello ?v)"
      by (rule connecting_state) (simp add: assms(1))
    with c wr show "\<exists>f' v'. stateFunc sample_cfg hello ?v = Ret (None, f', v') \<and>
        (\<exists>b ver vd wt wr. ready wr \<and> v' = v\<lparr>c_timer := b, c_version := ver, c_validator := vd, c_writeTimeout := wt,
           c_writer := wr, c_state := Connected, v_req := v_req v @ [ConnectedOp (c_self v)]\<rparr>)"
      by (auto intro!: exI)
  qed
  with that show thesis by blast
qed

definition logged_in :: "Conn \<Rightarrow> MemoryQueueStorage ServerWorld \<Rightarrow> bool" where
  "logged_in k w \<longleftrightarrow>
     at_rest 0 k w \<and> c_state k = Connected \<and> ready (c_writer k) \<and> c_txStore k = tx_new \<and> c_subs k = Map.empty \<and>
     c_writeChannel k = [] \<and> c_subChannel k = [] \<and> c_subList k = [] \<and>
     sw_upper w = newRequestProcessor NewMemoryQueueStorage no_subs \<and> sw_fresh w = 0"

lemma logged_in_reachable:
  assumes "allowed hello"
  shows "\<exists>w k. server_reachable memory_storage quote sample_cfg allowed NewMemoryQueueStorage w \<and> logged_in k w"
proof -
  let ?k = "NewConn 0 (NewWriter None ErrEOF)" and ?w0 = "start_server NewMemoryQueueStorage"
  let ?w1 = "?w0\<lparr>sw_conns := (sw_conns ?w0)(0 \<mapsto> ?k), sw_pend := (sw_pend ?w0)(0 := [])\<rparr>"
  have "server_step memory_storage quote sample_cfg allowed ?w0 ?w1"
    by (rule server_step.accept) (simp_all add: start_server_def)
  then have r1: "server_reachable memory_storage quote sample_cfg allowed NewMemoryQueueStorage ?w1"
    by (intro server_reachable.step [OF server_reachable.start])
  have rest: "at_rest 0 ?k ?w1" by (simp add: at_rest_def start_server_def NewConn_def)
  have k: "c_state (world_view ?k ?w1) = Connecting" "ready (c_writer (world_view ?k ?w1))" by (simp_all add: NewConn_def)
  obtain b ver vd wt wr where wr: "ready wr"
    "processLoop_turn quote sample_cfg (SelRead (Some hello)) (world_view ?k ?w1) = Ret (True, (world_view ?k ?w1)
       \<lparr>c_timer := b, c_version := ver, c_validator := vd, c_writeTimeout := wt, c_writer := wr, c_state := Connected,
        v_req := v_req (world_view ?k ?w1) @ [ConnectedOp (c_self (world_view ?k ?w1))]\<rparr>)" (is "_ = Ret (True, ?v)")
    by (rule hello_turn [OF k])
  have "header_ok (Hdr hello)" by (simp add: hello_def)
  note r2 = feed_frame [OF r1 rest this assms wr(2)]
  let ?w2 = "put_view 0 ?v ?w1"
  let ?w3 = "?w2\<lparr>sw_pend := (sw_pend ?w2)(0 := []), sw_upper := (sw_upper ?w2)\<lparr>up_out := []\<rparr>\<rparr>"
  have "server_reachable memory_storage quote sample_cfg allowed NewMemoryQueueStorage ?w3"
    using rest by (intro flush_request [OF r2, where r = "ConnectedOp 0"]) (simp_all add: at_rest_def serve_def)
  moreover have "logged_in (Conn.truncate ?v) ?w3"
    using rest wr(1) by (simp add: logged_in_def at_rest_def start_server_def newRequestProcessor_def NewConn_def)
  ultimately show ?thesis by blast
qed

definition listening :: "Conn \<Rightarrow> MemoryQueueStorage ServerWorld \<Rightarrow> bool" where
  "listening k w \<longleftrightarrow>
     at_rest 0 k w \<and> c_state k = Connected \<and> ready (c_writer k) \<and> c_txStore k = tx_new \<and> c_writeChannel k = [] \<and>
     (\<exists>t s. up_tm (sw_upper w) ''news'' = Some t \<and> t_subs t = [s] \<and> sub_conn (up_store (sw_upper w) s) = 0 \<and>
        sub_frame (up_store (sw_upper w) s) = None)"

text \<open>After the subscription the request for the first message waits to be sent.\<close>

definition asking_world :: "string \<Rightarrow> Conn \<Rightarrow> MemoryQueueStorage ServerWorld \<Rightarrow> bool" where
  "asking_world d k w \<longleftrightarrow>
     at_rest 0 k (w\<lparr>sw_pend := (sw_pend w)(0 := [])\<rparr>) \<and> sw_pend w 0 = [SubscribeOp 0] \<and>
     c_state k = Connected \<and> ready (c_writer k) \<and> c_txStore k = tx_new \<and> c_writeChannel k = [] \<and>
     c_subChannel k = [] \<and> c_subList k = [] \<and> c_subs k = [''1'' \<mapsto> 0] \<and>
     sw_upper w = newRequestProcessor NewMemoryQueueStorage (no_subs(0 := newSubscription 0 d ''1'' AckAuto))"

lemma asking_reachable:
  assumes "allowed hello" and "allowed (listen_to d)"
  shows "\<exists>w k. server_reachable memory_storage quote sample_cfg allowed NewMemoryQueueStorage w \<and> asking_world d k w"
proof -
  obtain w k where w: "server_reachable memory_storage quote sample_cfg allowed NewMemoryQueueStorage w" "logged_in k w"
    using logged_in_reachable [of allowed] assms(1) by blast
  then have rest: "at_rest 0 k w" and self: "c_self k = 0" by (simp_all add: logged_in_def at_rest_def)
  let ?s = "newSubscription 0 d ''1'' AckAuto"
  have "\<exists>v. processLoop_turn quote sample_cfg (SelRead (Some (listen_to d))) (world_view k w) = Ret (True, v) \<and>
      (\<exists>b. v = (world_view k w)\<lparr>c_timer := b, v_fresh := 1, v_store := no_subs(0 := ?s), c_subs := [''1'' \<mapsto> 0],
        v_req := [SubscribeOp 0]\<rparr>)"
    by (rule turn_read)
       (use w(2) self in \<open>auto simp: stateFunc_connected connected_def handleSubscribe_def listen_to_def Let_def logged_in_def
         newRequestProcessor_def send_request_def simp del: run_state.simps\<close>)
  then obtain b where v: "processLoop_turn quote sample_cfg (SelRead (Some (listen_to d))) (world_view k w) =
      Ret (True, (world_view k w)\<lparr>c_timer := b, v_fresh := 1, v_store := no_subs(0 := ?s), c_subs := [''1'' \<mapsto> 0],
        v_req := [SubscribeOp 0]\<rparr>)" (is "_ = Ret (True, ?v)") by blast
  have "header_ok (Hdr (listen_to d))" by (simp add: listen_to_def)
  note r = feed_frame [OF w(1) rest this assms(2) v]
  have "asking_world d (Conn.truncate ?v) (put_view 0 ?v w)"
    using w(2) rest by (simp add: asking_world_def logged_in_def at_rest_def newRequestProcessor_def)
  with r show ?thesis by blast
qed

lemma polite_greeting: "polite hello" "polite (listen_to d)"
  by (simp_all add: hello_def listen_to_def polite_def)

lemma listening_reachable:
  "\<exists>w k. server_reachable memory_storage quote sample_cfg polite NewMemoryQueueStorage w \<and> listening k w"
proof -
  obtain w k where w: "server_reachable memory_storage quote sample_cfg polite NewMemoryQueueStorage w" "asking_world ''news'' k w"
    using asking_reachable [OF polite_greeting] by blast
  let ?t = "\<lparr>t_destination = ''news'', t_subs = [0]\<rparr>"
  let ?u = "(sw_upper w)\<lparr>up_tm := [''news'' \<mapsto> ?t], up_out := []\<rparr>"
  have "serve memory_storage (SubscribeOp 0) ((sw_upper w)\<lparr>up_out := []\<rparr>) = Ret ?u"
    using w(2)
    by (simp add: serve_def newSubscription_def isQueueDestination_def QueuePrefix_def on_topic_def tm_Find_def
        newTopic_def Topic_Subscribe_def asking_world_def newRequestProcessor_def Let_def)
  then have "server_reachable memory_storage quote sample_cfg polite NewMemoryQueueStorage
      (w\<lparr>sw_pend := (sw_pend w)(0 := []), sw_upper := ?u\<rparr>)"
    using w(2) by (intro flush_request [OF w(1), where r = "SubscribeOp 0"]) (simp_all add: at_rest_def asking_world_def)
  moreover have "listening k (w\<lparr>sw_pend := (sw_pend w)(0 := []), sw_upper := ?u\<rparr>)"
    using w(2) by (simp add: listening_def asking_world_def at_rest_def newSubscription_def newRequestProcessor_def)
  ultimately show ?thesis by blast
qed

lemma committing_reachable:
  "\<exists>w. server_reachable memory_storage quote sample_cfg polite NewMemoryQueueStorage w \<and> sw_out w = [] \<and>
     pumping 0 ''news'' 0 [] (replicate n (mk_frame MESSAGE [(''destination'', ''news'')])) w"
proof -
  let ?b = "mk_frame BEGIN [(''transaction'', ''t'')]" and ?c = "mk_frame COMMIT [(''transaction'', ''t'')]"
  let ?R = "server_reachable memory_storage quote sample_cfg polite NewMemoryQueueStorage"
  obtain w k where w: "?R w" "listening k w" using listening_reachable by blast
  then have k: "at_rest 0 k w" "c_state k = Connected" "ready (c_writer k)" "c_txStore k = tx_new" "c_writeChannel k = []"
    by (simp_all add: listening_def)
  have b: "header_ok (Hdr ?b)" "polite ?b" and c: "header_ok (Hdr ?c)" "polite ?c"
    and m: "list_all (\<lambda>f. tx_send ''t'' f \<and> polite f) (replicate n tx_message)" "stripped tx_message = mk_frame SEND [(''destination'', ''news'')]"
    by (simp_all add: polite_def tx_send_def tx_message_def list_all_iff) code_simp
  obtain err txs where bg: "tx_Begin ''t'' tx_new = (err, txs)" by fastforce
  have txs: "tx_lookup txs = [''t'' \<mapsto> []]" "tx_inv txs" using tx_Begin_lookup [OF bg] tx_inv_Begin [OF _ bg] by simp_all
  obtain v1 where v1: "processLoop_turn quote sample_cfg (SelRead (Some ?b)) (world_view k w) = Ret (True, v1)"
    "tx_turn (world_view k w) txs v1"
    using begin_turn [of "world_view k w" ?b "''t''" quote sample_cfg] k bg by auto
  note r1 = feed_frame [OF w(1) k(1) b v1(1)]
  obtain k1 where k1: "at_rest 0 k1 (put_view 0 v1 w)" "c_state k1 = c_state k" "c_txStore k1 = txs" "ready (c_writer k1)"
    "c_writeChannel k1 = c_writeChannel k" "sw_upper (put_view 0 v1 w) = sw_upper w"
    using tx_turn_world [OF v1(2) k(1)] by blast
  obtain w2 k2 where w2: "?R w2" "at_rest 0 k2 w2" "c_state k2 = Connected" "ready (c_writer k2)" "tx_inv (c_txStore k2)"
    "tx_lookup (c_txStore k2) ''t'' = Some (map stripped (replicate n tx_message))" "c_writeChannel k2 = []" "sw_upper w2 = sw_upper w"
    using feed_sends [OF r1 k1(1), of "''t''" "[]" "replicate n tx_message"] k1 k txs m(1) by auto
  let ?l = "map stripped (replicate n tx_message)"
  have l: "list_all (\<lambda>f. Command f = SEND \<and> Header_Contains (Hdr f) Receipt = None) ?l" by (simp add: m(2) list_all_iff)
  obtain v3 where v3: "processLoop_turn quote sample_cfg (SelRead (Some ?c)) (world_view k2 w2) = Ret (True, v3)"
    "tx_turn ((world_view k2 w2)\<lparr>v_req := map (\<lambda>f. EnqueueOp (f\<lparr>Command := MESSAGE\<rparr>)) ?l\<rparr>) (tx_assign ''t'' None (c_txStore k2)) v3"
    using commit_turn [of "world_view k2 w2" ?c "''t''" ?l quote sample_cfg] w2(3-6) l by auto
  note r3 = feed_frame [OF w2(1,2) c v3(1)]
  obtain wr tm where e: "v3 = (world_view k2 w2)\<lparr>v_req := map (\<lambda>f. EnqueueOp (f\<lparr>Command := MESSAGE\<rparr>)) ?l,
      c_writer := wr, c_timer := tm, c_txStore := tx_assign ''t'' None (c_txStore k2)\<rparr>"
    using v3(2) by (auto simp: tx_turn_def)
  have "map (\<lambda>f. EnqueueOp (f\<lparr>Command := MESSAGE\<rparr>)) ?l = map EnqueueOp (replicate n (mk_frame MESSAGE [(''destination'', ''news'')]))"
    by (simp add: m(2)) (simp add: mk_frame_def)
  with e w2(2,7,8) w(2) have "pumping 0 ''news'' 0 [] (replicate n (mk_frame MESSAGE [(''destination'', ''news'')])) (put_view 0 v3 w2)"
    by (simp add: pumping_def at_rest_def listening_def isQueueDestination_def QueuePrefix_def list_all_iff)
  moreover have "sw_out (put_view 0 v3 w2) = []" using w2(2) by (simp add: at_rest_def)
  ultimately show ?thesis using r3 by blast
qed

text \<open>
  Property C28. The server can come to a standstill for good, with polite clients only: a state is reachable in which no goroutine has panicked, the processor
  waits for room on the write channel of a connection and that connection waits, in the middle of a commit, for room on the full request channel; from then on, whatever
  the clients (polite or not) and the network do, no delivery is made, no request is taken or accepted, and the commit does not end. One client suffices, which
  commits 146 messages to a topic that it subscribes to (\<open>committing_reachable\<close>, \<open>pump_stuck\<close>).
\<close>

theorem server_deadlock:
  "\<exists>w. server_reachable memory_storage quote sample_cfg polite NewMemoryQueueStorage w \<and> sw_crash w = None \<and>
     length (sw_reqCh w) = 128 \<and> sw_pend w 0 \<noteq> [] \<and> sw_out w \<noteq> [] \<and>
     {w'. (server_step memory_storage quote sample_cfg allowed)\<^sup>*\<^sup>* w w'} \<subseteq>
       {w'. sw_out w' = sw_out w \<and> sw_reqCh w' = sw_reqCh w \<and> sw_pend w' 0 = sw_pend w 0}"
proof -
  obtain w fs where w: "server_reachable memory_storage quote sample_cfg polite NewMemoryQueueStorage w" "sw_out w = []"
    "pumping 0 ''news'' 0 [] fs w" "length fs = 146"
    using committing_reachable [of quote 146] length_replicate by metis
  have "maxPendingWrites + requestChannelCapacity + 2 \<le> length fs"
    by (simp add: maxPendingWrites_def requestChannelCapacity_def w(4))
  from pump_stuck [OF w(1,3,2) this] obtain w'
    where w': "server_reachable memory_storage quote sample_cfg polite NewMemoryQueueStorage w'" "stuck 0 w'" by blast
  from reachable_server_inv [OF w'(1) mem.queue_storage_axioms empty_storage] have "sw_crash w' = None" by (auto simp: server_inv_def)
  moreover have "{x. (server_step memory_storage quote sample_cfg allowed)\<^sup>*\<^sup>* w' x} \<subseteq>
      {x. sw_out x = sw_out w' \<and> sw_reqCh x = sw_reqCh w' \<and> sw_pend x 0 = sw_pend w' 0}"
    using stuck_steps [OF _ w'(2)] by blast
  moreover have "length (sw_reqCh w') = 128" "sw_pend w' 0 \<noteq> []" "sw_out w' \<noteq> []"
    using w'(2) by (auto simp: stuck_def requestChannelCapacity_def)
  ultimately show ?thesis using w'(1) by blast
qed

end
