(* ===== verification/Server_Loss.thy ===== *)
theory Server_Loss
  imports Server_Deadlock
begin

section \<open>A message that is lost when a connection closes\<close>

text \<open>
  \<open>cleanupConn\<close> empties the channel of handed out subscriptions twice, so that their messages go back to their queues, and then
  forgets the channel. It does not wait until the processor has served its requests: a message that the processor takes
  from the request channel before the \<open>UnsubscribeOp\<close> of the subscription is still handed to it, and stays in the channel for ever.
\<close>

subsection \<open>Nobody reads the channel of a closed connection\<close>

definition abandoned :: "conn_ref \<Rightarrow> sub_ref \<Rightarrow> 'q ServerWorld \<Rightarrow> bool" where
  "abandoned c s w \<longleftrightarrow> (\<exists>k. sw_conns w c = Some k \<and> c_pc k = Closed \<and> s \<in> set (c_subChannel k))"

lemma abandoned_step: "server_step S quote cfg allowed w w' \<Longrightarrow> abandoned c s w \<Longrightarrow> abandoned c s w'"
  by (cases rule: server_step.cases, assumption) (auto simp: abandoned_def)

lemma abandoned_steps: "(server_step S quote cfg allowed)\<^sup>*\<^sup>* w w' \<Longrightarrow> abandoned c s w \<Longrightarrow> abandoned c s w'"
  by (induction rule: rtranclp_induct) (auto dest: abandoned_step)

subsection \<open>A connection that closes behind its own message\<close>

definition shop :: string where "shop = ''/queue/a''"

definition order_frame :: "bytes \<Rightarrow> Frame" where
  "order_frame body = (mk_frame SEND [(''destination'', shop)])\<lparr>Body := body\<rparr>"

definition order_message :: "bytes \<Rightarrow> Frame" where
  "order_message body = (order_frame body)\<lparr>Command := MESSAGE\<rparr>"

text \<open>The subscription 0 waits at the queue, which is empty.\<close>

definition waiting_at_shop :: "MemoryQueueStorage Upper \<Rightarrow> bool" where
  "waiting_at_shop u \<longleftrightarrow>
     up_qm u shop = Some \<lparr>q_destination = shop, q_subs = [0]\<rparr> \<and> mem_contents (up_storage u) shop = [] \<and>
     sub_conn (up_store u 0) = 0 \<and> sub_id (up_store u 0) = ''1'' \<and> sub_ack (up_store u 0) = AckAuto \<and> sub_frame (up_store u 0) = None"

text \<open>The server after the message has been put into the queue: the subscription has it.\<close>

definition order_taken :: "bytes \<Rightarrow> MemoryQueueStorage Upper \<Rightarrow> MemoryQueueStorage Upper" where
  "order_taken body u =
     u\<lparr>up_qm := (up_qm u)(shop \<mapsto> \<lparr>q_destination = shop, q_subs = []\<rparr>),
       up_store := (up_store u)(0 := (up_store u 0)\<lparr>sub_subList := None, sub_frame := Some (with_sub (up_store u) 0 (order_message body))\<rparr>),
       up_out := [ToSubChannel 0 0]\<rparr>"

lemma serve_order:
  "waiting_at_shop u \<Longrightarrow> serve memory_storage (EnqueueOp (order_message body)) (u\<lparr>up_out := []\<rparr>) = Ret (order_taken body u)"
  by (simp add: order_taken_def serve_def order_message_def order_frame_def isQueueDestination_def QueuePrefix_def shop_def on_queue_def
      qm_Find_def Queue_Enqueue_def SL_Get_def waiting_at_shop_def queue_send_def SendQueueFrame_def setSubscriptionHeader_def with_sub_def)

lemma waiting_reachable:
  assumes "allowed hello" and "allowed (listen_to shop)"
  shows "\<exists>w k. server_reachable memory_storage quote sample_cfg allowed NewMemoryQueueStorage w \<and> at_rest 0 k w \<and> c_state k = Connected \<and> ready (c_writer k) \<and>
     c_subChannel k = [] \<and> c_subList k = [] \<and> c_subs k = [''1'' \<mapsto> 0] \<and> waiting_at_shop (sw_upper w)"
proof -
  obtain w k where w: "server_reachable memory_storage quote sample_cfg allowed NewMemoryQueueStorage w" "asking_world shop k w"
    using asking_reachable [of allowed, OF assms] by blast
  let ?u = "(sw_upper w)\<lparr>up_qm := [shop \<mapsto> \<lparr>q_destination = shop, q_subs = [0]\<rparr>],
    up_store := (up_store (sw_upper w))(0 := (up_store (sw_upper w) 0)\<lparr>sub_subList := Some (QueueList shop)\<rparr>), up_out := []\<rparr>"
  have "serve memory_storage (SubscribeOp 0) ((sw_upper w)\<lparr>up_out := []\<rparr>) = Ret ?u"
    using w(2)
    by (simp add: serve_def newSubscription_def isQueueDestination_def QueuePrefix_def on_queue_def qm_Find_def shop_def
        newQueue_def Queue_Subscribe_def SL_Add_def asking_world_def newRequestProcessor_def Let_def memory_storage_def
        mem_Dequeue_def lists_get_def NewMemoryQueueStorage_def)
  then have "server_reachable memory_storage quote sample_cfg allowed NewMemoryQueueStorage
      (w\<lparr>sw_pend := (sw_pend w)(0 := []), sw_upper := ?u\<rparr>)"
    using w(2) by (intro flush_request [OF w(1), where r = "SubscribeOp 0"]) (simp_all add: at_rest_def asking_world_def)
  moreover have "at_rest 0 k (w\<lparr>sw_pend := (sw_pend w)(0 := []), sw_upper := ?u\<rparr>)" "waiting_at_shop ?u"
    using w(2) by (simp_all add: asking_world_def at_rest_def waiting_at_shop_def newSubscription_def newRequestProcessor_def
        mem_contents_def lists_get_def NewMemoryQueueStorage_def)
  ultimately show ?thesis using w(2) by (fastforce simp: asking_world_def)
qed

text \<open>The connection has read a message for the queue, which it is about to pass on.\<close>

definition ordering :: "bytes \<Rightarrow> Conn \<Rightarrow> MemoryQueueStorage ServerWorld \<Rightarrow> bool" where
  "ordering body k w \<longleftrightarrow>
     at_rest 0 k (w\<lparr>sw_pend := (sw_pend w)(0 := [])\<rparr>) \<and> sw_pend w 0 = [EnqueueOp (order_message body)] \<and> ready (c_writer k) \<and>
     c_subChannel k = [] \<and> c_subList k = [] \<and> c_subs k = [''1'' \<mapsto> 0] \<and> waiting_at_shop (sw_upper w)"

lemma order_read:
  assumes w: "at_rest 0 k w" "c_state k = Connected" "ready (c_writer k)" "c_subChannel k = []" "c_subList k = []"
    "c_subs k = [''1'' \<mapsto> 0]" "waiting_at_shop (sw_upper w)" and "allowed (order_frame body)"
  shows "\<exists>w1 w2 k. server_step memory_storage quote sample_cfg allowed w w1 \<and> server_step memory_storage quote sample_cfg allowed' w1 w2 \<and>
    ordering body k w2"
proof -
  let ?m = "EnqueueOp (order_message body)" and ?f = "order_frame body"
  have f: "header_ok (Hdr ?f)" "Command ?f = SEND" "Header_Contains (Hdr ?f) Receipt = None"
    "Header_Contains (Hdr ?f) Transaction = None"
    by (simp_all add: order_frame_def)
  have "\<exists>v. processLoop_turn quote sample_cfg (SelRead (Some ?f)) (world_view k w) = Ret (True, v) \<and>
      (\<exists>b. v = (world_view k w)\<lparr>c_timer := b, v_req := [?m]\<rparr>)"
    by (rule turn_read)
       (use w(2) f(2-4) in \<open>auto simp: stateFunc_def numeral_2_eq_2 run_state_send send_request_def order_message_def simp del: run_state.simps\<close>)
  then obtain b where v: "processLoop_turn quote sample_cfg (SelRead (Some ?f)) (world_view k w) =
      Ret (True, (world_view k w)\<lparr>c_timer := b, v_req := [?m]\<rparr>)" (is "_ = Ret (True, ?v)") by blast
  have "ordering body (Conn.truncate ?v) (put_view 0 ?v w)"
    using w by (simp add: ordering_def at_rest_def waiting_at_shop_def)
  with feed_steps [OF w(1) f(1), of allowed quote sample_cfg ?v memory_storage allowed'] assms(8) v show ?thesis by blast
qed

lemma ordering_reachable:
  "\<exists>w k. server_reachable memory_storage quote sample_cfg polite NewMemoryQueueStorage w \<and> ordering body k w"
proof -
  let ?R = "server_reachable memory_storage quote sample_cfg polite NewMemoryQueueStorage"
  obtain w k where w: "?R w" "at_rest 0 k w" "c_state k = Connected" "ready (c_writer k)" "c_subChannel k = []" "c_subList k = []"
    "c_subs k = [''1'' \<mapsto> 0]" "waiting_at_shop (sw_upper w)" using waiting_reachable [OF polite_greeting] by blast
  have "polite (order_frame body)" by (simp add: order_frame_def polite_def)
  from order_read [OF w(2-8), of polite, OF this, of quote polite] w(1) show ?thesis by (meson server_reachable.step)
qed

text \<open>The connection in a step of its cleanup, with its message first on the request channel.\<close>

definition closing :: "bytes \<Rightarrow> ConnPc \<Rightarrow> Request list \<Rightarrow> MemoryQueueStorage ServerWorld \<Rightarrow> bool" where
  "closing body pc rs w \<longleftrightarrow>
     sw_crash w = None \<and> sw_pend w 0 = [] \<and> sw_reqCh w = EnqueueOp (order_message body) # rs \<and> sw_out w = [] \<and>
     waiting_at_shop (sw_upper w) \<and>
     (\<exists>k order. sw_conns w 0 = Some k \<and> c_self k = 0 \<and> c_pc k = pc \<and> c_subChannel k = [] \<and> c_subList k = [] \<and>
        map_range (c_subs k) order \<and> (pc = Cleanup 0 \<longrightarrow> order = [0]))"

lemma sending_reachable:
  "\<exists>w. server_reachable memory_storage quote sample_cfg polite NewMemoryQueueStorage w \<and> closing body (Cleanup 0) [] w"
proof -
  let ?R = "server_reachable memory_storage quote sample_cfg polite NewMemoryQueueStorage"
  let ?m = "EnqueueOp (order_message body)"
  obtain w1 k where w: "?R w1" "ordering body k w1" using ordering_reachable by blast
  then have c1: "sw_crash w1 = None" "sw_pend w1 0 = [?m]" "sw_reqCh w1 = []" "sw_out w1 = []" "sw_conns w1 0 = Some k"
    "c_self k = 0" "c_pc k = InLoop" "c_readChannel k = []" "c_subChannel k = []" "c_subList k = []" "c_subs k = [''1'' \<mapsto> 0]"
    "waiting_at_shop (sw_upper w1)"
    by (simp_all add: ordering_def at_rest_def)
  let ?w2 = "w1\<lparr>sw_pend := (sw_pend w1)(0 := []), sw_reqCh := sw_reqCh w1 @ [?m]\<rparr>"
  have "server_step memory_storage quote sample_cfg polite w1 ?w2"
    using c1 by (intro server_step.post) (simp_all add: requestChannelCapacity_def)
  with w(1) have r2: "?R ?w2" by (rule server_reachable.step)
  let ?k3 = "k\<lparr>c_readClosed := True\<rparr>" and ?w3 = "?w2\<lparr>sw_conns := (sw_conns ?w2)(0 \<mapsto> k\<lparr>c_readClosed := True\<rparr>)\<rparr>"
  have "server_step memory_storage quote sample_cfg polite ?w2 ?w3"
    using c1 by (intro server_step.read_end) simp_all
  with r2 have r3: "?R ?w3" by (rule server_reachable.step)
  obtain b' where p: "loop_prologue (world_view ?k3 ?w3) = (world_view ?k3 ?w3)\<lparr>c_timer := b'\<rparr>" using prologue_timer by blast
  let ?v3 = "(world_view ?k3 ?w3)\<lparr>c_timer := b'\<rparr>"
  have "server_step memory_storage quote sample_cfg polite ?w3 (put_view 0 (if False then ?v3 else ?v3\<lparr>c_pc := Cleanup 0\<rparr>) ?w3)"
    using c1 p
    by (intro server_step.turn [where k = ?k3 and sel = "SelRead None" and k' = ?k3]) (simp_all add: processLoop_turn_def)
  with r3 have r4: "?R (put_view 0 (?v3\<lparr>c_pc := Cleanup 0\<rparr>) ?w3)" using server_reachable.step by fastforce
  have "map_range [''1'' \<mapsto> 0] [0]" by (auto simp: map_range_def intro!: exI [of _ "[''1'']"])
  then have "closing body (Cleanup 0) [] (put_view 0 (?v3\<lparr>c_pc := Cleanup 0\<rparr>) ?w3)"
    using c1 by (auto simp: closing_def waiting_at_shop_def)
  with r4 show ?thesis by blast
qed

text \<open>What one step of the cleanup does when nothing has been handed out.\<close>

definition step_requests :: "nat \<Rightarrow> Request list" where
  "step_requests n = (if n = 0 then [UnsubscribeOp 0] else if n = 4 then [DisconnectedOp 0] else [])"

lemma empty_cleanup_step:
  assumes "c_subChannel k = []" and "c_subList k = []" and "c_self k = 0" and "map_range (c_subs k) order" and "n = 0 \<longrightarrow> order = [0]"
    and "v = cleanup_step order n (world_view k w)"
  shows "c_self v = 0" "c_subChannel v = []" "c_subList v = []" "v_store v = up_store (sw_upper w)"
    "v_req v = step_requests n" "c_pc v = (if n < 6 then Cleanup (Suc n) else Closed)" "\<exists>order'. map_range (c_subs v) order'"
proof -
  have r: "requeue_unacked [] st rs = (st, rs)" for st rs by (subst requeue_unacked.simps) (simp add: SL_Get_def)
  have e: "map_range Map.empty ([] :: sub_ref list)" by (simp add: map_range_def)
  consider "n = 0" | "n = 1" | "n = 2" | "n = 3" | "n = 4" | "n = 5" | "6 \<le> n" by arith
  then have "c_self v = 0 \<and> c_subChannel v = [] \<and> c_subList v = [] \<and> v_store v = up_store (sw_upper w) \<and>
      v_req v = step_requests n \<and> c_pc v = (if n < 6 then Cleanup (Suc n) else Closed) \<and> (\<exists>order'. map_range (c_subs v) order')"
    by cases
       (use assms e in \<open>auto simp: cleanup_step_def cleanup_unsubscribe_eq cleanup_requeue_def r discardWriteChannelFrames_def
         drain_one_def cleanup_disconnected_def send_request_def step_requests_def\<close>)
  then show "c_self v = 0" "c_subChannel v = []" "c_subList v = []" "v_store v = up_store (sw_upper w)"
    "v_req v = step_requests n" "c_pc v = (if n < 6 then Cleanup (Suc n) else Closed)" "\<exists>order'. map_range (c_subs v) order'"
    by simp_all
qed

lemma closing_step:
  assumes "server_reachable memory_storage quote cfg allowed st w" and "closing body (Cleanup n) rs w" and "length rs < 100"
  shows "\<exists>w'. server_reachable memory_storage quote cfg allowed st w' \<and>
    closing body (if n < 6 then Cleanup (Suc n) else Closed) (rs @ step_requests n) w'"
proof -
  from assms(2) obtain k order where k: "sw_conns w 0 = Some k" "c_self k = 0" "c_pc k = Cleanup n" "c_subChannel k = []" "c_subList k = []"
    "map_range (c_subs k) order" "n = 0 \<longrightarrow> order = [0]" by (auto simp: closing_def)
  define v where "v = cleanup_step order n (world_view k w)"
  note v = empty_cleanup_step [OF k(4,5,2,6,7) v_def]
  have "server_step memory_storage quote cfg allowed w (put_view 0 v w)"
    unfolding v_def by (rule server_step.cleanup) (use assms(2) k in \<open>simp_all add: closing_def\<close>)
  with assms(1) have r: "server_reachable memory_storage quote cfg allowed st (put_view 0 v w)" by (rule server_reachable.step)
  show ?thesis
  proof (cases "step_requests n")
    case Nil
    then have "closing body (if n < 6 then Cleanup (Suc n) else Closed) (rs @ step_requests n) (put_view 0 v w)"
      using assms(2) v by (auto simp: closing_def waiting_at_shop_def)
    with r show ?thesis by blast
  next
    case (Cons q qs)
    then have q: "step_requests n = [q]" by (auto simp: step_requests_def split: if_splits)
    let ?w = "(put_view 0 v w)\<lparr>sw_pend := (sw_pend (put_view 0 v w))(0 := []), sw_reqCh := sw_reqCh (put_view 0 v w) @ [q]\<rparr>"
    have "server_step memory_storage quote cfg allowed (put_view 0 v w) ?w"
      using assms(2,3) v(5) q by (intro server_step.post) (simp_all add: closing_def requestChannelCapacity_def)
    with r have "server_reachable memory_storage quote cfg allowed st ?w" by (rule server_reachable.step)
    moreover have "closing body (if n < 6 then Cleanup (Suc n) else Closed) (rs @ step_requests n) ?w"
      using assms(2) v q by (auto simp: closing_def waiting_at_shop_def)
    ultimately show ?thesis by blast
  qed
qed

lemma closed_reachable:
  "\<exists>w. server_reachable memory_storage quote sample_cfg polite NewMemoryQueueStorage w \<and>
     closing body Closed [UnsubscribeOp 0, DisconnectedOp 0] w"
proof -
  let ?R = "server_reachable memory_storage quote sample_cfg polite NewMemoryQueueStorage"
  have "\<exists>w rs. ?R w \<and> closing body (Cleanup n) rs w \<and> rs = concat (map step_requests [0..<n])" if "n \<le> 6" for n
    using that
  proof (induction n)
    case 0
    with sending_reachable show ?case by simp
  next
    case (Suc n)
    then obtain w rs where w: "?R w" "closing body (Cleanup n) rs w" "rs = concat (map step_requests [0..<n])" by auto
    have "length (step_requests i) \<le> 1" for i by (simp add: step_requests_def)
    then have "length rs \<le> n" unfolding w(3) by (induction n) (auto intro: order_trans [OF add_mono])
    with closing_step [OF w(1,2)] Suc.prems w(3) show ?case by simp
  qed
  from this [of 6] obtain w rs where w: "?R w" "closing body (Cleanup 6) rs w" "rs = concat (map step_requests [0..<6])" by auto
  then have rs: "rs = [UnsubscribeOp 0, DisconnectedOp 0]" by (simp add: step_requests_def upt_rec)
  with closing_step [OF w(1,2)] show ?thesis by (simp add: step_requests_def)
qed

text \<open>
  Property C29. A message can be lost when a connection closes. For every body of a message there is a reachable state, with polite clients only and the network
  intact, in which the message has been sent to a queue, the queue is empty, nothing is on its way that would give the message back, and the
  message is held by a subscription in the channel of a connection that has ended; and there it stays, whatever happens later.
\<close>

theorem message_lost_on_close:
  "\<exists>w f. server_reachable memory_storage quote sample_cfg polite NewMemoryQueueStorage w \<and>
     sub_frame (up_store (sw_upper w) 0) = Some f \<and> Command f = MESSAGE \<and> Body f = body \<and>
     mem_contents (up_storage (sw_upper w)) shop = [] \<and> sw_out w = [] \<and>
     sw_reqCh w = [UnsubscribeOp 0, DisconnectedOp 0] \<and> sw_pend w 0 = [] \<and>
     {w'. (server_step memory_storage quote sample_cfg allowed)\<^sup>*\<^sup>* w w'} \<subseteq>
       {w'. \<exists>k. sw_conns w' 0 = Some k \<and> c_pc k = Closed \<and> 0 \<in> set (c_subChannel k)}"
proof -
  let ?R = "server_reachable memory_storage quote sample_cfg polite NewMemoryQueueStorage"
  obtain w where w: "?R w" "closing body Closed [UnsubscribeOp 0, DisconnectedOp 0] w" using closed_reachable by blast
  then obtain k where k: "sw_conns w 0 = Some k" "c_pc k = Closed" "c_subChannel k = []" "sw_crash w = None" "sw_pend w 0 = []"
    "sw_reqCh w = [EnqueueOp (order_message body), UnsubscribeOp 0, DisconnectedOp 0]" "sw_out w = []" "waiting_at_shop (sw_upper w)"
    by (auto simp: closing_def)
  let ?st = "up_store (sw_upper w)" and ?u = "order_taken body (sw_upper w)"
  have "serve memory_storage (EnqueueOp (order_message body)) ((sw_upper w)\<lparr>up_out := []\<rparr>) = Ret ?u"
    using k(8) by (rule serve_order)
  then have "server_step memory_storage quote sample_cfg polite w
      (w\<lparr>sw_reqCh := [UnsubscribeOp 0, DisconnectedOp 0], sw_upper := ?u, sw_out := up_out ?u\<rparr>)" (is "server_step _ _ _ _ _ ?w1")
    using k by (intro server_step.serve) simp_all
  with w(1) have r1: "?R ?w1" by (rule server_reachable.step)
  let ?w2 = "?w1\<lparr>sw_out := [], sw_conns := (sw_conns ?w1)(0 \<mapsto> k\<lparr>c_subChannel := c_subChannel k @ [0]\<rparr>)\<rparr>"
  have "server_step memory_storage quote sample_cfg polite ?w1 ?w2"
    using k by (intro server_step.deliver_sub) (simp_all add: maxPendingWrites_def order_taken_def)
  with r1 have r2: "?R ?w2" by (rule server_reachable.step)
  have "abandoned 0 0 ?w2" using k by (simp add: abandoned_def)
  then have "{w'. (server_step memory_storage quote sample_cfg allowed)\<^sup>*\<^sup>* ?w2 w'} \<subseteq>
      {w'. \<exists>k. sw_conns w' 0 = Some k \<and> c_pc k = Closed \<and> 0 \<in> set (c_subChannel k)}"
    using abandoned_steps by (fastforce simp: abandoned_def)
  with r2 k show ?thesis
    by (intro exI [of _ ?w2] exI [of _ "with_sub ?st 0 (order_message body)"])
       (simp add: with_sub_def order_message_def order_frame_def order_taken_def waiting_at_shop_def)
qed

end
