(* ===== verification/Server_Origin.thy ===== *)
theory Server_Origin
  imports Server_Loss
begin

section \<open>Where the messages of a server come from\<close>

text \<open>
  Here nothing is assumed of the clients: they may send any frames in any order, drop their connections and
  subscribe to anything. The invariant of this theory follows every frame on its way through the server, from the reading
  loop through transactions, requests, queues, topics, subscriptions and channels to the bytes on the wire, and shows that a
  \<open>MESSAGE\<close> is never made up, altered or misdirected.
\<close>

subsection \<open>Messages\<close>

text \<open>The entries that the server itself adds to a message or takes from it; the rest of a frame is its payload.\<close>

definition transit_headers :: "string list" where
  "transit_headers = [Receipt, Transaction, SubscriptionHdr, MessageId, IdHdr, AckHdr]"

definition payload :: "Frame \<Rightarrow> (string \<times> string) list \<times> bytes" where
  "payload f = (filter (\<lambda>(k, v). k \<notin> set transit_headers) (entries (Hdr f)), Body f)"

definition sent :: "(Frame \<Rightarrow> bool) \<Rightarrow> Frame \<Rightarrow> bool" where
  "sent allowed f \<longleftrightarrow> header_ok (Hdr f) \<and> (\<exists>g. allowed g \<and> Command g = SEND \<and> payload g = payload f)"

definition genuine :: "(Frame \<Rightarrow> bool) \<Rightarrow> Frame \<Rightarrow> bool" where
  "genuine allowed f \<longleftrightarrow> Command f = MESSAGE \<and> sent allowed f"

text \<open>The connection has a subscription to the destination of the frame, and the frame names it.\<close>

definition routed :: "sub_store \<Rightarrow> sub_ref \<Rightarrow> conn_ref \<Rightarrow> Frame \<Rightarrow> bool" where
  "routed st n c f \<longleftrightarrow>
     (\<exists>s<n. sub_conn (st s) = c \<and> Header_Contains (Hdr f) Destination = Some (sub_dest (st s)) \<and>
        Header_Contains (Hdr f) SubscriptionHdr = Some (sub_id (st s)))"

definition wire_frame :: "(Frame \<Rightarrow> bool) \<Rightarrow> sub_store \<Rightarrow> sub_ref \<Rightarrow> conn_ref \<Rightarrow> Frame option \<Rightarrow> bool" where
  "wire_frame allowed st n c fo \<longleftrightarrow>
     (case fo of None \<Rightarrow> True | Some f \<Rightarrow> Command f = MESSAGE \<longrightarrow> genuine allowed f \<and> routed st n c f)"

lemma filter_set_first: "\<not> P k \<Longrightarrow> filter (\<lambda>(k, v). P k) (set_first kvs k x) = filter (\<lambda>(k, v). P k) kvs"
  by (induction kvs k x rule: set_first.induct) auto

lemma payload_Set:
  "header_ok (Hdr f) \<Longrightarrow> k \<in> set transit_headers \<Longrightarrow> payload (f\<lparr>Hdr := Header_Set (Hdr f) k x\<rparr>) = payload f"
  using filter_set_first [of "\<lambda>k. k \<notin> set transit_headers" k "entries (Hdr f)" x] by (simp add: payload_def Set_entries)

lemma payload_Del:
  "header_ok (Hdr f) \<Longrightarrow> k \<in> set transit_headers \<Longrightarrow> payload (f\<lparr>Hdr := Header_Del (Hdr f) k\<rparr>) = payload f"
  by (auto simp: payload_def Del_entries intro!: filter_cong)

lemma payload_Command [simp]: "payload (f\<lparr>Command := x\<rparr>) = payload f"
  by (simp add: payload_def)

lemma map_of_filter_keys: "P k \<Longrightarrow> map_of (filter (\<lambda>(k, v). P k) kvs) k = map_of kvs k"
  by (induction kvs) auto

text \<open>So the payload has the destination of the message and all its other entries.\<close>

lemma payload_Contains:
  assumes "payload f = payload g" and "header_ok (Hdr f)" and "header_ok (Hdr g)" and "k \<notin> set transit_headers"
  shows "Header_Contains (Hdr f) k = Header_Contains (Hdr g) k"
  using assms map_of_filter_keys [of "\<lambda>k. k \<notin> set transit_headers" k "entries (Hdr f)"]
    map_of_filter_keys [of "\<lambda>k. k \<notin> set transit_headers" k "entries (Hdr g)"]
  by (simp add: Contains_entries payload_def)

lemma transit [simp]:
  "Receipt \<in> set transit_headers" "Transaction \<in> set transit_headers" "SubscriptionHdr \<in> set transit_headers"
  "MessageId \<in> set transit_headers" "IdHdr \<in> set transit_headers" "AckHdr \<in> set transit_headers"
  "Destination \<notin> set transit_headers"
  by (simp_all add: transit_headers_def)

lemma sent_Set: "sent allowed f \<Longrightarrow> k \<in> set transit_headers \<Longrightarrow> sent allowed (f\<lparr>Hdr := Header_Set (Hdr f) k x\<rparr>)"
  by (auto simp: sent_def payload_Set)

lemma sent_Del: "sent allowed f \<Longrightarrow> k \<in> set transit_headers \<Longrightarrow> sent allowed (f\<lparr>Hdr := Header_Del (Hdr f) k\<rparr>)"
  by (auto simp: sent_def payload_Del)

lemma sent_Command [simp]: "sent allowed (f\<lparr>Command := x\<rparr>) = sent allowed f"
  by (simp add: sent_def)

lemma genuine_ok: "genuine allowed f \<Longrightarrow> header_ok (Hdr f)"
  by (simp add: genuine_def sent_def)

lemma genuine_Set: "genuine allowed f \<Longrightarrow> k \<in> set transit_headers \<Longrightarrow> genuine allowed (f\<lparr>Hdr := Header_Set (Hdr f) k x\<rparr>)"
  by (simp add: genuine_def sent_Set)

lemma genuine_Del: "genuine allowed f \<Longrightarrow> k \<in> set transit_headers \<Longrightarrow> genuine allowed (f\<lparr>Hdr := Header_Del (Hdr f) k\<rparr>)"
  by (simp add: genuine_def sent_Del)

lemma genuine_allocate:
  assumes "genuine allowed f" and "allocateMessageId f sub v = (f', v')"
  shows "genuine allowed f'" "k \<in> {Destination, SubscriptionHdr} \<Longrightarrow> Header_Contains (Hdr f') k = Header_Contains (Hdr f) k"
proof -
  note ok = genuine_ok [OF assms(1)]
  show "genuine allowed f'"
    using assms genuine_Set [OF genuine_Set [OF assms(1), of MessageId], of IdHdr]
      genuine_Set [OF genuine_Set [OF genuine_Set [OF assms(1), of MessageId], of IdHdr], of AckHdr]
      genuine_Del [OF genuine_Set [OF genuine_Set [OF assms(1), of MessageId], of IdHdr], of AckHdr]
    by (auto simp: allocateMessageId_def Let_def genuine_def split: if_splits)
  show "Header_Contains (Hdr f') k = Header_Contains (Hdr f) k" if "k \<in> {Destination, SubscriptionHdr}"
    using assms(2) that ok by (auto simp: allocateMessageId_def Let_def hm.lookup_put hm.lookup_del split: if_splits)
qed

subsection \<open>What is on the wire\<close>

text \<open>The output of a connection is a sequence of whole frames, and of a proper part of one more if the connection has failed.\<close>

definition wrote :: "(Frame option \<Rightarrow> bool) \<Rightarrow> Frame option list \<Rightarrow> bufio_writer \<Rightarrow> bool" where
  "wrote ok fos w \<longleftrightarrow>
     (\<exists>p. w_out w = concat (map frame_bytes fos) @ p \<and>
        (if w_err w = None then p = [] \<and> w_buf w = [] else \<exists>fo x. ok fo \<and> x \<noteq> [] \<and> frame_bytes fo = p @ x))"

definition on_wire :: "(Frame option \<Rightarrow> bool) \<Rightarrow> bufio_writer \<Rightarrow> bool" where
  "on_wire ok w \<longleftrightarrow> (\<exists>fos. list_all ok fos \<and> wrote ok fos w)"

lemma wrote_New: "wrote ok [] (NewWriter room fault)"
  by (simp add: wrote_def NewWriter_def NewWriterSize_def)

lemma wrote_mono: "wrote ok fos w \<Longrightarrow> (\<And>fo. ok fo \<Longrightarrow> ok' fo) \<Longrightarrow> wrote ok' fos w"
  unfolding wrote_def by (cases "w_err w = None") (simp, fastforce)

lemma wire_New: "on_wire ok (NewWriter room fault)"
  unfolding on_wire_def by (rule exI [of _ "[]"]) (simp add: wrote_New)

lemma wire_mono: "on_wire ok w \<Longrightarrow> (\<And>fo. ok fo \<Longrightarrow> ok' fo) \<Longrightarrow> on_wire ok' w"
  unfolding on_wire_def by (meson list.pred_mono_strong wrote_mono)

lemma write_pieces_failed: "w_err w \<noteq> None \<Longrightarrow> snd (write_pieces ps w) = w"
  by (induction ps) (auto simp: bufio_Flush_def bufio_Write_def bufio_Write_loop.simps)

text \<open>A write adds its whole frame, or the connection has failed.\<close>

lemma wrote_Write:
  assumes "wrote ok fos w" and "ok fo" and "Writer_Write fo w = (e, w')"
  shows "wrote ok (if e = None then fos @ [fo] else fos) w'"
proof (cases "w_err w")
  case None
  with assms(1) have w: "w_out w = concat (map frame_bytes fos)" by (auto simp: wrote_def)
  have a: "accepts w w' (frame_bytes fo)" "w_err w' = e" "e = None \<longrightarrow> w_buf w' = []"
    using write_pieces_accepts [OF None, of "frame_pieces fo" e w'] assms(3) by (auto simp: Writer_Write_def frame_bytes_def)
  show ?thesis
  proof (cases e)
    case None
    with a w assms(1) \<open>w_err w = None\<close> show ?thesis by (auto simp: accepts_def wrote_def)
  next
    case (Some err)
    with a assms(1) \<open>w_err w = None\<close> obtain x where x: "x \<noteq> []" "w_out w' @ x = w_out w @ frame_bytes fo"
      by (auto simp: accepts_def wrote_def)
    have "length (w_out w) \<le> length (w_out w')"
      using a(1) Some a(2) by (auto simp: accepts_def room_used_def split: option.splits)
    then obtain p where p: "w_out w' = w_out w @ p" "frame_bytes fo = p @ x"
      using x(2) that by (metis append_eq_append_conv_if append_take_drop_id append_eq_conv_conj)
    then show ?thesis unfolding wrote_def using Some a(2) w assms(2) x(1) by (intro exI [of _ p]) auto
  qed
next
  case (Some err)
  with write_pieces_failed [of w "frame_pieces fo"] assms(3) have w': "w' = w" by (simp add: Writer_Write_def)
  have "e = w_err w"
    using Some assms(3) by (cases "frame_pieces fo") (auto simp: Writer_Write_def bufio_Flush_def bufio_Write_def bufio_Write_loop.simps)
  with Some w' assms(1) show ?thesis by simp
qed

lemma wire_Write:
  assumes "on_wire ok w" and "ok fo" and "Writer_Write fo w = (e, w')"
  shows "on_wire ok w'"
proof -
  from assms(1) obtain fos where "list_all ok fos" "wrote ok fos w" by (auto simp: on_wire_def)
  with wrote_Write [of ok fos w fo e w'] assms(2,3) have "list_all ok (if e = None then fos @ [fo] else fos)"
    "wrote ok (if e = None then fos @ [fo] else fos) w'" by auto
  then show ?thesis unfolding on_wire_def by blast
qed

subsection \<open>The invariant of a connection\<close>

text \<open>What the server knows of a subscription never changes, and references are given out in order.\<close>

definition grows :: "sub_store \<Rightarrow> sub_ref \<Rightarrow> sub_store \<Rightarrow> sub_ref \<Rightarrow> bool" where
  "grows st n st' n' \<longleftrightarrow>
     n \<le> n' \<and> (\<forall>s<n. sub_conn (st' s) = sub_conn (st s) \<and> sub_dest (st' s) = sub_dest (st s) \<and> sub_id (st' s) = sub_id (st s))"

text \<open>A subscription was asked for, and what it carries is a message for it.\<close>

definition store_from :: "(Frame \<Rightarrow> bool) \<Rightarrow> sub_store \<Rightarrow> sub_ref \<Rightarrow> bool" where
  "store_from allowed st n \<longleftrightarrow>
     (\<forall>s f. sub_frame (st s) = Some f \<longrightarrow>
        genuine allowed f \<and> Header_Contains (Hdr f) Destination = Some (sub_dest (st s)) \<and>
        Header_Contains (Hdr f) SubscriptionHdr = Some (sub_id (st s))) \<and>
     (\<forall>s<n. \<exists>g. allowed g \<and> Command g = SUBSCRIBE \<and> Header_Contains (Hdr g) Destination = Some (sub_dest (st s)) \<and>
        Header_Contains (Hdr g) IdHdr = Some (sub_id (st s)))"

fun request_from :: "(Frame \<Rightarrow> bool) \<Rightarrow> sub_ref \<Rightarrow> Request \<Rightarrow> bool" where
  "request_from allowed n (SubscribeOp s) = (s < n)"
| "request_from allowed n (UnsubscribeOp s) = True"
| "request_from allowed n (EnqueueOp f) = genuine allowed f"
| "request_from allowed n (RequeueOp fo) = (case fo of None \<Rightarrow> True | Some f \<Rightarrow> genuine allowed f)"
| "request_from allowed n (ConnectedOp c) = True"
| "request_from allowed n (DisconnectedOp c) = True"

definition tx_from :: "(Frame \<Rightarrow> bool) \<Rightarrow> txStore \<Rightarrow> bool" where
  "tx_from allowed txs \<longleftrightarrow>
     (\<forall>tx l. tx_lookup txs tx = Some l \<longrightarrow> list_all (\<lambda>f. tx_plain f \<and> (Command f = SEND \<longrightarrow> sent allowed f)) l)"

definition conn_from :: "(Frame \<Rightarrow> bool) \<Rightarrow> sub_store \<Rightarrow> sub_ref \<Rightarrow> 'a Conn_scheme \<Rightarrow> bool" where
  "conn_from allowed st n k \<longleftrightarrow>
     tx_from allowed (c_txStore k) \<and>
     list_all (\<lambda>f. genuine allowed f \<and> routed st n (c_self k) f) (c_writeChannel k) \<and>
     (\<forall>s \<in> set (c_subChannel k). s < n \<and> sub_conn (st s) = c_self k) \<and>
     (\<forall>s \<in> set (c_subList k). s < n) \<and>
     list_all (\<lambda>f. allowed f \<and> header_ok (Hdr f)) (c_readChannel k) \<and>
     on_wire (wire_frame allowed st n (c_self k)) (c_writer k)"

definition view_from :: "(Frame \<Rightarrow> bool) \<Rightarrow> View \<Rightarrow> bool" where
  "view_from allowed v \<longleftrightarrow>
     store_from allowed (v_store v) (v_fresh v) \<and> conn_from allowed (v_store v) (v_fresh v) v \<and>
     list_all (request_from allowed (v_fresh v)) (v_req v)"

text \<open>What a turn does: it keeps the invariant, and takes nothing from what the others rely on.\<close>

definition goes :: "(Frame \<Rightarrow> bool) \<Rightarrow> View \<Rightarrow> View \<Rightarrow> bool" where
  "goes allowed v v' \<longleftrightarrow>
     view_from allowed v' \<and> grows (v_store v) (v_fresh v) (v_store v') (v_fresh v') \<and> c_self v' = c_self v"

lemma grows_refl [simp]: "grows st n st n"
  by (simp add: grows_def)

lemma grows_trans: "grows st n st1 n1 \<Longrightarrow> grows st1 n1 st2 n2 \<Longrightarrow> grows st n st2 n2"
  by (auto simp: grows_def)

lemma grows_frame [simp]: "grows st n (st(s := (st s)\<lparr>sub_frame := x\<rparr>)) n" "grows st n (st(s := (st s)\<lparr>sub_subList := y\<rparr>)) n"
  by (simp_all add: grows_def)

lemma routed_grows: "routed st n c f \<Longrightarrow> grows st n st' n' \<Longrightarrow> routed st' n' c f"
  unfolding routed_def grows_def by (metis order.strict_trans2)

lemma wire_frame_grows: "wire_frame allowed st n c fo \<Longrightarrow> grows st n st' n' \<Longrightarrow> wire_frame allowed st' n' c fo"
  by (auto simp: wire_frame_def routed_grows split: option.splits)

lemma conn_from_grows:
  assumes "conn_from allowed st n k" and "grows st n st' n'"
  shows "conn_from allowed st' n' k"
proof -
  have "on_wire (wire_frame allowed st' n' (c_self k)) (c_writer k)"
    by (rule wire_mono [of "wire_frame allowed st n (c_self k)"]) (use assms in \<open>auto simp: conn_from_def wire_frame_grows\<close>)
  with assms routed_grows [OF _ assms(2)] show ?thesis by (fastforce simp: conn_from_def list_all_iff grows_def)
qed

lemma request_from_grows: "request_from allowed n r \<Longrightarrow> n \<le> n' \<Longrightarrow> request_from allowed n' r"
  by (cases r) auto

lemma requests_from_grows:
  "list_all (request_from allowed n) rs \<Longrightarrow> n \<le> n' \<Longrightarrow> list_all (request_from allowed n') rs"
  by (auto simp: list_all_iff request_from_grows)

lemma goes_refl: "view_from allowed v \<Longrightarrow> goes allowed v v"
  by (simp add: goes_def)

lemma goes_trans: "goes allowed v1 v2 \<Longrightarrow> goes allowed v2 v3 \<Longrightarrow> goes allowed v1 v3"
  by (auto simp: goes_def intro: grows_trans)

lemma goes_view: "goes allowed v v' \<Longrightarrow> view_from allowed v'"
  by (simp add: goes_def)

lemma view_from_upds [simp]:
  "view_from allowed (v\<lparr>c_timer := b\<rparr>) = view_from allowed v" "view_from allowed (v\<lparr>c_lastMsgId := i\<rparr>) = view_from allowed v"
  "view_from allowed (v\<lparr>c_state := x\<rparr>) = view_from allowed v" "view_from allowed (v\<lparr>c_version := ver\<rparr>) = view_from allowed v"
  "view_from allowed (v\<lparr>c_validator := vd\<rparr>) = view_from allowed v" "view_from allowed (v\<lparr>c_writeTimeout := d\<rparr>) = view_from allowed v"
  "view_from allowed (v\<lparr>c_subs := m\<rparr>) = view_from allowed v" "view_from allowed (v\<lparr>c_pc := pc\<rparr>) = view_from allowed v"
  "view_from allowed (v\<lparr>c_rwClosed := b\<rparr>) = view_from allowed v"
  by (simp_all add: view_from_def conn_from_def)

lemma goes_upds [simp]:
  "goes allowed v (v'\<lparr>c_timer := b\<rparr>) = goes allowed v v'" "goes allowed v (v'\<lparr>c_lastMsgId := i\<rparr>) = goes allowed v v'"
  "goes allowed v (v'\<lparr>c_state := x\<rparr>) = goes allowed v v'" "goes allowed v (v'\<lparr>c_version := ver\<rparr>) = goes allowed v v'"
  "goes allowed v (v'\<lparr>c_validator := vd\<rparr>) = goes allowed v v'" "goes allowed v (v'\<lparr>c_writeTimeout := d\<rparr>) = goes allowed v v'"
  "goes allowed v (v'\<lparr>c_subs := m\<rparr>) = goes allowed v v'" "goes allowed v (v'\<lparr>c_pc := pc\<rparr>) = goes allowed v v'"
  "goes allowed v (v'\<lparr>c_rwClosed := b\<rparr>) = goes allowed v v'" "goes allowed (v\<lparr>c_timer := b\<rparr>) v' = goes allowed v v'"
  by (simp_all add: goes_def)

lemma goes_request:
  "goes allowed v v' \<Longrightarrow> request_from allowed (v_fresh v') r \<Longrightarrow> goes allowed v (send_request r v')"
  unfolding goes_def by (elim conjE) (simp add: view_from_def conn_from_def send_request_def)

lemma goes_put: "goes allowed v v' \<Longrightarrow> tx_from allowed txs \<Longrightarrow> goes allowed v (put_tx txs v')"
  unfolding goes_def by (elim conjE) (simp add: view_from_def conn_from_def put_tx_def)

lemma goes_write:
  assumes "goes allowed v v'" and "wire_frame allowed (v_store v') (v_fresh v') (c_self v') fo" and "sendImmediately fo v' = (err, v'')"
  shows "goes allowed v v''"
proof -
  obtain e w where w: "Writer_Write fo (c_writer v') = (e, w)" by fastforce
  have "on_wire (wire_frame allowed (v_store v') (v_fresh v') (c_self v')) (c_writer v')"
    using goes_view [OF assms(1)] by (simp add: view_from_def conn_from_def)
  then have "on_wire (wire_frame allowed (v_store v') (v_fresh v') (c_self v')) w"
    by (rule wire_Write [OF _ _ w]) (rule assms(2))
  with assms(1,3) w show ?thesis
    unfolding goes_def by (elim conjE) (auto simp: sendImmediately_def view_from_def conn_from_def)
qed

text \<open>Frames of the server itself are not messages.\<close>

lemma wire_frame_other: "Command f \<noteq> MESSAGE \<Longrightarrow> wire_frame allowed st n c (Some f)" "wire_frame allowed st n c None"
  by (simp_all add: wire_frame_def)

subsection \<open>Handlers\<close>

lemma receipt_goes:
  assumes "view_from allowed v" and "sendReceiptImmediately f v = (err, f', v')" and "header_ok (Hdr f)"
  shows "goes allowed v v'" "header_ok (Hdr f')" "Command f' = Command f" "Header_Contains (Hdr f') Receipt = None"
    "sent allowed f \<Longrightarrow> sent allowed f'"
proof -
  note r = sendReceipt_Contains [OF assms(2,3)] sendReceipt_frame [OF assms(2)]
  show "header_ok (Hdr f')" "Command f' = Command f" "Header_Contains (Hdr f') Receipt = None" using r by auto
  show "sent allowed f'" if "sent allowed f" using that r by (auto intro: sent_Del)
  have "goes allowed v u" if "sendImmediately (Some (mk_frame RECEIPT [(ReceiptId, x)])) v = (e, u)" for x e u
    by (rule goes_write [OF goes_refl [OF assms(1)] _ that]) (simp add: wire_frame_other)
  with assms(1,2) show "goes allowed v v'"
    by (auto simp: sendReceiptImmediately_def Let_def goes_refl split: option.splits prod.splits)
qed

lemma tx_from_plain: "tx_from allowed txs \<Longrightarrow> tx_plain_inv txs"
  by (fastforce simp: tx_from_def tx_plain_inv_def list_all_iff)

lemma tx_from_upd:
  "tx_from allowed txs \<Longrightarrow> tx_lookup txs' = (tx_lookup txs)(tx := lo) \<Longrightarrow>
     (\<And>l. lo = Some l \<Longrightarrow> list_all (\<lambda>f. tx_plain f \<and> (Command f = SEND \<longrightarrow> sent allowed f)) l) \<Longrightarrow> tx_from allowed txs'"
  by (auto simp: tx_from_def split: if_splits)

lemma tx_from_Begin: "tx_from allowed txs \<Longrightarrow> tx_Begin tx txs = (err, txs') \<Longrightarrow> tx_from allowed txs'"
  by (drule tx_Begin_lookup) (auto simp: tx_from_def split: if_splits)

lemma tx_from_Abort: "tx_from allowed txs \<Longrightarrow> tx_Abort tx txs = (err, txs') \<Longrightarrow> tx_from allowed txs'"
  by (drule tx_Abort_lookup) (auto intro: tx_from_upd [of allowed txs _ tx None])

lemma view_from_tx: "view_from allowed v \<Longrightarrow> tx_from allowed (c_txStore v)"
  by (simp add: view_from_def conn_from_def)

lemma store_in_tx_goes:
  assumes "goes allowed v u" and "header_ok (Hdr f)" and "Command f \<in> {SEND, ACK, NACK}"
    and "Header_Contains (Hdr f) Receipt = None" and "Command f = SEND \<Longrightarrow> sent allowed f" and "store_in_tx tx f u = (err, f', v')"
  shows "goes allowed v v'"
proof -
  obtain e txs where a: "tx_Add tx f (c_txStore u) = (e, txs)" by fastforce
  let ?f = "f\<lparr>Hdr := Header_Del (Hdr f) Transaction\<rparr>"
  have u: "tx_from allowed (c_txStore u)" by (rule view_from_tx [OF goes_view [OF assms(1)]])
  have f: "tx_plain ?f \<and> (Command ?f = SEND \<longrightarrow> sent allowed ?f)"
    using assms(2-5) by (auto simp: tx_plain_def tx_frame_ok_def hm.lookup_del sent_Del)
  have "tx_from allowed txs"
    using tx_Add_lookup [OF a] u
  proof (elim disjE exE conjE)
    fix l assume l: "tx_lookup (c_txStore u) tx = Some l" "tx_lookup txs = (tx_lookup (c_txStore u))(tx \<mapsto> l @ [?f])"
    show ?thesis by (rule tx_from_upd [OF u l(2)]) (use u l(1) f in \<open>auto simp: tx_from_def\<close>)
  qed simp
  moreover have "v' = put_tx txs u" using a assms(6) by (auto simp: store_in_tx_def split: option.splits)
  ultimately show ?thesis using goes_put [OF assms(1)] by simp
qed

lemma handleSend_goes:
  assumes "view_from allowed v" and "header_ok (Hdr f)" and "Command f = SEND" and "sent allowed f" and "handleSend f v = (err, f', v')"
  shows "goes allowed v v'"
proof -
  obtain e g u where r: "sendReceiptImmediately f v = (e, g, u)" using prod_cases3 by blast
  note g = receipt_goes [OF assms(1) r assms(2)]
  have "goes allowed v (send_request (EnqueueOp (g\<lparr>Command := MESSAGE\<rparr>)) u)"
    using g(1,5) assms(4) by (intro goes_request) (simp_all add: genuine_def)
  moreover have "goes allowed v v'" if "store_in_tx tx g u = (err, f', v')" for tx
    by (rule store_in_tx_goes [OF g(1,2) _ g(4) _ that]) (use g(3,5) assms(3,4) in auto)
  ultimately show ?thesis
    using assms(5) r g(1) by (auto simp: handleSend_def Let_def split: option.splits)
qed

text \<open>Acknowledgements: what a callback keeps holds after the walk over the list.\<close>

lemma SL_Ack_invariant:
  assumes "\<And>s w. P w \<Longrightarrow> Q s \<Longrightarrow> P (callback s w)"
  shows "SL_Ack m callback l w = Ret (l', w') \<Longrightarrow> P w \<Longrightarrow> \<forall>s \<in> set l. Q s \<Longrightarrow> P w' \<and> set l' \<subseteq> set l"
proof (induction l arbitrary: w l' w')
  case Nil
  then show ?case by simp
next
  case (Cons e l)
  from Cons.prems(1) consider
      "SL_Ack m callback l (callback e w) = Ret (l', w')" | r where "SL_Ack m callback l w = Ret (r, w')" "l' = e # r"
    by (auto split: go.splits if_splits prod.splits)
  then show ?case
  proof cases
    case 1
    from Cons.IH [OF 1] Cons.prems assms show ?thesis by auto
  next
    case 2
    from Cons.IH [OF 2(1)] 2(2) Cons.prems show ?thesis by auto
  qed
qed

lemma SL_Nack_invariant:
  assumes "\<And>s w. P w \<Longrightarrow> Q s \<Longrightarrow> P (callback s w)"
  shows "SL_Nack m callback l w = (l', w') \<Longrightarrow> P w \<Longrightarrow> \<forall>s \<in> set l. Q s \<Longrightarrow> P w' \<and> set l' \<subseteq> set l"
proof (induction l arbitrary: w l' w')
  case Nil
  then show ?case by simp
next
  case (Cons e l)
  show ?case
  proof (cases "IsNackedBy (fst w e) m")
    case True
    with Cons.IH [of "callback e w"] Cons.prems assms show ?thesis by auto
  next
    case False
    with Cons.IH [of w] Cons.prems show ?thesis by (auto split: prod.splits)
  qed
qed

definition acking :: "(Frame \<Rightarrow> bool) \<Rightarrow> sub_store \<Rightarrow> sub_ref \<Rightarrow> sub_store \<times> Request list \<Rightarrow> bool" where
  "acking allowed st n w \<longleftrightarrow>
     store_from allowed (fst w) n \<and> grows st n (fst w) n \<and> list_all (request_from allowed n) (snd w)"

lemma store_from_clear: "store_from allowed st n \<Longrightarrow> store_from allowed (st(s := (st s)\<lparr>sub_frame := None\<rparr>)) n"
  by (simp add: store_from_def)

lemma store_from_list: "store_from allowed st n \<Longrightarrow> store_from allowed (st(s := (st s)\<lparr>sub_subList := x\<rparr>)) n"
  by (simp add: store_from_def)

lemma store_from_frame: "store_from allowed st n \<Longrightarrow> request_from allowed m (RequeueOp (sub_frame (st s)))"
  by (auto simp: store_from_def split: option.splits)

lemma closures_acking:
  "acking allowed st n w \<Longrightarrow> s < n \<Longrightarrow> acking allowed st n (ack_closure s w)"
  "acking allowed st n w \<Longrightarrow> s < n \<Longrightarrow> acking allowed st n (nack_closure s w)"
  using grows_trans [OF _ grows_frame(1)] store_from_frame
  by (auto simp: acking_def ack_closure_def nack_closure_def store_from_clear simp del: request_from.simps(4))

lemma acked_goes:
  assumes "goes allowed v u" and "acking allowed (v_store u) (v_fresh u) (st, rs)" and "set l \<subseteq> set (c_subList u)"
  shows "goes allowed v (u\<lparr>c_subList := l, v_store := st, v_req := rs\<rparr>)"
proof -
  have g: "grows (v_store u) (v_fresh u) st (v_fresh u)" using assms(2) by (simp add: acking_def)
  have "conn_from allowed st (v_fresh u) u"
    by (rule conn_from_grows [OF _ g]) (use goes_view [OF assms(1)] in \<open>simp add: view_from_def\<close>)
  with assms g show ?thesis
    unfolding goes_def by (elim conjE) (auto simp: view_from_def conn_from_def acking_def intro: grows_trans)
qed

lemma handleAck_goes:
  assumes "view_from allowed v" and "header_ok (Hdr f)" and "Command f = ACK" and "handleAck f v = Ret (err, f', v')"
  shows "goes allowed v v'"
proof -
  obtain e g u where r: "sendReceiptImmediately f v = (e, g, u)" using prod_cases3 by blast
  note g = receipt_goes [OF assms(1) r assms(2)]
  have "goes allowed v v'" if "store_in_tx tx g u = (err, f', v')" for tx
    by (rule store_in_tx_goes [OF g(1,2) _ g(4) _ that]) (use g(3) assms(3) in auto)
  moreover have "goes allowed v (u\<lparr>c_subList := l, v_store := st, v_req := rs\<rparr>)"
    if "SL_Ack m ack_closure (c_subList u) (v_store u, v_req u) = Ret (l, st, rs)" for m l st rs
    using SL_Ack_invariant [where P = "acking allowed (v_store u) (v_fresh u)" and Q = "\<lambda>s. s < v_fresh u", OF closures_acking(1) that]
      goes_view [OF g(1)]
    by (intro acked_goes [OF g(1)]) (auto simp: acking_def view_from_def conn_from_def)
  ultimately show ?thesis
    using assms(1,4) r g(1) goes_refl
    by (auto simp: handleAck_def go_bind_eq_Ret split: option.splits sum.splits prod.splits)
qed

lemma handleNack_goes:
  assumes "view_from allowed v" and "header_ok (Hdr f)" and "Command f = NACK" and "handleNack f v = (err, f', v')"
  shows "goes allowed v v'"
proof -
  obtain e g u where r: "sendReceiptImmediately f v = (e, g, u)" using prod_cases3 by blast
  note g = receipt_goes [OF assms(1) r assms(2)]
  have "goes allowed v v'" if "store_in_tx tx g u = (err, f', v')" for tx
    by (rule store_in_tx_goes [OF g(1,2) _ g(4) _ that]) (use g(3) assms(3) in auto)
  moreover have "goes allowed v (u\<lparr>c_subList := l, v_store := st, v_req := rs\<rparr>)"
    if "SL_Nack m nack_closure (c_subList u) (v_store u, v_req u) = (l, st, rs)" for m l st rs
    using SL_Nack_invariant [where P = "acking allowed (v_store u) (v_fresh u)" and Q = "\<lambda>s. s < v_fresh u", OF closures_acking(2) that]
      goes_view [OF g(1)]
    by (intro acked_goes [OF g(1)]) (auto simp: acking_def view_from_def conn_from_def)
  ultimately show ?thesis
    using assms(1,4) r g(1) goes_refl
    by (auto simp: handleNack_def split: option.splits sum.splits prod.splits)
qed

text \<open>A commit hands the stored frames to the same handlers.\<close>

lemma connected_plain_goes:
  assumes "view_from allowed v" and "tx_plain f" and "Command f = SEND \<Longrightarrow> sent allowed f"
    and "connected g f v = Ret (err, f', v')"
  shows "goes allowed v v'"
proof -
  from assms(2) have ok: "header_ok (Hdr f)" and "Command f = SEND \<or> Command f = ACK \<or> Command f = NACK"
    by (auto simp: tx_plain_def tx_frame_ok_def)
  then show ?thesis
    using assms(4) handleSend_goes [OF assms(1) ok _ assms(3)] handleAck_goes [OF assms(1) ok] handleNack_goes [OF assms(1) ok]
    by (auto simp: connected_def)
qed

lemma connecting_goes:
  assumes "view_from allowed v" and "connecting cfg f v = (err, f', v')"
  shows "goes allowed v v'"
proof (cases "connect_ok cfg f")
  case True
  obtain e u where u: "sendImmediately (Some (connected_frame cfg f)) v = (e, u)" by fastforce
  have "goes allowed v u"
    by (rule goes_write [OF goes_refl [OF assms(1)] _ u]) (simp add: wire_frame_other connected_frame_def split: prod.split)
  then have "goes allowed v (send_request (ConnectedOp (c_self v)) u)" by (rule goes_request) simp
  moreover obtain w where "connecting cfg f v = (None, f, v\<lparr>c_version := fst (determineVersion f), c_validator := Some validatorNull,
      c_writeTimeout := negotiated cfg (fst (snd (getHeartBeat f))) * Millisecond, c_writer := w,
      c_state := Connected, v_req := v_req v @ [ConnectedOp (c_self v)]\<rparr>)" "u = v\<lparr>c_writer := w\<rparr>"
    using u by (rule_tac connecting_accepts [OF True, of v]) (auto simp: sendImmediately_def split: prod.splits)
  ultimately show ?thesis
    using assms(2) by (auto simp: goes_def view_from_def conn_from_def send_request_def)
next
  case False
  with assms show ?thesis by (rule_tac connecting_rejects [OF False, of v]) (auto simp: goes_refl)
qed

lemma plain_goes:
  assumes "view_from allowed v" and "tx_plain f" and "Command f = SEND \<Longrightarrow> sent allowed f"
    and "commit_func (run_state (Suc n) cfg) f v = Ret (err, v')"
  shows "goes allowed v v'"
  using assms(4) connected_plain_goes [OF assms(1-3)] connecting_goes [OF assms(1)]
  by (auto simp: commit_func_def go_bind_eq_Ret split: ConnState.splits)

lemma run_frames_goes:
  "view_from allowed v \<Longrightarrow> list_all (\<lambda>f. tx_plain f \<and> (Command f = SEND \<longrightarrow> sent allowed f)) l \<Longrightarrow>
   run_frames (commit_func (run_state (Suc n) cfg)) l v = Ret (err, rest, v') \<Longrightarrow> goes allowed v v' \<and> set rest \<subseteq> set l"
proof (induction l arbitrary: v)
  case Nil
  then show ?case by (simp add: goes_refl)
next
  case (Cons f l)
  then obtain e u where s: "commit_func (run_state (Suc n) cfg) f v = Ret (e, u)"
    by (auto simp del: run_state.simps split: go.splits prod.splits)
  have u: "goes allowed v u" by (rule plain_goes [OF Cons.prems(1) _ _ s]) (use Cons.prems(2) in auto)
  show ?case
  proof (cases e)
    case None
    with Cons.prems s have "goes allowed u v' \<and> set rest \<subseteq> set l"
      by (intro Cons.IH goes_view [OF u]) (simp_all del: run_state.simps)
    with goes_trans [OF u] show ?thesis by auto
  next
    case (Some x)
    with Cons.prems s u show ?thesis by (auto simp del: run_state.simps)
  qed
qed

lemma handleCommit_goes:
  assumes "view_from allowed v" and "header_ok (Hdr f)" and "handleCommit (run_state (Suc 0) cfg) f v = Ret (err, f', v')"
  shows "goes allowed v v'"
proof -
  obtain e g u where r: "sendReceiptImmediately f v = (e, g, u)" using prod_cases3 by blast
  note g = receipt_goes [OF assms(1) r assms(2)]
  have tx: "tx_from allowed (c_txStore u)" by (rule view_from_tx [OF goes_view [OF g(1)]])
  have "goes allowed v v''" if c: "tx_Commit c_txStore put_tx tx (commit_func (run_state (Suc 0) cfg)) u = Ret (e', v'')" for tx e' v''
  proof (cases "tx_lookup (c_txStore u) tx")
    case None
    with c g(1) show ?thesis by (simp add: tx_Commit_def)
  next
    case (Some l)
    then have l: "list_all (\<lambda>f. tx_plain f \<and> (Command f = SEND \<longrightarrow> sent allowed f)) l" using tx by (simp add: tx_from_def)
    from c conn_tx.commit_run [OF tx_plain_tx_inv [OF tx_from_plain [OF tx]] Some, of 0 cfg] obtain rest u'
      where run: "run_frames (commit_func (run_state (Suc 0) cfg)) l u = Ret (e', rest, u')"
        and v'': "v'' = put_tx (tx_assign tx (case e' of None \<Rightarrow> None | Some x \<Rightarrow> Some rest) (c_txStore u)) u'"
      by (auto simp del: run_state.simps split: go.splits prod.splits option.splits)
    have u': "goes allowed v u'" "set rest \<subseteq> set l"
      using run_frames_goes [OF goes_view [OF g(1)] l run] goes_trans [OF g(1)] by auto
    have "tx_from allowed (tx_assign tx (case e' of None \<Rightarrow> None | Some x \<Rightarrow> Some rest) (c_txStore u))"
      by (rule tx_from_upd [OF tx]) (use Some l u'(2) in \<open>auto simp: list_all_iff split: option.splits\<close>)
    with u'(1) show ?thesis unfolding v'' by (rule goes_put)
  qed
  then show ?thesis
    using assms(1,3) r g(1) goes_refl
    by (auto simp: handleCommit_def go_bind_eq_Ret simp del: run_state.simps split: option.splits)
qed

lemma handleSubscribe_goes:
  assumes "view_from allowed v" and "allowed f" and "Command f = SUBSCRIBE" and "handleSubscribe f v = (err, f', v')"
  shows "goes allowed v v'"
proof (cases "Header_Contains (Hdr f) IdHdr = None \<or> Header_Contains (Hdr f) Destination = None \<or>
    c_subs v (Header_Get (Hdr f) IdHdr) \<noteq> None")
  case True
  with assms(1,4) show ?thesis
    by (auto simp: handleSubscribe_def Let_def Header_Get_def goes_refl split: option.splits)
next
  case False
  then obtain i dest where f: "Header_Contains (Hdr f) IdHdr = Some i" "Header_Contains (Hdr f) Destination = Some dest"
    "c_subs v i = None" by (auto simp: Header_Get_def)
  let ?ack = "case Header_Contains (Hdr f) AckHdr of Some a \<Rightarrow> a | None \<Rightarrow> AckAuto"
  let ?st = "(v_store v)(v_fresh v := newSubscription (c_self v) dest i ?ack)"
  have v': "v' = send_request (SubscribeOp (v_fresh v))
      (v\<lparr>v_fresh := Suc (v_fresh v), v_store := ?st, c_subs := (c_subs v)(i \<mapsto> v_fresh v)\<rparr>)"
    using f assms(4) by (auto simp: handleSubscribe_def Let_def simp del: fun_upd_apply)
  have g: "grows (v_store v) (v_fresh v) ?st (Suc (v_fresh v))" by (simp add: grows_def)
  have "conn_from allowed ?st (Suc (v_fresh v)) v"
    by (rule conn_from_grows [OF _ g]) (use assms(1) in \<open>simp add: view_from_def\<close>)
  moreover have "store_from allowed ?st (Suc (v_fresh v))"
    using assms(1-3) f(1,2) by (auto simp: view_from_def store_from_def newSubscription_def less_Suc_eq)
  moreover have "list_all (request_from allowed (Suc (v_fresh v))) (v_req v)"
    using assms(1) requests_from_grows [of allowed "v_fresh v"] by (simp add: view_from_def)
  ultimately have "goes allowed v (v\<lparr>v_fresh := Suc (v_fresh v), v_store := ?st, c_subs := (c_subs v)(i \<mapsto> v_fresh v)\<rparr>)"
    using g by (simp add: goes_def view_from_def conn_from_def)
  then show ?thesis unfolding v' by (rule goes_request) simp
qed

lemma stateFunc_goes:
  assumes v: "view_from allowed v" and f: "allowed f" "header_ok (Hdr f)" and r: "stateFunc cfg f v = Ret (err, f', v')"
  shows "goes allowed v v'"
proof (cases "c_state v")
  case Connecting
  with r connecting_goes [OF v] show ?thesis by (auto simp: connecting_state)
next
  case Connected
  have "goes allowed v v'" if "handleDisconnect f v = (err, f', v')"
    using that receipt_goes(1) [OF v _ f(2)] by (auto simp: handleDisconnect_def split: prod.splits)
  moreover have "goes allowed v v'" if "handleBegin f v = (err, f', v')"
    using that receipt_goes(1) [OF v _ f(2)] goes_refl [OF v] tx_from_Begin [OF view_from_tx [OF goes_view]]
    by (fastforce simp: handleBegin_def intro!: goes_put split: option.splits prod.splits)
  moreover have "goes allowed v v'" if "handleAbort f v = (err, f', v')"
    using that receipt_goes(1) [OF v _ f(2)] goes_refl [OF v] tx_from_Abort [OF view_from_tx [OF goes_view]]
    by (fastforce simp: handleAbort_def intro!: goes_put split: option.splits prod.splits)
  moreover have "goes allowed v v'" if "handleUnsubscribe f v = (err, f', v')"
    using that goes_refl [OF v] by (auto simp: handleUnsubscribe_def intro!: goes_request split: option.splits)
  moreover have "sent allowed f" if "Command f = SEND" using f that by (auto simp: sent_def)
  ultimately show ?thesis
    using r handleCommit_goes [OF v f(2)] handleSend_goes [OF v f(2)] handleSubscribe_goes [OF v f(1)]
      handleAck_goes [OF v f(2)] handleNack_goes [OF v f(2)] goes_refl [OF v]
    by (auto simp: stateFunc_connected [OF Connected] connected_def simp del: run_state.simps split: if_splits)
qed

subsection \<open>Turns of the loop\<close>

lemma goes_store:
  assumes "goes allowed v u" and "store_from allowed st (v_fresh u)" and "grows (v_store u) (v_fresh u) st (v_fresh u)"
  shows "goes allowed v (u\<lparr>v_store := st\<rparr>)"
proof -
  have "goes allowed v (u\<lparr>c_subList := c_subList u, v_store := st, v_req := v_req u\<rparr>)"
    by (rule acked_goes [OF assms(1)]) (use assms(2,3) goes_view [OF assms(1)] in \<open>auto simp: acking_def view_from_def\<close>)
  then show ?thesis by simp
qed

lemma sendError_goes:
  assumes "goes allowed v u"
  shows "goes allowed v (sendErrorImmediately quote err fo u)"
proof -
  let ?e = "mk_frame ERROR [(MessageHdr, Error_text quote err)]"
  have w: "goes allowed v (snd (sendImmediately (Some f) u))" if "Command f = ERROR" for f
    by (rule goes_write [OF assms wire_frame_other(1) [of f] prod.collapse [symmetric]]) (use that in auto)
  from w [of ?e] w [of "?e\<lparr>Hdr := h\<rparr>" for h] show ?thesis by (auto simp: sendErrorImmediately_def Let_def split: option.splits)
qed

lemma on_read_goes:
  assumes "view_from allowed v" and "allowed f" and "header_ok (Hdr f)" and "on_read quote cfg f v = Ret (b, v')"
  shows "goes allowed v v'"
  using assms(4) stateFunc_goes [OF assms(1-3), of cfg] sendError_goes
  by (fastforce simp: on_read_state go_bind_eq_Ret split: option.splits)

lemma on_write_goes:
  assumes "view_from allowed v" and "genuine allowed f" and "routed (v_store v) (v_fresh v) (c_self v) f"
  shows "goes allowed v (snd (on_write f v))"
proof -
  obtain f' v1 where a: "allocateMessageId f None (v\<lparr>c_timer := False\<rparr>) = (f', v1)" by fastforce
  obtain n where v1: "v1 = v\<lparr>c_timer := False, c_lastMsgId := n\<rparr>"
    using allocateMessageId_view [of f None "v\<lparr>c_timer := False\<rparr>"] a by auto
  obtain err v2 where w: "sendImmediately (Some f') v1 = (err, v2)" by fastforce
  have "wire_frame allowed (v_store v1) (v_fresh v1) (c_self v1) (Some f')"
    using genuine_allocate [OF assms(2) a] assms(3) by (simp add: v1 wire_frame_def routed_def)
  then have "goes allowed v v2" by (rule_tac goes_write [OF _ _ w]) (simp_all add: v1 goes_refl assms(1))
  with a w show ?thesis by (simp add: on_write_def)
qed

lemma store_from_put:
  assumes "store_from allowed st n" and "genuine allowed f" and "Header_Contains (Hdr f) Destination = Some (sub_dest (st s))"
    and "Header_Contains (Hdr f) SubscriptionHdr = Some (sub_id (st s))"
  shows "store_from allowed (st(s := (st s)\<lparr>sub_frame := Some f\<rparr>)) n"
  using assms by (simp add: store_from_def)

lemma on_sub_goes:
  assumes v: "view_from allowed v" and s: "s < v_fresh v" "sub_conn (v_store v s) = c_self v" and r: "on_sub s v = Ret (b, v')"
  shows "goes allowed v v'"
proof (cases "c_subs v (sub_id (v_store v s))")
  case None
  have "request_from allowed (v_fresh v) (RequeueOp (sub_frame (v_store v s)))"
    using v store_from_frame [of allowed "v_store v" "v_fresh v"] by (simp add: view_from_def)
  then have "goes allowed v (send_request (RequeueOp (sub_frame (v_store v s))) (v\<lparr>c_timer := False\<rparr>))"
    by (intro goes_request) (simp_all add: v goes_refl)
  with None r show ?thesis by (simp add: on_sub_def)
next
  case (Some x)
  let ?sub = "v_store v s"
  have st: "store_from allowed (v_store v) (v_fresh v)" using v by (simp add: view_from_def)
  from Some r obtain f where f: "sub_frame ?sub = Some f" by (auto simp: on_sub_def Let_def split: option.splits)
  with st have g: "genuine allowed f" "Header_Contains (Hdr f) Destination = Some (sub_dest ?sub)"
    "Header_Contains (Hdr f) SubscriptionHdr = Some (sub_id ?sub)" by (auto simp: store_from_def)
  obtain f' v1 where a: "allocateMessageId f (Some ?sub) (v\<lparr>c_timer := False\<rparr>) = (f', v1)" by fastforce
  obtain n where v1: "v1 = v\<lparr>c_timer := False, c_lastMsgId := n\<rparr>"
    using allocateMessageId_view [of f "Some ?sub" "v\<lparr>c_timer := False\<rparr>"] a by auto
  note g' = genuine_allocate [OF g(1) a]
  let ?st = "(v_store v)(s := ?sub\<lparr>sub_frame := Some f'\<rparr>)"
  have st': "store_from allowed ?st (v_fresh v)" using store_from_put [OF st g'(1)] g' g(2,3) by simp
  have v2: "goes allowed v (v1\<lparr>v_store := ?st\<rparr>)"
    by (rule goes_store) (simp_all add: v1 v goes_refl st' del: fun_upd_apply)
  obtain err v3 where w: "sendImmediately (Some f') (v1\<lparr>v_store := ?st\<rparr>) = (err, v3)" by fastforce
  have "routed ?st (v_fresh v) (c_self v) f'"
    unfolding routed_def by (rule exI [of _ s]) (use s g' g(2,3) in simp)
  then have v3: "goes allowed v v3"
    by (rule_tac goes_write [OF v2 _ w]) (simp add: v1 wire_frame_def g'(1))
  obtain wr where v3': "v3 = v1\<lparr>v_store := ?st, c_writer := wr\<rparr>" using sendImmediately_frame [OF w] by blast
  have clear: "goes allowed v (v3\<lparr>v_store := (v_store v3)(s := ?sub\<lparr>sub_frame := None\<rparr>)\<rparr>)"
    by (rule goes_store [OF v3]) (use st in \<open>simp_all add: v3' v1 store_from_clear grows_def del: fun_upd_apply\<close>, simp)
  have "goes allowed v (v3\<lparr>c_subList := l, v_store := st2\<rparr>)"
    if "SL_Add (ConnList (c_self v3)) s (c_subList v3) (v_store v3) = Ret (l, st2)" for l st2
  proof -
    from that have "l = c_subList v3 @ [s]" "st2 = (v_store v3)(s := (v_store v3 s)\<lparr>sub_subList := Some (ConnList (c_self v3))\<rparr>)"
      by (auto simp: SL_Add_def split: if_splits)
    moreover have "goes allowed v (v3\<lparr>v_store := (v_store v3)(s := (v_store v3 s)\<lparr>sub_subList := Some (ConnList (c_self v3))\<rparr>)\<rparr>)"
      by (rule goes_store [OF v3]) (use goes_view [OF v3] in \<open>simp_all add: store_from_list view_from_def del: fun_upd_apply\<close>)
    moreover have "s < v_fresh v3" using s(1) by (simp add: v3' v1)
    ultimately show ?thesis by (auto simp: goes_def view_from_def conn_from_def)
  qed
  moreover have "goes allowed v (send_request (SubscribeOp s) (v3\<lparr>v_store := (v_store v3)(s := ?sub\<lparr>sub_frame := None\<rparr>)\<rparr>))"
    by (rule goes_request [OF clear]) (use s(1) in \<open>simp add: v3' v1\<close>)
  ultimately show ?thesis
    using r Some f a w v1 v3 by (auto simp: on_sub_def go_bind_eq_Ret Let_def simp del: fun_upd_apply split: if_splits)
qed

fun select_from :: "(Frame \<Rightarrow> bool) \<Rightarrow> select_case \<Rightarrow> View \<Rightarrow> bool" where
  "select_from allowed (SelWrite (Some f)) v = (genuine allowed f \<and> routed (v_store v) (v_fresh v) (c_self v) f)"
| "select_from allowed (SelRead (Some f)) v = (allowed f \<and> header_ok (Hdr f))"
| "select_from allowed (SelSub (Some s)) v = (s < v_fresh v \<and> sub_conn (v_store v s) = c_self v)"
| "select_from allowed sel v = True"

lemma turn_goes:
  assumes v: "view_from allowed v" and sel: "select_from allowed sel v" and r: "processLoop_turn quote cfg sel v = Ret (b, v')"
  shows "goes allowed v v'"
proof -
  obtain tm where p: "loop_prologue v = v\<lparr>c_timer := tm\<rparr>" using prologue_timer by blast
  let ?v = "v\<lparr>c_timer := tm\<rparr>"
  have t: "goes allowed v (snd (on_timer ?v))"
    using goes_write [OF goes_refl [OF v] wire_frame_other(2), of "fst (sendImmediately None v)"]
      goes_write [of allowed v "?v\<lparr>c_timer := False\<rparr>" None] goes_refl [OF v] wire_frame_other(2)
    by (auto simp: on_timer_def split: prod.splits)
  consider "sel \<in> {SelWrite None, SelRead None, SelSub None}" | f where "sel = SelWrite (Some f)"
    | f where "sel = SelRead (Some f)" | s where "sel = SelSub (Some s)" | "sel = SelTimer"
    by (metis insertCI option.exhaust select_case.exhaust)
  then show ?thesis
  proof cases
    case 1
    then have "v' = ?v" using r p by (auto simp: processLoop_turn_def)
    with v show ?thesis by (simp add: goes_refl)
  next
    case 2
    with r p v sel on_write_goes [of allowed ?v f] show ?thesis by (auto simp: processLoop_turn_def)
  next
    case 3
    with r p v sel on_read_goes [of allowed ?v f quote cfg b v'] show ?thesis by (simp add: processLoop_turn_def)
  next
    case 4
    with r p v sel on_sub_goes [of allowed ?v s b v'] show ?thesis by (simp add: processLoop_turn_def)
  next
    case 5
    with r p t show ?thesis by (auto simp: processLoop_turn_def)
  qed
qed

subsection \<open>Closing a connection\<close>

lemma requeue_unacked_from:
  "store_from allowed st n \<Longrightarrow> list_all (request_from allowed n) rs \<Longrightarrow> requeue_unacked subs st rs = (st', rs') \<Longrightarrow>
     store_from allowed st' n \<and> grows st n st' n \<and> list_all (request_from allowed n) rs'"
proof (induction subs arbitrary: st rs)
  case Nil
  then show ?case by (simp add: requeue_unacked.simps [of "[]"] SL_Get_def)
next
  case (Cons s rest)
  let ?st = "st(s := (st s)\<lparr>sub_subList := None\<rparr>)"
  have st: "store_from allowed ?st n" using Cons.prems(1) by (rule store_from_list)
  have "requeue_unacked rest ?st (rs @ [RequeueOp (sub_frame (?st s))]) = (st', rs')"
    using Cons.prems(3) by (simp add: requeue_unacked.simps [of "s # rest"] SL_Get_def)
  moreover have "list_all (request_from allowed n) (rs @ [RequeueOp (sub_frame (?st s))])"
    using Cons.prems(2) store_from_frame [OF st] by (simp del: request_from.simps fun_upd_apply)
  ultimately have "store_from allowed st' n \<and> grows ?st n st' n \<and> list_all (request_from allowed n) rs'"
    by (intro Cons.IH [OF st])
  with grows_trans [OF grows_frame(2)] show ?case by blast
qed

lemma goes_drop:
  "goes allowed v u \<Longrightarrow> goes allowed v (u\<lparr>c_writeChannel := []\<rparr>)"
  "goes allowed v u \<Longrightarrow> c_subChannel u = s # rest \<Longrightarrow> goes allowed v (u\<lparr>c_subChannel := rest\<rparr>)"
  by (auto simp: goes_def view_from_def conn_from_def)

lemma drain_one_goes:
  assumes "view_from allowed v" and "goes allowed v finished"
  shows "goes allowed v (drain_one k finished v)"
proof (cases "c_subChannel v")
  case Nil
  with assms(2) show ?thesis by (simp add: drain_one_def)
next
  case (Cons s rest)
  have "request_from allowed (v_fresh v) (RequeueOp (sub_frame (v_store v s)))"
    using assms(1) store_from_frame [of allowed "v_store v" "v_fresh v"] by (simp add: view_from_def)
  with goes_drop(2) [OF goes_refl [OF assms(1)] Cons] Cons show ?thesis
    by (simp add: drain_one_def goes_request del: request_from.simps)
qed

lemma cleanup_goes:
  assumes v: "view_from allowed v"
  shows "goes allowed v (cleanup_step order n v)"
proof -
  have new: "tx_from allowed (tx_Init txs)" for txs by (simp add: tx_from_def)
  have fold: "goes allowed v (fold (\<lambda>s v. send_request (UnsubscribeOp s) v) xs u)" if "goes allowed v u" for xs u
    using that by (induction xs arbitrary: u) (simp_all add: goes_request)
  have 0: "goes allowed v (cleanup_unsubscribe order v)"
    by (simp add: cleanup_unsubscribe_def discardWriteChannelFrames_def fold goes_drop(1) goes_put goes_refl v new)
  have 1: "goes allowed v (cleanup_requeue v)"
  proof -
    obtain st rs where r: "requeue_unacked (c_subList v) (v_store v) (v_req v) = (st, rs)" by fastforce
    have "goes allowed v (v\<lparr>c_subList := [], v_store := st, v_req := rs\<rparr>)"
      by (rule acked_goes [OF goes_refl [OF v]])
        (use requeue_unacked_from [OF _ _ r] v in \<open>auto simp: acking_def view_from_def\<close>)
    with r show ?thesis by (simp add: cleanup_requeue_def goes_def view_from_def conn_from_def)
  qed
  show ?thesis
    using 0 1 drain_one_goes [OF v] goes_drop(1) goes_refl [OF v]
    by (simp add: cleanup_step_def discardWriteChannelFrames_def cleanup_disconnected_def goes_request)
qed

subsection \<open>The upper layer\<close>

fun delivery_from :: "(Frame \<Rightarrow> bool) \<Rightarrow> sub_store \<Rightarrow> sub_ref \<Rightarrow> Delivery \<Rightarrow> bool" where
  "delivery_from allowed st n (ToSubChannel c s) = (s < n \<and> sub_conn (st s) = c)"
| "delivery_from allowed st n (ToWriteChannel c f) = (genuine allowed f \<and> routed st n c f)"

definition members :: "sub_store \<Rightarrow> sub_ref \<Rightarrow> string \<Rightarrow> sub_ref list \<Rightarrow> bool" where
  "members st n d subs \<longleftrightarrow> (\<forall>s \<in> set subs. s < n \<and> sub_dest (st s) = d)"

definition stored :: "(Frame \<Rightarrow> bool) \<Rightarrow> (string \<Rightarrow> Frame list) \<Rightarrow> bool" where
  "stored allowed q \<longleftrightarrow> (\<forall>d. list_all (\<lambda>f. genuine allowed f \<and> Header_Contains (Hdr f) Destination = Some d) (q d))"

definition upper_from :: "('q \<Rightarrow> string \<Rightarrow> Frame list) \<Rightarrow> ('q \<Rightarrow> bool) \<Rightarrow> (Frame \<Rightarrow> bool) \<Rightarrow> sub_ref \<Rightarrow> 'q Upper \<Rightarrow> bool" where
  "upper_from contents started allowed n u \<longleftrightarrow>
     started (up_storage u) \<and> stored allowed (contents (up_storage u)) \<and> store_from allowed (up_store u) n \<and>
     (\<forall>d q. up_qm u d = Some q \<longrightarrow> q_destination q = d \<and> members (up_store u) n d (q_subs q)) \<and>
     (\<forall>d t. up_tm u d = Some t \<longrightarrow> members (up_store u) n d (t_subs t))"

lemma members_grows: "members st n d subs \<Longrightarrow> grows st n st' n' \<Longrightarrow> members st' n' d subs"
  by (auto simp: members_def grows_def)

lemma delivery_grows: "delivery_from allowed st n x \<Longrightarrow> grows st n st' n' \<Longrightarrow> delivery_from allowed st' n' x"
  by (cases x) (auto simp: routed_grows, auto simp: grows_def)

lemma deliveries_grow:
  "list_all (delivery_from allowed st n) ds \<Longrightarrow> grows st n st' n' \<Longrightarrow> list_all (delivery_from allowed st' n') ds"
  by (auto simp: list_all_iff delivery_grows)

text \<open>A message that a subscription takes from a queue.\<close>

lemma SendQueueFrame_from:
  assumes "SendQueueFrame s f st = Ret (st', x)" and "store_from allowed st n" and "s < n" and "genuine allowed f"
    and "Header_Contains (Hdr f) Destination = Some (sub_dest (st s))"
  shows "store_from allowed st' n \<and> grows st n st' n \<and> delivery_from allowed st' n x"
proof -
  let ?f = "f\<lparr>Hdr := Header_Set (Hdr f) SubscriptionHdr (sub_id (st s))\<rparr>"
  have st': "st' = st(s := (st s)\<lparr>sub_frame := Some ?f\<rparr>)" "x = ToSubChannel (sub_conn (st s)) s"
    using assms(1) by (auto simp: SendQueueFrame_def setSubscriptionHeader_def go_bind_eq_Ret split: if_splits)
  have "store_from allowed st' n"
    unfolding st'(1) by (rule store_from_put [OF assms(2) genuine_Set [OF assms(4)]])
      (use assms(5) genuine_ok [OF assms(4)] in \<open>simp_all add: hm.lookup_put\<close>)
  with assms(3) show ?thesis by (simp add: st' grows_def)
qed

text \<open>What a call on a queue keeps.\<close>

definition queue_from :: "('q \<Rightarrow> string \<Rightarrow> Frame list) \<Rightarrow> ('q \<Rightarrow> bool) \<Rightarrow> (Frame \<Rightarrow> bool) \<Rightarrow> sub_ref \<Rightarrow> 'q QState \<Rightarrow> bool" where
  "queue_from contents started allowed n qs \<longleftrightarrow>
     started (qs_storage qs) \<and> stored allowed (contents (qs_storage qs)) \<and> store_from allowed (qs_store qs) n \<and>
     members (qs_store qs) n (q_destination (qs_queue qs)) (q_subs (qs_queue qs)) \<and>
     list_all (delivery_from allowed (qs_store qs) n) (qs_out qs)"

definition queue_goes :: "('q \<Rightarrow> string \<Rightarrow> Frame list) \<Rightarrow> ('q \<Rightarrow> bool) \<Rightarrow> (Frame \<Rightarrow> bool) \<Rightarrow> sub_ref \<Rightarrow>
    'q QState \<Rightarrow> 'q QState \<Rightarrow> bool" where
  "queue_goes contents started allowed n qs qs' \<longleftrightarrow>
     queue_from contents started allowed n qs' \<and> grows (qs_store qs) n (qs_store qs') n \<and>
     q_destination (qs_queue qs') = q_destination (qs_queue qs)"

lemma queue_send_goes:
  assumes "queue_send s f qs = Ret qs'" and "queue_from contents started allowed n qs" and "s < n" and "genuine allowed f"
    and "Header_Contains (Hdr f) Destination = Some (sub_dest (qs_store qs s))"
  shows "queue_goes contents started allowed n qs qs'"
proof -
  from assms(1) obtain st x where st: "SendQueueFrame s f (qs_store qs) = Ret (st, x)"
    "qs' = qs\<lparr>qs_store := st, qs_out := qs_out qs @ [x]\<rparr>" by (auto simp: queue_send_def go_bind_eq_Ret)
  from SendQueueFrame_from [OF st(1) _ assms(3-5)] assms(2)
  have "store_from allowed st n" "grows (qs_store qs) n st n" "delivery_from allowed st n x" by (auto simp: queue_from_def)
  with assms(2) st(2) show ?thesis
    by (auto simp: queue_goes_def queue_from_def members_grows deliveries_grow)
qed

lemma SL_Get_from:
  assumes "SL_Get subs st = (Some s, subs', st')" and "store_from allowed st n" and "members st n d subs"
  shows "store_from allowed st' n \<and> grows st n st' n \<and> members st' n d subs' \<and> s < n \<and> sub_dest (st' s) = d"
  using assms by (auto simp: SL_Get_def store_from_list members_def split: list.splits)

lemma stored_upd:
  "stored allowed q \<Longrightarrow> list_all (\<lambda>f. genuine allowed f \<and> Header_Contains (Hdr f) Destination = Some d) l \<Longrightarrow> stored allowed (q(d := l))"
  by (simp add: stored_def)

lemma storedD: "stored allowed q \<Longrightarrow> list_all (\<lambda>f. genuine allowed f \<and> Header_Contains (Hdr f) Destination = Some d) (q d)"
  by (simp add: stored_def)

lemma Queue_Enqueue_goes:
  assumes S: "queue_storage S contents started" and qs: "queue_from contents started allowed n qs"
    and f: "genuine allowed f" "Header_Contains (Hdr f) Destination = Some (q_destination (qs_queue qs))"
    and r: "Queue_Enqueue S f qs = Ret (err, qs') \<or> Queue_Requeue S f qs = Ret (err, qs')"
  shows "queue_goes contents started allowed n qs qs'"
proof (cases "q_subs (qs_queue qs)")
  case Nil
  have on: "started (qs_storage qs)" "stored allowed (contents (qs_storage qs))" using qs by (simp_all add: queue_from_def)
  note l = storedD [OF on(2), of "q_destination (qs_queue qs)"]
  from queue_storage.enqueue [OF S on(1), of "q_destination (qs_queue qs)" f]
    queue_storage.requeue [OF S on(1), of "q_destination (qs_queue qs)" f] r Nil obtain q' l'
    where "qs' = qs\<lparr>qs_storage := q'\<rparr>" "started q'" "contents q' = (contents (qs_storage qs))(q_destination (qs_queue qs) := l')"
      "set l' = insert f (set (contents (qs_storage qs) (q_destination (qs_queue qs))))"
    by (auto simp: Queue_Enqueue_def Queue_Requeue_def SL_Get_def)
  moreover from this(4) l f have "stored allowed ((contents (qs_storage qs))(q_destination (qs_queue qs) := l'))"
    by (intro stored_upd on(2)) (auto simp: list_all_iff)
  ultimately show ?thesis using qs by (simp add: queue_goes_def queue_from_def)
next
  case (Cons s rest)
  obtain s' subs' st' where g: "SL_Get (q_subs (qs_queue qs)) (qs_store qs) = (Some s', subs', st')"
    using Cons by (simp add: SL_Get_def)
  let ?qs = "qs\<lparr>qs_store := st', qs_queue := (qs_queue qs)\<lparr>q_subs := subs'\<rparr>\<rparr>"
  from SL_Get_from [OF g, of allowed n "q_destination (qs_queue qs)"] qs
  have st': "store_from allowed st' n" "grows (qs_store qs) n st' n" "members st' n (q_destination (qs_queue qs)) subs'"
    "s' < n" "sub_dest (st' s') = q_destination (qs_queue qs)" by (auto simp: queue_from_def)
  from r g have send: "queue_send s' f ?qs = Ret qs'" by (auto simp: Queue_Enqueue_def Queue_Requeue_def go_bind_eq_Ret)
  have "queue_from contents started allowed n ?qs" using qs st' by (auto simp: queue_from_def deliveries_grow)
  from queue_send_goes [OF send this st'(4) f(1)] f(2) st'(2,5) show ?thesis
    by (auto simp: queue_goes_def intro: grows_trans)
qed

lemma Queue_Subscribe_goes:
  assumes S: "queue_storage S contents started" and qs: "queue_from contents started allowed n qs"
    and s: "s < n" "sub_dest (qs_store qs s) = q_destination (qs_queue qs)" and r: "Queue_Subscribe S s qs = Ret (err, qs')"
  shows "queue_goes contents started allowed n qs qs'"
proof -
  let ?d = "q_destination (qs_queue qs)"
  have on: "started (qs_storage qs)" "stored allowed (contents (qs_storage qs))" using qs by (simp_all add: queue_from_def)
  note l = storedD [OF on(2), of ?d]
  obtain q' where q': "st_Dequeue S ?d (qs_storage qs) =
      Ret (Inr (case contents (qs_storage qs) ?d of [] \<Rightarrow> None | f # l \<Rightarrow> Some f), q')" "started q'"
    "contents q' = (contents (qs_storage qs))(?d := tl (contents (qs_storage qs) ?d))"
    using queue_storage.dequeue [OF S on(1), of ?d] by blast
  have "stored allowed (contents q')"
    unfolding q'(3) by (rule stored_upd [OF on(2)]) (use l in \<open>cases "contents (qs_storage qs) ?d"; simp\<close>)
  then have qs1: "queue_from contents started allowed n (qs\<lparr>qs_storage := q'\<rparr>)" using qs q'(2) by (simp add: queue_from_def)
  show ?thesis
  proof (cases "contents (qs_storage qs) ?d")
    case Nil
    with r q'(1) s(2) have "\<exists>subs st. SL_Add (QueueList ?d) s (q_subs (qs_queue qs)) (qs_store qs) = Ret (subs, st) \<and>
        qs' = qs\<lparr>qs_storage := q', qs_store := st, qs_queue := (qs_queue qs)\<lparr>q_subs := subs\<rparr>\<rparr>"
      by (auto simp: Queue_Subscribe_def go_bind_eq_Ret)
    then have "qs' = qs\<lparr>qs_storage := q', qs_store := (qs_store qs)(s := (qs_store qs s)\<lparr>sub_subList := Some (QueueList ?d)\<rparr>),
        qs_queue := (qs_queue qs)\<lparr>q_subs := q_subs (qs_queue qs) @ [s]\<rparr>\<rparr>"
      by (auto simp: SL_Add_def split: if_splits)
    with qs1 s show ?thesis
      by (auto simp: queue_goes_def queue_from_def store_from_list members_def intro: deliveries_grow)
  next
    case (Cons f rest)
    with r q'(1) s(2) have send: "queue_send s f (qs\<lparr>qs_storage := q'\<rparr>) = Ret qs'"
      by (auto simp: Queue_Subscribe_def go_bind_eq_Ret)
    from queue_send_goes [OF send qs1 s(1)] l Cons s(2) show ?thesis by (simp add: queue_goes_def)
  qed
qed

lemma Queue_Unsubscribe_goes:
  assumes "queue_from contents started allowed n qs"
  shows "queue_goes contents started allowed n qs (Queue_Unsubscribe s qs)"
  using assms set_remove1_subset [of s "q_subs (qs_queue qs)"]
  by (auto simp: Queue_Unsubscribe_def SL_Remove_remove1 queue_goes_def queue_from_def store_from_list members_def
      intro: deliveries_grow)

lemma on_queue_from:
  assumes u: "upper_from contents started allowed n u" "list_all (delivery_from allowed (up_store u) n) (up_out u)"
    and r: "on_queue d call u = Ret u'"
    and call: "\<And>qs err qs'. queue_from contents started allowed n qs \<Longrightarrow> q_destination (qs_queue qs) = d \<Longrightarrow>
      qs_store qs = up_store u \<Longrightarrow> call qs = Ret (err, qs') \<Longrightarrow> queue_goes contents started allowed n qs qs'"
  shows "upper_from contents started allowed n u' \<and> grows (up_store u) n (up_store u') n \<and>
    list_all (delivery_from allowed (up_store u') n) (up_out u')"
proof -
  obtain q qm where q: "qm_Find d (up_qm u) = (q, qm)" by fastforce
  let ?qs = "\<lparr>qs_queue = q, qs_storage = up_storage u, qs_store = up_store u, qs_out = up_out u\<rparr>"
  have qm: "q_destination q = d" "members (up_store u) n d (q_subs q)" "\<And>d'. d' \<noteq> d \<Longrightarrow> qm d' = up_qm u d'"
    using q u(1) by (auto simp: qm_Find_def newQueue_def upper_from_def members_def split: option.splits)
  from r q obtain err qs where c: "call ?qs = Ret (err, qs)"
    and u': "u' = u\<lparr>up_qm := qm(d \<mapsto> qs_queue qs), up_storage := qs_storage qs, up_store := qs_store qs, up_out := qs_out qs\<rparr>"
    by (auto simp: on_queue_def go_bind_eq_Ret)
  have "queue_from contents started allowed n ?qs" using u qm(1,2) by (simp add: queue_from_def upper_from_def)
  from call [OF this _ _ c] qm(1) have g: "queue_from contents started allowed n qs" "grows (up_store u) n (qs_store qs) n"
    "q_destination (qs_queue qs) = d" by (auto simp: queue_goes_def)
  with u(1) qm(3) show ?thesis
    by (auto simp: u' upper_from_def queue_from_def intro!: members_grows [OF _ g(2)] split: if_splits)
qed

text \<open>A message that a topic broadcasts.\<close>

lemma send_topic_from:
  assumes "send_topic s f (st, ds) = Ret w" and "s < n" and "genuine allowed f"
    and "Header_Contains (Hdr f) Destination = Some (sub_dest (st s))" and "list_all (delivery_from allowed st n) ds"
  shows "\<exists>ds'. w = (st, ds') \<and> list_all (delivery_from allowed st n) ds'"
proof -
  let ?f = "f\<lparr>Hdr := Header_Set (Hdr f) SubscriptionHdr (sub_id (st s))\<rparr>"
  have "routed st n (sub_conn (st s)) ?f"
    unfolding routed_def by (rule exI [of _ s]) (use assms(2,4) genuine_ok [OF assms(3)] in \<open>simp add: hm.lookup_put\<close>)
  with assms(1,3,5) show ?thesis
    by (auto simp: send_topic_def SendTopicFrame_def setSubscriptionHeader_def go_bind_eq_Ret genuine_Set split: if_splits)
qed

lemma broadcast_from:
  "broadcast send_topic f subs (st, ds) = Ret w \<Longrightarrow> members st n d subs \<Longrightarrow> genuine allowed f \<Longrightarrow>
   Header_Contains (Hdr f) Destination = Some d \<Longrightarrow> list_all (delivery_from allowed st n) ds \<Longrightarrow>
     \<exists>ds'. w = (st, ds') \<and> list_all (delivery_from allowed st n) ds'"
proof (induction subs arbitrary: ds)
  case Nil
  then show ?case by auto
next
  case (Cons s subs)
  have "(if subs = [] then f else Frame_Clone f) = f" by (simp add: Frame_Clone_def)
  with Cons.prems(1) obtain w1 where w1: "send_topic s f (st, ds) = Ret w1" "broadcast send_topic f subs w1 = Ret w"
    by (auto simp: go_bind_eq_Ret)
  from send_topic_from [OF w1(1) _ Cons.prems(3) _ Cons.prems(5)] Cons.prems(2,4) obtain ds1
    where "w1 = (st, ds1)" "list_all (delivery_from allowed st n) ds1" by (auto simp: members_def)
  with Cons.IH [of ds1] w1(2) Cons.prems(2-4) show ?case by (auto simp: members_def)
qed

lemma on_topic_from:
  assumes u: "upper_from contents started allowed n u" "list_all (delivery_from allowed (up_store u) n) (up_out u)"
    and r: "on_topic d call u = Ret u'"
    and call: "\<And>t t' w. members (up_store u) n d (t_subs t) \<Longrightarrow> call t (up_store u, up_out u) = Ret (t', w) \<Longrightarrow>
      members (up_store u) n d (t_subs t') \<and> fst w = up_store u \<and> list_all (delivery_from allowed (up_store u) n) (snd w)"
  shows "upper_from contents started allowed n u' \<and> grows (up_store u) n (up_store u') n \<and>
    list_all (delivery_from allowed (up_store u') n) (up_out u')"
proof -
  obtain t tm where t: "tm_Find d (up_tm u) = (t, tm)" by fastforce
  have tm: "members (up_store u) n d (t_subs t)" "\<And>d'. d' \<noteq> d \<Longrightarrow> tm d' = up_tm u d'"
    using t u(1) by (auto simp: tm_Find_def newTopic_def upper_from_def members_def split: option.splits)
  from r t obtain t' w where c: "call t (up_store u, up_out u) = Ret (t', w)"
    and u': "u' = u\<lparr>up_tm := tm(d \<mapsto> t'), up_store := fst w, up_out := snd w\<rparr>" by (auto simp: on_topic_def go_bind_eq_Ret)
  from call [OF tm(1) c] u(1) tm(2) show ?thesis by (auto simp: u' upper_from_def split: if_splits)
qed

lemma remove_first_subset: "set (remove_first s subs) \<subseteq> set subs"
  by (induction s subs rule: remove_first.induct) auto

lemma serve_from:
  assumes S: "queue_storage S contents started" and u: "upper_from contents started allowed n u"
    and out: "list_all (delivery_from allowed (up_store u) n) (up_out u)" and rq: "request_from allowed n r" and sv: "serve S r u = Ret u'"
  shows "upper_from contents started allowed n u' \<and> grows (up_store u) n (up_store u') n \<and>
    list_all (delivery_from allowed (up_store u') n) (up_out u')"
proof -
  note queue = on_queue_from [OF u out] and topic = on_topic_from [OF u out]
  show ?thesis
  proof (cases r)
    case (SubscribeOp s)
    let ?d = "sub_dest (up_store u s)"
    have s: "s < n" using rq SubscribeOp by simp
    show ?thesis
    proof (cases "isQueueDestination ?d")
      case True
      with sv SubscribeOp have "on_queue ?d (Queue_Subscribe S s) u = Ret u'" by (simp add: serve_def)
      then show ?thesis by (rule queue) (rule Queue_Subscribe_goes [OF S _ s], auto)
    next
      case False
      with sv SubscribeOp have "on_topic ?d (\<lambda>t w. Ret (Topic_Subscribe s t, w)) u = Ret u'" by (simp add: serve_def)
      then show ?thesis by (rule topic) (use s out in \<open>auto simp: Topic_Subscribe_def members_def\<close>)
    qed
  next
    case (UnsubscribeOp s)
    let ?d = "sub_dest (up_store u s)"
    show ?thesis
    proof (cases "isQueueDestination ?d")
      case True
      with sv UnsubscribeOp have "on_queue ?d (\<lambda>qs. Ret (None, Queue_Unsubscribe s qs)) u = Ret u'" by (simp add: serve_def)
      then show ?thesis by (rule queue) (auto intro: Queue_Unsubscribe_goes)
    next
      case False
      with sv UnsubscribeOp have "on_topic ?d (\<lambda>t w. Ret (Topic_Unsubscribe s t, w)) u = Ret u'" by (simp add: serve_def)
      then show ?thesis
        by (rule topic) (use out in \<open>auto simp: Topic_Unsubscribe_def members_def dest!: subsetD [OF remove_first_subset]\<close>)
    qed
  next
    case (EnqueueOp f)
    with rq sv obtain d where f: "genuine allowed f" "Header_Contains (Hdr f) Destination = Some d"
      by (auto simp: serve_def split: option.splits)
    show ?thesis
    proof (cases "isQueueDestination d")
      case True
      with sv EnqueueOp f have "on_queue d (Queue_Enqueue S f) u = Ret u'" by (simp add: serve_def)
      then show ?thesis by (rule queue) (rule Queue_Enqueue_goes [OF S _ f(1)], auto simp: f(2))
    next
      case False
      with sv EnqueueOp f have "on_topic d (\<lambda>t w. go_bind (Topic_Enqueue send_topic f t w) (\<lambda>w'. Ret (t, w'))) u = Ret u'"
        by (simp add: serve_def)
      then show ?thesis
        by (rule topic) (use broadcast_from [OF _ _ f out] in \<open>fastforce simp: go_bind_eq_Ret Topic_Enqueue_broadcast\<close>)
    qed
  next
    case (RequeueOp fo)
    with rq sv obtain f d where f: "fo = Some f" "genuine allowed f" "Header_Contains (Hdr f) Destination = Some d"
      by (auto simp: serve_def split: option.splits)
    show ?thesis
    proof (cases "isQueueDestination d")
      case True
      with sv RequeueOp f have "on_queue d (Queue_Requeue S f) u = Ret u'" by (simp add: serve_def)
      then show ?thesis by (rule queue) (rule Queue_Enqueue_goes [OF S _ f(2)], auto simp: f(3))
    next
      case False
      with sv RequeueOp f u out show ?thesis by (simp add: serve_def)
    qed
  qed (use sv u out in \<open>simp_all add: serve_def\<close>)
qed

subsection \<open>The whole server\<close>

definition world_from :: "('q \<Rightarrow> string \<Rightarrow> Frame list) \<Rightarrow> ('q \<Rightarrow> bool) \<Rightarrow> (Frame \<Rightarrow> bool) \<Rightarrow> 'q ServerWorld \<Rightarrow> bool" where
  "world_from contents started allowed w \<longleftrightarrow>
     upper_from contents started allowed (sw_fresh w) (sw_upper w) \<and>
     list_all (delivery_from allowed (up_store (sw_upper w)) (sw_fresh w)) (sw_out w) \<and>
     list_all (request_from allowed (sw_fresh w)) (sw_reqCh w) \<and>
     (\<forall>c. list_all (request_from allowed (sw_fresh w)) (sw_pend w c)) \<and>
     (\<forall>c k. sw_conns w c = Some k \<longrightarrow> c_self k = c \<and> conn_from allowed (up_store (sw_upper w)) (sw_fresh w) k)"

lemma start_from:
  "started storage \<Longrightarrow> contents storage = (\<lambda>d. []) \<Longrightarrow> world_from contents started allowed (start_server storage)"
  by (simp add: world_from_def start_server_def newRequestProcessor_def upper_from_def stored_def store_from_def no_subs_def
      newSubscription_def)

lemma conn_from_New: "conn_from allowed st n (NewConn c (NewWriter room fault))"
  by (simp add: conn_from_def NewConn_def wire_New tx_from_def)

lemma conn_from_upds [simp]:
  "conn_from allowed st n (k\<lparr>c_readClosed := b\<rparr>) = conn_from allowed st n k"
  "conn_from allowed st n (world_view k w) = conn_from allowed st n k"
  "conn_from allowed st n (Conn.truncate v) = conn_from allowed st n v"
  by (simp_all add: conn_from_def)

lemma take_select_from:
  assumes "take_select sel k = Some k'" and "conn_from allowed (up_store (sw_upper w)) (sw_fresh w) k"
  shows "conn_from allowed (up_store (sw_upper w)) (sw_fresh w) k'" "select_from allowed sel (world_view k' w)" "c_self k' = c_self k"
  using assms by (cases sel; auto simp: conn_from_def split: option.splits list.splits if_splits)+

lemma put_view_from:
  assumes w: "world_from contents started allowed w" and c: "c_self k = c"
    and g: "goes allowed (world_view k w) v"
  shows "world_from contents started allowed (put_view c v w)"
proof -
  have v: "view_from allowed v" "grows (up_store (sw_upper w)) (sw_fresh w) (v_store v) (v_fresh v)" "c_self v = c"
    using g c by (simp_all add: goes_def)
  then have "sw_fresh w \<le> v_fresh v" by (simp add: grows_def)
  note mono = members_grows [OF _ v(2)] deliveries_grow [OF _ v(2)] requests_from_grows [OF _ this]
  have "upper_from contents started allowed (v_fresh v) ((sw_upper w)\<lparr>up_store := v_store v\<rparr>)"
    using w v(1) mono(1) by (auto simp: world_from_def upper_from_def view_from_def)
  moreover have "list_all (delivery_from allowed (v_store v) (v_fresh v)) (sw_out w)"
    "list_all (request_from allowed (v_fresh v)) (sw_reqCh w)" "\<And>c. list_all (request_from allowed (v_fresh v)) (sw_pend w c)"
    using w mono(2,3) by (auto simp: world_from_def)
  moreover have "c_self k = c \<and> conn_from allowed (v_store v) (v_fresh v) k" if "sw_conns w c = Some k" for c k
    using w that by (auto simp: world_from_def intro!: conn_from_grows [OF _ v(2)])
  ultimately show ?thesis using v(1,3) by (auto simp: world_from_def view_from_def)
qed

lemma world_view_from:
  "world_from contents started allowed w \<Longrightarrow> conn_from allowed (up_store (sw_upper w)) (sw_fresh w) k \<Longrightarrow>
     view_from allowed (world_view k w)"
  by (simp add: world_from_def upper_from_def view_from_def)

lemma conn_put_from:
  assumes "world_from contents started allowed w" and "c_self k = c" and "conn_from allowed (up_store (sw_upper w)) (sw_fresh w) k"
  shows "world_from contents started allowed (w\<lparr>sw_conns := (sw_conns w)(c \<mapsto> k)\<rparr>)"
  using assms by (auto simp: world_from_def)

lemma step_from:
  assumes S: "queue_storage S contents started" and w: "world_from contents started allowed w"
    and step: "server_step S quote cfg allowed w w'"
  shows "world_from contents started allowed w'"
proof -
  have conn: "c_self k = c" "conn_from allowed (up_store (sw_upper w)) (sw_fresh w) k" if "sw_conns w c = Some k" for c k
    using w that by (auto simp: world_from_def)
  from step show ?thesis
  proof cases
    case (accept c room fault)
    have "world_from contents started allowed (w\<lparr>sw_conns := (sw_conns w)(c \<mapsto> NewConn c (NewWriter room fault))\<rparr>)"
      by (rule conn_put_from [OF w]) (simp_all add: NewConn_def conn_from_New [unfolded NewConn_def])
    with accept show ?thesis by (simp add: world_from_def)
  next
    case (read c k f)
    with conn [of c k] show ?thesis by (auto intro!: conn_put_from [OF w] simp: conn_from_def)
  next
    case (read_end c k)
    with conn [of c k] show ?thesis by (auto intro!: conn_put_from [OF w])
  next
    case (turn c k sel k' continue v)
    note k' = take_select_from [OF turn(6) conn(2) [OF turn(3)]]
    have "goes allowed (world_view k' w) v" by (rule turn_goes [OF world_view_from [OF w k'(1)] k'(2) turn(7)])
    then have "goes allowed (world_view k' w) (if continue then v else v\<lparr>c_pc := Cleanup 0\<rparr>)" by simp
    with put_view_from [OF w, of k' c] k'(3) conn(1) [OF turn(3)] turn(1) show ?thesis by simp
  next
    case (turn_panic c k sel k' m)
    with w show ?thesis by (simp add: world_from_def)
  next
    case (cleanup c k n order)
    with put_view_from [OF w conn(1) cleanup_goes [OF world_view_from [OF w conn(2)]]] show ?thesis by simp
  next
    case (post c r rs)
    from w have "list_all (request_from allowed (sw_fresh w)) (sw_pend w c)" by (simp add: world_from_def)
    with post w show ?thesis by (auto simp: world_from_def)
  next
    case (serve r rs u)
    let ?u = "(sw_upper w)\<lparr>up_out := []\<rparr>"
    have "upper_from contents started allowed (sw_fresh w) ?u" "request_from allowed (sw_fresh w) r"
      using w serve(4) by (simp_all add: world_from_def upper_from_def)
    from serve_from [OF S this(1) _ this(2) serve(5)]
    have u: "upper_from contents started allowed (sw_fresh w) u" "grows (up_store (sw_upper w)) (sw_fresh w) (up_store u) (sw_fresh w)"
      "list_all (delivery_from allowed (up_store u) (sw_fresh w)) (up_out u)" by simp_all
    with w serve show ?thesis by (auto simp: world_from_def intro!: conn_from_grows [OF _ u(2)])
  next
    case (serve_panic r rs m)
    with w show ?thesis by (simp add: world_from_def)
  next
    case (deliver_sub c s ds k)
    with w have "s < sw_fresh w \<and> sub_conn (up_store (sw_upper w) s) = c" "list_all (delivery_from allowed (up_store (sw_upper w)) (sw_fresh w)) ds"
      by (simp_all add: world_from_def)
    with w deliver_sub conn [of c k] show ?thesis by (auto simp: world_from_def conn_from_def)
  next
    case (deliver_write c f ds k)
    with w have "genuine allowed f \<and> routed (up_store (sw_upper w)) (sw_fresh w) c f"
      "list_all (delivery_from allowed (up_store (sw_upper w)) (sw_fresh w)) ds"
      by (simp_all add: world_from_def)
    with w deliver_write conn [of c k] show ?thesis by (auto simp: world_from_def conn_from_def)
  qed
qed

lemma reachable_from:
  assumes "server_reachable S quote cfg allowed storage w" and "queue_storage S contents started" and "started storage"
    and "contents storage = (\<lambda>d. [])"
  shows "world_from contents started allowed w"
  using assms(1) by induction (simp_all add: start_from assms(3,4) step_from [OF assms(2)])

subsection \<open>Messages are authentic\<close>

text \<open>
  A frame on the wire of a connection, if it is a message, has the payload of a frame that was sent, and belongs to a subscription
  that this connection was asked for.
\<close>

definition authentic :: "(Frame \<Rightarrow> bool) \<Rightarrow> 'q ServerWorld \<Rightarrow> conn_ref \<Rightarrow> Frame option \<Rightarrow> bool" where
  "authentic allowed w c fo \<longleftrightarrow>
     (case fo of
        None \<Rightarrow> True
      | Some f \<Rightarrow> Command f = MESSAGE \<longrightarrow>
          (\<exists>g. allowed g \<and> Command g = SEND \<and> payload g = payload f) \<and>
          (\<exists>s g. sub_conn (up_store (sw_upper w) s) = c \<and> allowed g \<and> Command g = SUBSCRIBE \<and>
             Header_Contains (Hdr g) Destination = Some (sub_dest (up_store (sw_upper w) s)) \<and>
             Header_Contains (Hdr g) IdHdr = Some (sub_id (up_store (sw_upper w) s)) \<and>
             Header_Contains (Hdr f) Destination = Some (sub_dest (up_store (sw_upper w) s)) \<and>
             Header_Contains (Hdr f) SubscriptionHdr = Some (sub_id (up_store (sw_upper w) s))))"

lemma wire_frame_authentic:
  assumes "world_from contents started allowed w" and "wire_frame allowed (up_store (sw_upper w)) (sw_fresh w) c fo"
  shows "authentic allowed w c fo"
proof -
  have "store_from allowed (up_store (sw_upper w)) (sw_fresh w)" using assms(1) by (simp add: world_from_def upper_from_def)
  with assms(2) show ?thesis
    unfolding wire_frame_def authentic_def genuine_def sent_def routed_def store_from_def by (cases fo) (simp, force)
qed


text \<open>A server in which a message has come all the way.\<close>

lemma order_delivered:
  assumes w: "R w" "ordering body k w" and R: "\<And>w w'. R w \<Longrightarrow> server_step memory_storage quote sample_cfg allowed w w' \<Longrightarrow> R w'"
  shows "\<exists>w k f. R w \<and> sw_conns w 0 = Some k \<and> Command f = MESSAGE \<and> Body f = body \<and>
    (\<exists>pre. w_out (c_writer k) = pre @ frame_bytes (Some f))"
proof -
  let ?m = "EnqueueOp (order_message body)"
  from w have c: "sw_crash w = None" "sw_pend w 0 = [?m]" "sw_reqCh w = []" "sw_out w = []" "sw_conns w 0 = Some k"
    "c_self k = 0" "c_pc k = InLoop" "ready (c_writer k)" "c_subChannel k = []" "c_subs k = [''1'' \<mapsto> 0]" "waiting_at_shop (sw_upper w)"
    by (simp_all add: ordering_def at_rest_def)
  define u where "u = order_taken body (sw_upper w)"
  define w1 where "w1 = w\<lparr>sw_pend := (sw_pend w)(0 := []), sw_reqCh := [?m]\<rparr>"
  define w2 where "w2 = w1\<lparr>sw_reqCh := [], sw_upper := u, sw_out := [ToSubChannel 0 0]\<rparr>"
  define w3 where "w3 = w2\<lparr>sw_out := [], sw_conns := (sw_conns w2)(0 \<mapsto> k\<lparr>c_subChannel := [0]\<rparr>)\<rparr>"
  have "server_step memory_storage quote sample_cfg allowed w (w\<lparr>sw_pend := (sw_pend w)(0 := []), sw_reqCh := sw_reqCh w @ [?m]\<rparr>)"
    using c by (intro server_step.post) (simp_all add: requestChannelCapacity_def)
  with w(1) c(3) have r1: "R w1" unfolding w1_def by (auto intro: R)
  have "serve memory_storage ?m ((sw_upper w1)\<lparr>up_out := []\<rparr>) = Ret u"
    using serve_order [OF c(11)] by (simp add: u_def w1_def)
  then have "server_step memory_storage quote sample_cfg allowed w1 (w1\<lparr>sw_reqCh := [], sw_upper := u, sw_out := up_out u\<rparr>)"
    using c by (intro server_step.serve) (simp_all add: w1_def)
  with r1 have r2: "R w2" unfolding w2_def by (auto simp: u_def order_taken_def intro: R)
  have "server_step memory_storage quote sample_cfg allowed w2
      (w2\<lparr>sw_out := [], sw_conns := (sw_conns w2)(0 \<mapsto> k\<lparr>c_subChannel := c_subChannel k @ [0]\<rparr>)\<rparr>)"
    using c by (intro server_step.deliver_sub) (simp_all add: w2_def w1_def maxPendingWrites_def)
  with r2 c(9) have r3: "R w3" unfolding w3_def by (auto intro: R)
  let ?v = "world_view k w3"
  obtain tm where p: "loop_prologue ?v = ?v\<lparr>c_timer := tm\<rparr>" using prologue_timer by blast
  obtain f v1 where a: "allocateMessageId (with_sub (up_store (sw_upper w)) 0 (order_message body)) (Some (up_store u 0))
      (?v\<lparr>c_timer := False\<rparr>) = (f, v1)" by fastforce
  obtain n where v1: "v1 = ?v\<lparr>c_timer := False, c_lastMsgId := n\<rparr>"
    using allocateMessageId_view [of "with_sub (up_store (sw_upper w)) 0 (order_message body)" "Some (up_store u 0)" "?v\<lparr>c_timer := False\<rparr>"] a
    by auto
  have f: "Command f = MESSAGE" "Body f = body"
    using a by (auto simp: allocateMessageId_def Let_def with_sub_def order_message_def order_frame_def)
  obtain wr where wr: "Writer_Write (Some f) (c_writer k) = (None, wr)" "w_out wr = w_out (c_writer k) @ frame_bytes (Some f)"
    using Writer_Write_ready [OF c(8)] by blast
  have "\<exists>v. on_sub 0 (?v\<lparr>c_timer := tm\<rparr>) = Ret (True, v) \<and> c_writer v = wr"
    using c a wr(1) v1
    by (simp add: on_sub_def w3_def w2_def u_def order_taken_def waiting_at_shop_def sendImmediately_def send_request_def)
  then obtain v where v: "processLoop_turn quote sample_cfg (SelSub (Some 0)) ?v = Ret (True, v)" "c_writer v = wr"
    using p by (auto simp: processLoop_turn_def)
  have "server_step memory_storage quote sample_cfg allowed w3 (put_view 0 (if True then v else v\<lparr>c_pc := Cleanup 0\<rparr>) w3)"
    by (rule server_step.turn [where k = "k\<lparr>c_subChannel := [0]\<rparr>" and k' = k and sel = "SelSub (Some 0)"])
       (use c v(1) in \<open>simp_all add: w3_def w2_def w1_def\<close>)
  with r3 have "R (put_view 0 v w3)" by (auto intro: R)
  with v(2) wr(2) f show ?thesis by (intro exI [of _ "put_view 0 v w3"] exI [of _ "Conn.truncate v"] exI [of _ f]) auto
qed

lemma delivered_reachable:
  "\<exists>w k f. server_reachable memory_storage quote sample_cfg polite NewMemoryQueueStorage w \<and> sw_conns w 0 = Some k \<and>
     Command f = MESSAGE \<and> Body f = body \<and> (\<exists>pre. w_out (c_writer k) = pre @ frame_bytes (Some f))"
proof -
  obtain w k where w: "server_reachable memory_storage quote sample_cfg polite NewMemoryQueueStorage w" "ordering body k w"
    using ordering_reachable by blast
  show ?thesis by (rule order_delivered [where R = "server_reachable memory_storage quote sample_cfg polite NewMemoryQueueStorage", OF w])
      (rule server_reachable.step)
qed


end
