(* ===== verification/Server_Once.thy ===== *)
theory Server_Once
  imports Server_Origin
begin

section \<open>At most once\<close>

text \<open>
  A server whose clients are polite and subscribe without acknowledgements delivers a message to a queue at most as often as it
  has been sent. The proof counts the copies of a message in all the places where one can be: read channels, transactions,
  requests that wait, queues, the hands of the processor, the channels of the connections and the bytes on the wires. No step
  of the server makes a copy; one that moves leaves the place where it was.
\<close>

subsection \<open>Counting over places\<close>

text \<open>There is no bound on the number of places, so a count is bounded if it is on all finite sets of them.\<close>

definition fits :: "nat \<Rightarrow> ('a \<Rightarrow> nat) \<Rightarrow> bool" where
  "fits n f \<longleftrightarrow> (\<forall>P. finite P \<longrightarrow> sum f P \<le> n)"

text \<open>Finitely many places change, and all in all they gain no more than \<open>d\<close>.\<close>

definition shifts :: "nat \<Rightarrow> ('a \<Rightarrow> nat) \<Rightarrow> ('a \<Rightarrow> nat) \<Rightarrow> bool" where
  "shifts d f g \<longleftrightarrow> (\<exists>P. finite P \<and> (\<forall>p. p \<notin> P \<longrightarrow> g p \<le> f p) \<and> sum g P \<le> sum f P + d)"

lemma shifts_enlarge:
  assumes "finite Q" and "P \<subseteq> Q" and "\<forall>p. p \<notin> P \<longrightarrow> g p \<le> f p" and "sum g P \<le> sum f P + (d :: nat)"
  shows "sum g Q \<le> sum f Q + d"
proof -
  have "sum g (Q - P) \<le> sum f (Q - P)" using assms(3) by (intro sum_mono) simp
  with assms(4) show ?thesis using sum.subset_diff [OF assms(2,1), of g] sum.subset_diff [OF assms(2,1), of f] by simp
qed

lemma shifts_on:
  assumes "shifts d f g" and "finite A"
  obtains P where "finite P" "A \<subseteq> P" "\<forall>p. p \<notin> P \<longrightarrow> g p \<le> f p" "sum g P \<le> sum f P + d"
proof -
  from assms(1) obtain P where P: "finite P" "\<forall>p. p \<notin> P \<longrightarrow> g p \<le> f p" "sum g P \<le> sum f P + d" by (auto simp: shifts_def)
  with shifts_enlarge [of "P \<union> A" P g f d] assms(2) that [of "P \<union> A"] show thesis by auto
qed

lemma shifts_fits:
  assumes "fits n f" and "shifts d f g"
  shows "fits (n + d) g"
  unfolding fits_def
proof (intro allI impI)
  fix Q :: "'a set" assume "finite Q"
  then obtain P where P: "finite P" "Q \<subseteq> P" "sum g P \<le> sum f P + d" using shifts_on [OF assms(2)] by metis
  have "sum g Q \<le> sum g P" by (rule sum_mono2) (use P in auto)
  also have "\<dots> \<le> n + d" using P assms(1) by (simp add: fits_def) (meson add_mono le_refl order.trans)
  finally show "sum g Q \<le> n + d" .
qed

lemma shifts_le: "(\<And>p. g p \<le> f p) \<Longrightarrow> shifts d f g"
  unfolding shifts_def by (rule exI [of _ "{}"]) simp

lemma shifts_trans:
  assumes "shifts d f g" and "shifts e g h"
  shows "shifts (d + e) f h"
proof -
  from assms(2) obtain Q where Q: "finite Q" "\<forall>p. p \<notin> Q \<longrightarrow> h p \<le> g p" "sum h Q \<le> sum g Q + e" by (auto simp: shifts_def)
  obtain P where P: "finite P" "Q \<subseteq> P" "\<forall>p. p \<notin> P \<longrightarrow> g p \<le> f p" "sum g P \<le> sum f P + d" using shifts_on [OF assms(1) Q(1)] .
  have "sum h P \<le> sum g P + e" by (rule shifts_enlarge [OF P(1,2) Q(2,3)])
  moreover have "\<forall>p. p \<notin> P \<longrightarrow> h p \<le> f p" using P(2,3) Q(2) by (meson order.trans subsetD)
  ultimately show ?thesis unfolding shifts_def using P(1,4) by (intro exI [of _ P]) simp
qed

lemma shifts_one: "(\<And>p. p \<noteq> a \<Longrightarrow> g p \<le> f p) \<Longrightarrow> g a \<le> f a + d \<Longrightarrow> shifts d f g"
  unfolding shifts_def by (rule exI [of _ "{a}"]) simp

lemma shifts_two: "a \<noteq> b \<Longrightarrow> (\<And>p. p \<notin> {a, b} \<Longrightarrow> g p \<le> f p) \<Longrightarrow> g a + g b \<le> f a + f b + d \<Longrightarrow> shifts d f g"
  unfolding shifts_def by (rule exI [of _ "{a, b}"]) simp

text \<open>A place gives back what others have gained.\<close>

lemma shifts_back:
  assumes "shifts (d + e) f g" and "\<And>p. p \<noteq> a \<Longrightarrow> h p \<le> g p" and "h a + e \<le> g a"
  shows "shifts d f h"
proof -
  obtain P where P: "finite P" "{a} \<subseteq> P" "\<forall>p. p \<notin> P \<longrightarrow> g p \<le> f p" "sum g P \<le> sum f P + (d + e)"
    using shifts_on [OF assms(1)] by (metis finite.emptyI finite_insert)
  have "sum h (P - {a}) \<le> sum g (P - {a})" using assms(2) by (intro sum_mono) simp
  then have "sum h P + e \<le> sum g P"
    using assms(3) sum.remove [OF P(1), of a h] sum.remove [OF P(1), of a g] P(2) by simp
  moreover have "\<forall>p. p \<notin> P \<longrightarrow> h p \<le> f p" using P(2,3) assms(2) by (metis insert_subset order.trans)
  ultimately show ?thesis unfolding shifts_def using P(1,4) by (intro exI [of _ P]) simp
qed

text \<open>Some places among more.\<close>

lemma shifts_embed:
  assumes "shifts d f g" and "inj e" and "\<And>p. F (e p) = f p" and "\<And>p. G (e p) = g p" and "\<And>q. q \<notin> range e \<Longrightarrow> G q \<le> F q"
  shows "shifts d F G"
proof -
  from assms(1) obtain P where P: "finite P" "\<forall>p. p \<notin> P \<longrightarrow> g p \<le> f p" "sum g P \<le> sum f P + d" by (auto simp: shifts_def)
  have "sum F (e ` P) = sum f P" "sum G (e ` P) = sum g P"
    using assms(2-4) by (simp_all add: sum.reindex inj_on_subset [OF assms(2)] o_def)
  moreover have "G q \<le> F q" if "q \<notin> e ` P" for q
    using that P(2) assms(3-5) by (cases "q \<in> range e") auto
  ultimately show ?thesis unfolding shifts_def using P(1,3) by (intro exI [of _ "e ` P"]) simp
qed

subsection \<open>Copies of a message\<close>

type_synonym load = "(string \<times> string) list \<times> bytes"

definition hit :: "load \<Rightarrow> Frame \<Rightarrow> nat" where
  "hit x f = (if payload f = x then 1 else 0)"

definition send_hit :: "load \<Rightarrow> Frame \<Rightarrow> nat" where
  "send_hit x f = (if Command f = SEND then hit x f else 0)"

definition wire_hit :: "load \<Rightarrow> Frame option \<Rightarrow> nat" where
  "wire_hit x fo = (case fo of None \<Rightarrow> 0 | Some f \<Rightarrow> if Command f = MESSAGE then hit x f else 0)"

definition sub_hit :: "load \<Rightarrow> Subscription \<Rightarrow> nat" where
  "sub_hit x sub = (case sub_frame sub of None \<Rightarrow> 0 | Some f \<Rightarrow> hit x f)"

fun req_hit :: "load \<Rightarrow> Request \<Rightarrow> nat" where
  "req_hit x (EnqueueOp f) = hit x f"
| "req_hit x (RequeueOp fo) = (case fo of None \<Rightarrow> 0 | Some f \<Rightarrow> hit x f)"
| "req_hit x r = 0"

fun out_hit :: "load \<Rightarrow> sub_store \<Rightarrow> Delivery \<Rightarrow> nat" where
  "out_hit x st (ToSubChannel c s) = sub_hit x (st s)"
| "out_hit x st (ToWriteChannel c f) = hit x f"

definition tx_hit :: "load \<Rightarrow> txStore \<Rightarrow> string \<Rightarrow> nat" where
  "tx_hit x txs tx = (case tx_lookup txs tx of None \<Rightarrow> 0 | Some l \<Rightarrow> sum_list (map (send_hit x) l))"

text \<open>The places of a connection. The frames that are on its wire, and the requests it has still to send, come with it.\<close>

datatype spot = Reads | Writes | Chan | Tx string | Pend | Wire

fun conn_copies :: "load \<Rightarrow> sub_store \<Rightarrow> Frame option list \<Rightarrow> Request list \<Rightarrow> 'a Conn_scheme \<Rightarrow> spot \<Rightarrow> nat" where
  "conn_copies x st fos rs k Reads = sum_list (map (send_hit x) (c_readChannel k))"
| "conn_copies x st fos rs k Writes = sum_list (map (hit x) (c_writeChannel k))"
| "conn_copies x st fos rs k Chan = sum_list (map (\<lambda>s. sub_hit x (st s)) (c_subChannel k))"
| "conn_copies x st fos rs k (Tx tx) = tx_hit x (c_txStore k) tx"
| "conn_copies x st fos rs k Pend = sum_list (map (req_hit x) rs)"
| "conn_copies x st fos rs k Wire = sum_list (map (wire_hit x) fos)"

abbreviation view_copies :: "load \<Rightarrow> Frame option list \<Rightarrow> View \<Rightarrow> spot \<Rightarrow> nat" where
  "view_copies x fos v \<equiv> conn_copies x (v_store v) fos (v_req v) v"

abbreviation wire_is :: "Frame option list \<Rightarrow> bufio_writer \<Rightarrow> bool" where
  "wire_is fos w \<equiv> wrote (\<lambda>_. True) fos w"

text \<open>
  What a turn does with the copies: it brings \<open>d\<close> of them into the connection at most, and none into any subscription.
\<close>

definition no_acks :: "sub_store \<Rightarrow> bool" where
  "no_acks st \<longleftrightarrow> (\<forall>s. sub_ack (st s) = AckAuto)"

definition brings :: "load \<Rightarrow> nat \<Rightarrow> View \<Rightarrow> View \<Rightarrow> bool" where
  "brings x d v v' \<longleftrightarrow>
     c_subList v' = c_subList v \<and> (\<forall>s. sub_hit x (v_store v' s) \<le> sub_hit x (v_store v s)) \<and>
     (no_acks (v_store v) \<longrightarrow> no_acks (v_store v')) \<and>
     (\<forall>fos. wire_is fos (c_writer v) \<longrightarrow>
        (\<exists>fos'. wire_is fos' (c_writer v') \<and> shifts d (view_copies x fos v) (view_copies x fos' v')))"

lemma brings_refl: "brings x 0 v v"
  by (auto simp: brings_def intro: shifts_le)

lemma brings_trans: "brings x d v1 v2 \<Longrightarrow> brings x e v2 v3 \<Longrightarrow> brings x (d + e) v1 v3"
  unfolding brings_def by (metis order.trans shifts_trans)

lemma brings_upds [simp]:
  "brings x d v (v'\<lparr>c_timer := b\<rparr>) = brings x d v v'" "brings x d v (v'\<lparr>c_lastMsgId := i\<rparr>) = brings x d v v'"
  "brings x d v (v'\<lparr>c_state := s\<rparr>) = brings x d v v'" "brings x d v (v'\<lparr>c_version := ver\<rparr>) = brings x d v v'"
  "brings x d v (v'\<lparr>c_validator := vd\<rparr>) = brings x d v v'" "brings x d v (v'\<lparr>c_writeTimeout := t\<rparr>) = brings x d v v'"
  "brings x d v (v'\<lparr>c_subs := m\<rparr>) = brings x d v v'" "brings x d v (v'\<lparr>c_pc := pc\<rparr>) = brings x d v v'"
  "brings x d v (v'\<lparr>c_rwClosed := b\<rparr>) = brings x d v v'" "brings x d (v\<lparr>c_timer := b\<rparr>) v' = brings x d v v'"
proof -
  have e: "view_copies x fos (u\<lparr>c_timer := b\<rparr>) = view_copies x fos u" "view_copies x fos (u\<lparr>c_lastMsgId := i\<rparr>) = view_copies x fos u"
    "view_copies x fos (u\<lparr>c_state := s\<rparr>) = view_copies x fos u" "view_copies x fos (u\<lparr>c_version := ver\<rparr>) = view_copies x fos u"
    "view_copies x fos (u\<lparr>c_validator := vd\<rparr>) = view_copies x fos u" "view_copies x fos (u\<lparr>c_writeTimeout := t\<rparr>) = view_copies x fos u"
    "view_copies x fos (u\<lparr>c_subs := m\<rparr>) = view_copies x fos u" "view_copies x fos (u\<lparr>c_pc := pc\<rparr>) = view_copies x fos u"
    "view_copies x fos (u\<lparr>c_rwClosed := b\<rparr>) = view_copies x fos u" for fos u
    by (rule ext, rename_tac p, case_tac p; simp)+
  show "brings x d v (v'\<lparr>c_timer := b\<rparr>) = brings x d v v'" "brings x d v (v'\<lparr>c_lastMsgId := i\<rparr>) = brings x d v v'"
    "brings x d v (v'\<lparr>c_state := s\<rparr>) = brings x d v v'" "brings x d v (v'\<lparr>c_version := ver\<rparr>) = brings x d v v'"
    "brings x d v (v'\<lparr>c_validator := vd\<rparr>) = brings x d v v'" "brings x d v (v'\<lparr>c_writeTimeout := t\<rparr>) = brings x d v v'"
    "brings x d v (v'\<lparr>c_subs := m\<rparr>) = brings x d v v'" "brings x d v (v'\<lparr>c_pc := pc\<rparr>) = brings x d v v'"
    "brings x d v (v'\<lparr>c_rwClosed := b\<rparr>) = brings x d v v'" "brings x d (v\<lparr>c_timer := b\<rparr>) v' = brings x d v v'"
    using e by (simp_all add: brings_def)
qed

lemma shifts_more: "shifts 0 f g \<Longrightarrow> shifts d f g"
  using shifts_trans [of 0 f g d g] shifts_le [of g g d] by simp

lemma brings_more: "brings x 0 v v' \<Longrightarrow> brings x d v v'"
  unfolding brings_def by (meson shifts_more)

text \<open>The single effects.\<close>

lemma brings_then: "brings x d v u \<Longrightarrow> brings x 0 u v' \<Longrightarrow> brings x d v v'" "brings x 0 v u \<Longrightarrow> brings x d u v' \<Longrightarrow> brings x d v v'"
  using brings_trans [of x d v u 0 v'] brings_trans [of x 0 v u d v'] by simp_all

lemma brings_write: "sendImmediately fo v = (err, v') \<Longrightarrow> brings x (wire_hit x fo) v v'"
proof -
  assume s: "sendImmediately fo v = (err, v')"
  obtain w where w: "Writer_Write fo (c_writer v) = (err, w)" "v' = v\<lparr>c_writer := w\<rparr>"
    using s by (auto simp: sendImmediately_def split: prod.splits)
  have "shifts (wire_hit x fo) (view_copies x fos v) (view_copies x (if err = None then fos @ [fo] else fos) v')" for fos
  proof (rule shifts_one [where a = Wire])
    fix p assume "p \<noteq> Wire"
    then show "view_copies x (if err = None then fos @ [fo] else fos) v' p \<le> view_copies x fos v p" by (cases p) (simp_all add: w)
  qed simp
  with wrote_Write [OF _ _ w(1), of "\<lambda>_. True"] show ?thesis by (auto simp: brings_def w(2))
qed

lemma brings_request: "brings x (req_hit x r) v (send_request r v)"
proof -
  have "shifts (req_hit x r) (view_copies x fos v) (view_copies x fos (send_request r v))" for fos
  proof (rule shifts_one [where a = Pend])
    fix p assume "p \<noteq> Pend"
    then show "view_copies x fos (send_request r v) p \<le> view_copies x fos v p" by (cases p) (simp_all add: send_request_def)
  qed (simp add: send_request_def)
  then show ?thesis by (auto simp: brings_def send_request_def)
qed

lemma shifts_put:
  assumes "\<And>t. t \<noteq> tx \<Longrightarrow> tx_hit x txs t \<le> tx_hit x (c_txStore v) t"
  shows "p \<noteq> Tx tx \<Longrightarrow> view_copies x fos (put_tx txs v) p \<le> view_copies x fos v p"
    "view_copies x fos (put_tx txs v) (Tx tx) = tx_hit x txs tx"
  using assms by (cases p) (simp_all add: put_tx_def)

lemma brings_put:
  assumes "\<And>t. t \<noteq> tx \<Longrightarrow> tx_hit x txs t \<le> tx_hit x (c_txStore v) t" and "tx_hit x txs tx \<le> tx_hit x (c_txStore v) tx + d"
  shows "brings x d v (put_tx txs v)"
proof -
  have "shifts d (view_copies x fos v) (view_copies x fos (put_tx txs v))" for fos
    by (rule shifts_one [where a = "Tx tx"]) (use shifts_put [OF assms(1)] assms(2) in simp_all)
  then show ?thesis by (auto simp: brings_def put_tx_def)
qed

lemma brings_back:
  assumes "brings x (d + e) v u" and "\<And>t. t \<noteq> tx \<Longrightarrow> tx_hit x txs t \<le> tx_hit x (c_txStore u) t"
    and "tx_hit x txs tx + e \<le> tx_hit x (c_txStore u) tx"
  shows "brings x d v (put_tx txs u)"
proof -
  have "shifts d (view_copies x fos v) (view_copies x fos' (put_tx txs u))"
    if "shifts (d + e) (view_copies x fos v) (view_copies x fos' u)" for fos fos'
    by (rule shifts_back [OF that, where a = "Tx tx"]) (use shifts_put [OF assms(2)] assms(3) in simp_all)
  with assms(1) show ?thesis unfolding brings_def by (simp add: put_tx_def) meson
qed

lemma brings_store:
  assumes "\<And>s. sub_hit x (st s) \<le> sub_hit x (v_store v s)" and "no_acks (v_store v) \<Longrightarrow> no_acks st"
  shows "brings x 0 v (v\<lparr>v_store := st\<rparr>)" "brings x 0 v (v\<lparr>v_fresh := n, v_store := st\<rparr>)"
proof -
  have "view_copies x fos (v\<lparr>v_store := st\<rparr>) p \<le> view_copies x fos v p"
    "view_copies x fos (v\<lparr>v_fresh := n, v_store := st\<rparr>) p \<le> view_copies x fos v p" for fos p
    using assms(1) by (cases p; simp add: sum_list_mono)+
  with assms show "brings x 0 v (v\<lparr>v_store := st\<rparr>)" "brings x 0 v (v\<lparr>v_fresh := n, v_store := st\<rparr>)"
    by (auto simp: brings_def intro!: shifts_le)
qed

subsection \<open>Handlers\<close>

lemma hit_Del: "header_ok (Hdr f) \<Longrightarrow> k \<in> set transit_headers \<Longrightarrow> hit x (f\<lparr>Hdr := Header_Del (Hdr f) k\<rparr>) = hit x f"
  by (simp add: hit_def payload_Del)

lemma hit_Set: "header_ok (Hdr f) \<Longrightarrow> k \<in> set transit_headers \<Longrightarrow> hit x (f\<lparr>Hdr := Header_Set (Hdr f) k y\<rparr>) = hit x f"
  by (simp add: hit_def payload_Set)

lemma hit_Command [simp]: "hit x (f\<lparr>Command := y\<rparr>) = hit x f"
  by (simp add: hit_def)

lemma receipt_brings:
  assumes "sendReceiptImmediately f v = (err, f', v')" and "header_ok (Hdr f)"
  shows "brings x 0 v v'" "hit x f' = hit x f" "send_hit x f' = send_hit x f"
proof -
  note r = sendReceipt_Contains [OF assms] sendReceipt_frame [OF assms(1)]
  show h: "hit x f' = hit x f" using r hit_Del [OF assms(2), of Receipt x] by auto
  then show "send_hit x f' = send_hit x f" using r by (simp add: send_hit_def)
  have "brings x 0 v u" if "sendImmediately (Some (mk_frame RECEIPT [(ReceiptId, y)])) v = (e, u)" for y e u
    using brings_write [OF that, of x] by (simp add: wire_hit_def)
  with assms(1) show "brings x 0 v v'"
    by (auto simp: sendReceiptImmediately_def Let_def brings_refl split: option.splits prod.splits)
qed

lemma store_in_tx_brings:
  assumes "header_ok (Hdr f)" and "store_in_tx tx f v = (err, f', v')"
  shows "brings x (send_hit x f) v v'"
proof -
  obtain e txs where a: "tx_Add tx f (c_txStore v) = (e, txs)" by fastforce
  have "send_hit x (f\<lparr>Hdr := Header_Del (Hdr f) Transaction\<rparr>) = send_hit x f" using hit_Del [OF assms(1), of Transaction] by (simp add: send_hit_def)
  then have "brings x (send_hit x f) v (put_tx txs v)"
    using tx_Add_lookup [OF a] by (intro brings_put [where tx = tx]) (auto simp: tx_hit_def)
  moreover have "v' = put_tx txs v" using a assms(2) by (auto simp: store_in_tx_def split: option.splits)
  ultimately show ?thesis by simp
qed

lemma handleSend_brings:
  assumes "header_ok (Hdr f)" and "Command f = SEND" and "handleSend f v = (err, f', v')"
  shows "brings x (send_hit x f) v v'"
proof -
  obtain e g u where r: "sendReceiptImmediately f v = (e, g, u)" using prod_cases3 by blast
  note g = receipt_brings [OF r assms(1), of x] sendReceipt_Contains [OF r assms(1)]
  have "brings x (send_hit x f) v (send_request (EnqueueOp (g\<lparr>Command := MESSAGE\<rparr>)) u)"
    using brings_then(2) [OF g(1) brings_request [of x "EnqueueOp (g\<lparr>Command := MESSAGE\<rparr>)" u]] g(2) assms(2) by (simp add: send_hit_def)
  moreover have "brings x (send_hit x f) v v'" if "store_in_tx tx g u = (err, f', v')" for tx
    using brings_then(2) [OF g(1) store_in_tx_brings [OF g(4) that, of x]] g(3) by simp
  moreover have "brings x (send_hit x f) v u" by (rule brings_more [OF g(1)])
  ultimately show ?thesis
    using assms(3) r by (auto simp: handleSend_def Let_def split: option.splits)
qed

lemma handleAck_brings:
  assumes "header_ok (Hdr f)" and "Command f = ACK" and "c_subList v = []" and "handleAck f v = Ret (err, f', v')"
  shows "brings x 0 v v'"
proof -
  obtain e g u where r: "sendReceiptImmediately f v = (e, g, u)" using prod_cases3 by blast
  note g = receipt_brings [OF r assms(1), of x] sendReceipt_Contains [OF r assms(1)]
  have "c_subList u = []" using g(1) assms(3) by (simp add: brings_def)
  moreover from this have "u\<lparr>c_subList := []\<rparr> = u" by (cases u) simp
  then have "brings x 0 v (u\<lparr>c_subList := []\<rparr>)" by (simp only: g(1))
  moreover have "brings x 0 v v'" if "store_in_tx tx g u = (err, f', v')" for tx
    using brings_then(2) [OF g(1) store_in_tx_brings [OF g(4) that, of x]] g(7) assms(2) by (simp add: send_hit_def)
  ultimately show ?thesis
    using assms(4) r g(1) by (auto simp: handleAck_def brings_refl split: option.splits sum.splits)
qed

lemma handleNack_brings:
  assumes "header_ok (Hdr f)" and "Command f = NACK" and "c_subList v = []" and "handleNack f v = (err, f', v')"
  shows "brings x 0 v v'"
proof -
  obtain e g u where r: "sendReceiptImmediately f v = (e, g, u)" using prod_cases3 by blast
  note g = receipt_brings [OF r assms(1), of x] sendReceipt_Contains [OF r assms(1)]
  have "c_subList u = []" using g(1) assms(3) by (simp add: brings_def)
  moreover from this have "u\<lparr>c_subList := []\<rparr> = u" by (cases u) simp
  then have "brings x 0 v (u\<lparr>c_subList := []\<rparr>)" by (simp only: g(1))
  moreover have "brings x 0 v v'" if "store_in_tx tx g u = (err, f', v')" for tx
    using brings_then(2) [OF g(1) store_in_tx_brings [OF g(4) that, of x]] g(7) assms(2) by (simp add: send_hit_def)
  ultimately show ?thesis
    using assms(4) r g(1) by (auto simp: handleNack_def brings_refl split: option.splits sum.splits)
qed

lemma connecting_brings:
  assumes "connecting cfg f v = (err, f', v')"
  shows "brings x 0 v v'"
proof (cases "connect_ok cfg f")
  case True
  obtain e u where u: "sendImmediately (Some (connected_frame cfg f)) v = (e, u)" by fastforce
  have "brings x 0 v u" using brings_write [OF u, of x] by (simp add: wire_hit_def connected_frame_def split: prod.splits)
  then have "brings x 0 v (send_request (ConnectedOp (c_self v)) u)"
    using brings_then(2) brings_request [of x "ConnectedOp (c_self v)"] by simp
  moreover obtain w where "connecting cfg f v = (None, f, v\<lparr>c_version := fst (determineVersion f), c_validator := Some validatorNull,
      c_writeTimeout := negotiated cfg (fst (snd (getHeartBeat f))) * Millisecond, c_writer := w,
      c_state := Connected, v_req := v_req v @ [ConnectedOp (c_self v)]\<rparr>)" "u = v\<lparr>c_writer := w\<rparr>"
    using u by (rule_tac connecting_accepts [OF True, of v]) (auto simp: sendImmediately_def split: prod.splits)
  moreover have "view_copies x fos (v\<lparr>c_version := ver, c_validator := vd, c_writeTimeout := wt, c_writer := w, c_state := Connected, v_req := rs\<rparr>) =
      view_copies x fos (v\<lparr>c_writer := w, v_req := rs\<rparr>)" for fos ver vd wt w rs
    by (rule ext, rename_tac p, case_tac p) simp_all
  ultimately show ?thesis using assms by (auto simp: send_request_def brings_def)
next
  case False
  with assms show ?thesis by (rule_tac connecting_rejects [OF False, of v]) (auto simp: brings_refl)
qed

lemma plain_brings:
  assumes "tx_plain f" and "c_subList v = []" and "commit_func (run_state (Suc n) cfg) f v = Ret (err, v')"
  shows "brings x (send_hit x f) v v'"
proof -
  from assms(1) have ok: "header_ok (Hdr f)" and c: "Command f = SEND \<or> Command f = ACK \<or> Command f = NACK"
    by (auto simp: tx_plain_def tx_frame_ok_def)
  have "brings x (send_hit x f) v v'" if "connecting cfg f v = (err, f', v')" for f'
    by (rule brings_more [OF connecting_brings [OF that]])
  then show ?thesis
    using assms(3) c handleSend_brings [OF ok, where x = x] handleAck_brings [OF ok _ assms(2), where x = x, THEN brings_more]
      handleNack_brings [OF ok _ assms(2), where x = x, THEN brings_more]
    by (auto simp: commit_func_def go_bind_eq_Ret connected_def split: ConnState.splits)
qed

text \<open>A commit turns the copies that a transaction holds into requests.\<close>

lemma run_frames_brings:
  "list_all tx_plain l \<Longrightarrow> c_subList v = [] \<Longrightarrow> run_frames (commit_func (run_state (Suc n) cfg)) l v = Ret (err, rest, v') \<Longrightarrow>
   \<exists>e. brings x e v v' \<and> e + sum_list (map (send_hit x) rest) \<le> sum_list (map (send_hit x) l) \<and> c_txStore v' = c_txStore v"
proof (induction l arbitrary: v)
  case Nil
  then show ?case by (auto intro!: brings_refl)
next
  case (Cons f l)
  then obtain e u where s: "commit_func (run_state (Suc n) cfg) f v = Ret (e, u)"
    by (auto simp del: run_state.simps split: go.splits prod.splits)
  have u: "brings x (send_hit x f) v u" by (rule plain_brings [OF _ Cons.prems(2) s]) (use Cons.prems(1) in simp)
  have tx: "c_txStore u = c_txStore v" by (rule conn_tx.step_get [OF _ s]) (use Cons.prems(1) in \<open>simp add: tx_plain_def\<close>)
  show ?case
  proof (cases e)
    case None
    with Cons.prems s u have "\<exists>e. brings x e u v' \<and> e + sum_list (map (send_hit x) rest) \<le> sum_list (map (send_hit x) l) \<and> c_txStore v' = c_txStore u"
      by (intro Cons.IH) (simp_all add: brings_def del: run_state.simps)
    with tx brings_trans [OF u] show ?thesis by (metis (no_types, lifting) add.assoc list.simps(9) nat_add_left_cancel_le sum_list.Cons)
  next
    case (Some y)
    with Cons.prems s u tx show ?thesis by (auto simp del: run_state.simps)
  qed
qed

lemma handleCommit_brings:
  assumes "header_ok (Hdr f)" and "c_subList v = []" and "tx_polite (c_txStore v)"
    and "handleCommit (run_state (Suc 0) cfg) f v = Ret (err, f', v')"
  shows "brings x 0 v v'"
proof -
  obtain e g u where r: "sendReceiptImmediately f v = (e, g, u)" using prod_cases3 by blast
  note g = receipt_brings(1) [OF r assms(1), of x]
  have u: "c_txStore u = c_txStore v" "c_subList u = []" using sendReceipt_frame [OF r] assms(2) by auto
  have "brings x 0 v v''" if c: "tx_Commit c_txStore put_tx tx (commit_func (run_state (Suc 0) cfg)) u = Ret (e', v'')" for tx e' v''
  proof (cases "tx_lookup (c_txStore u) tx")
    case None
    with c g show ?thesis by (simp add: tx_Commit_def)
  next
    case (Some l)
    then have l: "list_all tx_plain l" using assms(3) u(1) by (auto simp: tx_polite_def list_all_iff)
    have inv: "tx_inv (c_txStore u)" using assms(3) u(1) by (simp add: tx_plain_tx_inv tx_polite_plain)
    from c conn_tx.commit_run [OF inv Some, of 0 cfg] obtain rest u'
      where run: "run_frames (commit_func (run_state (Suc 0) cfg)) l u = Ret (e', rest, u')"
        and v'': "v'' = put_tx (tx_assign tx (case e' of None \<Rightarrow> None | Some y \<Rightarrow> Some rest) (c_txStore u)) u'"
      by (auto simp del: run_state.simps split: go.splits prod.splits option.splits)
    from run_frames_brings [OF l u(2) run] obtain d where d: "brings x d u u'"
      "d + sum_list (map (send_hit x) rest) \<le> sum_list (map (send_hit x) l)" "c_txStore u' = c_txStore u" by blast
    have "brings x (0 + d) v u'" using brings_trans [OF g d(1)] by simp
    then show ?thesis unfolding v''
      by (rule brings_back [where tx = tx]) (use Some d(2,3) in \<open>auto simp: tx_hit_def split: option.splits\<close>)
  qed
  then show ?thesis
    using assms(4) r g brings_refl
    by (auto simp: handleCommit_def go_bind_eq_Ret simp del: run_state.simps split: option.splits)
qed

definition plain_subscribe :: "Frame \<Rightarrow> bool" where
  "plain_subscribe f \<longleftrightarrow> (Command f = SUBSCRIBE \<longrightarrow> Header_Contains (Hdr f) AckHdr \<in> {None, Some AckAuto})"

lemma handleSubscribe_brings:
  assumes "plain_subscribe f" and "Command f = SUBSCRIBE" and "handleSubscribe f v = (err, f', v')"
  shows "brings x 0 v v'"
proof -
  let ?ack = "case Header_Contains (Hdr f) AckHdr of Some a \<Rightarrow> a | None \<Rightarrow> AckAuto"
  have ack: "?ack = AckAuto" using assms(1,2) by (auto simp: plain_subscribe_def)
  have "brings x 0 v (v\<lparr>v_fresh := Suc (v_fresh v), v_store := (v_store v)(v_fresh v := newSubscription (c_self v) dest i AckAuto)\<rparr>)" for dest i
    by (rule brings_store(2)) (simp_all add: newSubscription_def sub_hit_def no_acks_def)
  then have "brings x 0 v (send_request (SubscribeOp (v_fresh v)) (v\<lparr>v_fresh := Suc (v_fresh v),
      v_store := (v_store v)(v_fresh v := newSubscription (c_self v) dest i AckAuto), c_subs := m\<rparr>))" for dest i m
    using brings_then(2) brings_request [of x "SubscribeOp (v_fresh v)"] brings_upds(7) by (metis req_hit.simps(3))
  with assms(3) ack brings_refl show ?thesis
    by (auto simp: handleSubscribe_def Let_def simp del: fun_upd_apply split: option.splits if_splits)
qed

lemma stateFunc_brings:
  assumes f: "header_ok (Hdr f)" "plain_subscribe f" and v: "c_subList v = []" "tx_polite (c_txStore v)"
    and r: "stateFunc cfg f v = Ret (err, f', v')"
  shows "brings x (send_hit x f) v v'"
proof (cases "c_state v")
  case Connecting
  with r connecting_brings [where x = x, THEN brings_more] show ?thesis by (auto simp: connecting_state)
next
  case Connected
  have tx: "brings x 0 v (put_tx txs u)" if "brings x 0 v u" "c_txStore u = c_txStore v" "\<And>t. tx_hit x txs t \<le> tx_hit x (c_txStore v) t" for txs u
    by (rule brings_then(1) [OF that(1) brings_put]) (use that(2,3) in simp_all)
  have rc: "brings x 0 v u \<and> c_txStore u = c_txStore v" if "sendReceiptImmediately f v = (e, g, u)" for e g u
    using receipt_brings(1) [OF that f(1), of x] sendReceipt_frame [OF that] by auto
  note refl = brings_refl [of x v]
  have begin_hit: "tx_hit x txs' t \<le> tx_hit x txs t" if "tx_Begin tx txs = (e, txs')" for tx txs e txs' t
    using tx_Begin_lookup [OF that] by (auto simp: tx_hit_def)
  have abort_hit: "tx_hit x txs' t \<le> tx_hit x txs t" if "tx_Abort tx txs = (e, txs')" for tx txs e txs' t
    using tx_Abort_lookup [OF that] by (auto simp: tx_hit_def)
  have "brings x 0 v v'" if "handleDisconnect f v = (err, f', v')"
    using that rc by (auto simp: handleDisconnect_def split: prod.splits)
  moreover have "brings x 0 v v'" if "handleBegin f v = (err, f', v')"
  proof -
    obtain e g u where s: "sendReceiptImmediately f v = (e, g, u)" using prod_cases3 by blast
    show ?thesis using that s rc [OF s] refl tx [of u] begin_hit
      by (auto simp: handleBegin_def split: option.splits prod.splits)
  qed
  moreover have "brings x 0 v v'" if "handleAbort f v = (err, f', v')"
  proof -
    obtain e g u where s: "sendReceiptImmediately f v = (e, g, u)" using prod_cases3 by blast
    show ?thesis using that s rc [OF s] refl tx [of u] abort_hit
      by (auto simp: handleAbort_def split: option.splits prod.splits)
  qed
  moreover have "brings x 0 v v'" if "handleUnsubscribe f v = (err, f', v')"
  proof -
    have "brings x 0 v (send_request (UnsubscribeOp s) (v\<lparr>c_subs := m\<rparr>))" for s m
      using brings_then(2) [OF _ brings_request [of x "UnsubscribeOp s"], of v "v\<lparr>c_subs := m\<rparr>"] refl by simp
    with that refl show ?thesis by (auto simp: handleUnsubscribe_def split: option.splits)
  qed
  ultimately have "Command f \<noteq> SEND \<Longrightarrow> brings x 0 v v'"
    using r handleCommit_brings [OF f(1) v, where x = x] handleSubscribe_brings [OF f(2), where x = x]
      handleAck_brings [OF f(1) _ v(1), where x = x] handleNack_brings [OF f(1) _ v(1), where x = x] refl
    by (auto simp: stateFunc_connected [OF Connected] connected_def simp del: run_state.simps split: if_splits)
  then show ?thesis
    using r handleSend_brings [OF f(1), where x = x] brings_more
    by (cases "Command f = SEND") (auto simp: stateFunc_connected [OF Connected] connected_def simp del: run_state.simps)
qed

subsection \<open>Turns of the loop\<close>

lemma brings_mono: "brings x d v v' \<Longrightarrow> d \<le> e \<Longrightarrow> brings x e v v'"
  using brings_trans [of x d v v' "e - d" v'] brings_more [OF brings_refl [of x v'], of "e - d"] by simp

lemma wire_hit_le: "wire_hit x (Some f) \<le> hit x f"
  by (simp add: wire_hit_def)

lemma hit_allocate:
  assumes "header_ok (Hdr f)" and "allocateMessageId f sub v = (f', v')"
  shows "hit x f' = hit x f"
proof -
  have "payload (f\<lparr>Hdr := Header_Set h k y\<rparr>) = payload (f\<lparr>Hdr := h\<rparr>)" "payload (f\<lparr>Hdr := Header_Del h k\<rparr>) = payload (f\<lparr>Hdr := h\<rparr>)"
    if "header_ok h" "k \<in> set transit_headers" for h k y
    using that payload_Set [of "f\<lparr>Hdr := h\<rparr>" k y] payload_Del [of "f\<lparr>Hdr := h\<rparr>" k] by simp_all
  with assms have "payload f' = payload f" by (auto simp: allocateMessageId_def Let_def split: if_splits)
  then show ?thesis by (simp add: hit_def)
qed

lemma sendError_brings: "brings x 0 v (sendErrorImmediately quote err fo v)"
proof -
  let ?e = "mk_frame ERROR [(MessageHdr, Error_text quote err)]"
  have w: "brings x 0 v (snd (sendImmediately (Some f) v))" if "Command f = ERROR" for f
    using brings_write [OF prod.collapse [symmetric], where x = x and fo = "Some f" and v = v] that by (simp add: wire_hit_def)
  from w [of ?e] w [of "?e\<lparr>Hdr := h\<rparr>" for h] show ?thesis by (auto simp: sendErrorImmediately_def Let_def split: option.splits)
qed

lemma on_read_brings:
  assumes "header_ok (Hdr f)" and "plain_subscribe f" and "c_subList v = []" and "tx_polite (c_txStore v)"
    and "on_read quote cfg f v = Ret (b, v')"
  shows "brings x (send_hit x f) v v'"
  using assms(5) stateFunc_brings [OF assms(1-4), of cfg _ _ _ x] brings_then(1) [OF _ sendError_brings [of x]]
  by (auto simp: on_read_state go_bind_eq_Ret split: option.splits)

lemma on_write_brings:
  assumes "header_ok (Hdr f)"
  shows "brings x (hit x f) v (snd (on_write f v))"
proof -
  obtain f' v1 where a: "allocateMessageId f None (v\<lparr>c_timer := False\<rparr>) = (f', v1)" by fastforce
  obtain n where v1: "v1 = v\<lparr>c_timer := False, c_lastMsgId := n\<rparr>"
    using allocateMessageId_view [of f None "v\<lparr>c_timer := False\<rparr>"] a by auto
  obtain err v2 where w: "sendImmediately (Some f') v1 = (err, v2)" by fastforce
  have "brings x (hit x f) v1 v2"
    using brings_mono [OF brings_write [OF w, of x] wire_hit_le] hit_allocate [OF assms a, of x] by simp
  moreover have "brings x 0 v v1" by (simp add: v1 brings_refl)
  ultimately have "brings x (hit x f) v v2" using brings_then(2) by blast
  with a w show ?thesis by (simp add: on_write_def)
qed

lemma on_sub_brings:
  assumes ok: "\<And>f. sub_frame (v_store v s) = Some f \<Longrightarrow> header_ok (Hdr f)" and auto: "no_acks (v_store v)"
    and r: "on_sub s v = Ret (b, v')"
  shows "brings x (sub_hit x (v_store v s)) v v'"
proof (cases "c_subs v (sub_id (v_store v s))")
  case None
  have "brings x (sub_hit x (v_store v s)) v (send_request (RequeueOp (sub_frame (v_store v s))) (v\<lparr>c_timer := False\<rparr>))"
    using brings_then(2) [OF _ brings_request [of x "RequeueOp (sub_frame (v_store v s))"], of v "v\<lparr>c_timer := False\<rparr>"]
    by (simp add: brings_refl sub_hit_def)
  with None r show ?thesis by (simp add: on_sub_def)
next
  case (Some y)
  let ?sub = "v_store v s"
  from Some r obtain f where f: "sub_frame ?sub = Some f" by (auto simp: on_sub_def Let_def split: option.splits)
  obtain f' v1 where a: "allocateMessageId f (Some ?sub) (v\<lparr>c_timer := False\<rparr>) = (f', v1)" by fastforce
  obtain n where v1: "v1 = v\<lparr>c_timer := False, c_lastMsgId := n\<rparr>"
    using allocateMessageId_view [of f "Some ?sub" "v\<lparr>c_timer := False\<rparr>"] a by auto
  have h: "hit x f' = hit x f" "sub_hit x ?sub = hit x f" using hit_allocate [OF ok [OF f] a] f by (simp_all add: sub_hit_def)
  let ?v2 = "v1\<lparr>v_store := (v_store v)(s := ?sub\<lparr>sub_frame := Some f'\<rparr>)\<rparr>"
  have "brings x 0 v1 ?v2" by (rule brings_store(1)) (use f h(1) auto in \<open>simp_all add: v1 sub_hit_def no_acks_def\<close>)
  then have v2: "brings x 0 v ?v2" by (rule brings_then(2) [rotated]) (simp add: v1 brings_refl)
  obtain err v3 where w: "sendImmediately (Some f') ?v2 = (err, v3)" by fastforce
  have v3: "brings x (hit x f) v v3"
    using brings_then(2) [OF v2 brings_mono [OF brings_write [OF w, of x] wire_hit_le]] h by simp
  obtain wr where v3': "v3 = ?v2\<lparr>c_writer := wr\<rparr>" using sendImmediately_frame [OF w] by blast
  have "brings x 0 v3 (v3\<lparr>v_store := (v_store v)(s := ?sub\<lparr>sub_frame := None\<rparr>)\<rparr>)"
    by (rule brings_store(1)) (use auto in \<open>simp_all add: v3' sub_hit_def no_acks_def\<close>)
  then have "brings x (hit x f) v (send_request (SubscribeOp s) (v3\<lparr>v_store := (v_store v)(s := ?sub\<lparr>sub_frame := None\<rparr>)\<rparr>))"
    using brings_then(1) [OF brings_then(1) [OF v3]] brings_request [of x "SubscribeOp s"] by simp
  moreover have "sub_ack ?sub = AckAuto" using auto by (simp add: no_acks_def)
  ultimately show ?thesis
    using r Some f a w v3 v3' h(2) by (auto simp: on_sub_def Let_def v1 simp del: fun_upd_apply split: if_splits)
qed

text \<open>What a turn takes in.\<close>

fun select_hit :: "load \<Rightarrow> sub_store \<Rightarrow> select_case \<Rightarrow> nat" where
  "select_hit x st (SelWrite (Some f)) = hit x f"
| "select_hit x st (SelRead (Some f)) = send_hit x f"
| "select_hit x st (SelSub (Some s)) = sub_hit x (st s)"
| "select_hit x st sel = 0"

fun select_plain :: "select_case \<Rightarrow> sub_store \<Rightarrow> bool" where
  "select_plain (SelWrite (Some f)) st = header_ok (Hdr f)"
| "select_plain (SelRead (Some f)) st = (header_ok (Hdr f) \<and> plain_subscribe f)"
| "select_plain (SelSub (Some s)) st = (\<forall>f. sub_frame (st s) = Some f \<longrightarrow> header_ok (Hdr f))"
| "select_plain sel st = True"

lemma turn_brings:
  assumes v: "c_subList v = []" "tx_polite (c_txStore v)" "no_acks (v_store v)" and sel: "select_plain sel (v_store v)"
    and r: "processLoop_turn quote cfg sel v = Ret (b, v')"
  shows "brings x (select_hit x (v_store v) sel) v v'"
proof -
  obtain tm where p: "loop_prologue v = v\<lparr>c_timer := tm\<rparr>" using prologue_timer by blast
  let ?v = "v\<lparr>c_timer := tm\<rparr>"
  have n: "brings x 0 u (snd (sendImmediately None u))" for u
    using brings_write [OF prod.collapse [symmetric], where x = x and fo = None and v = u] by (simp add: wire_hit_def)
  have t: "brings x 0 v (snd (on_timer ?v))"
    using n [of "?v"] n [of "?v\<lparr>c_timer := False\<rparr>"] n [of v] brings_refl [of x v]
    by (auto simp: on_timer_def split: prod.splits)
  consider "sel \<in> {SelWrite None, SelRead None, SelSub None}" | f where "sel = SelWrite (Some f)"
    | f where "sel = SelRead (Some f)" | s where "sel = SelSub (Some s)" | "sel = SelTimer"
    by (metis insertCI option.exhaust select_case.exhaust)
  then show ?thesis
  proof cases
    case 1
    then have "v' = ?v" using r p by (auto simp: processLoop_turn_def)
    with 1 brings_refl [of x v] show ?thesis by auto
  next
    case 2
    with r p sel on_write_brings [of f x ?v] show ?thesis by (auto simp: processLoop_turn_def)
  next
    case 3
    with r p v sel on_read_brings [of f ?v quote cfg b v' x] show ?thesis by (simp add: processLoop_turn_def)
  next
    case 4
    with r p v sel on_sub_brings [of ?v s b v' x] show ?thesis by (simp add: processLoop_turn_def)
  next
    case 5
    with r p t show ?thesis by (auto simp: processLoop_turn_def)
  qed
qed

subsection \<open>Closing a connection\<close>

lemma brings_less:
  assumes "c_subList v' = c_subList v" and "v_store v' = v_store v" and "c_writer v' = c_writer v"
    and "\<And>fos p. view_copies x fos v' p \<le> view_copies x fos v p"
  shows "brings x 0 v v'"
  using assms by (auto simp: brings_def intro!: shifts_le)

lemma drop_writes_brings: "brings x 0 v (discardWriteChannelFrames v)"
proof (rule brings_less)
  fix fos p show "view_copies x fos (discardWriteChannelFrames v) p \<le> view_copies x fos v p"
    by (cases p) (simp_all add: discardWriteChannelFrames_def)
qed (simp_all add: discardWriteChannelFrames_def)

lemma drain_one_brings:
  assumes "brings x 0 v finished"
  shows "brings x 0 v (drain_one k finished v)"
proof (cases "c_subChannel v")
  case Nil
  with assms show ?thesis by (simp add: drain_one_def)
next
  case (Cons s rest)
  let ?v = "send_request (RequeueOp (sub_frame (v_store v s))) (v\<lparr>c_subChannel := rest, c_pc := Cleanup k\<rparr>)"
  have "shifts 0 (view_copies x fos v) (view_copies x fos ?v)" for fos
  proof (rule shifts_two [where a = Chan and b = Pend])
    fix p assume "p \<notin> {Chan, Pend}"
    then show "view_copies x fos ?v p \<le> view_copies x fos v p" by (cases p) (simp_all add: send_request_def)
  qed (use Cons in \<open>simp_all add: send_request_def sub_hit_def split: option.splits\<close>)
  with Cons show ?thesis by (auto simp: drain_one_def brings_def send_request_def)
qed

lemma cleanup_brings:
  assumes "c_subList v = []"
  shows "brings x 0 v (cleanup_step order n v)"
proof -
  have fold: "brings x 0 v (fold (\<lambda>s v. send_request (UnsubscribeOp s) v) xs u)" if "brings x 0 v u" for xs u
    using that
  proof (induction xs arbitrary: u)
    case (Cons s xs)
    have "brings x 0 v (send_request (UnsubscribeOp s) u)" using brings_then(2) [OF Cons.prems brings_request [of x "UnsubscribeOp s"]] by simp
    with Cons.IH show ?case by simp
  qed simp
  have "brings x 0 v (put_tx (tx_Init (c_txStore v)) v)" by (rule brings_put) (simp_all add: tx_hit_def)
  then have 0: "brings x 0 v (cleanup_unsubscribe order v)"
    unfolding cleanup_unsubscribe_def Let_def by (intro fold brings_then(1) [OF _ drop_writes_brings])
  have 1: "brings x 0 v (cleanup_requeue v)"
  proof (rule brings_less)
    have e: "requeue_unacked [] st rs = (st, rs)" for st rs by (simp add: requeue_unacked.simps SL_Get_def)
    then show "c_subList (cleanup_requeue v) = c_subList v" "v_store (cleanup_requeue v) = v_store v" "c_writer (cleanup_requeue v) = c_writer v"
      using assms by (simp_all add: cleanup_requeue_def)
    fix fos p show "view_copies x fos (cleanup_requeue v) p \<le> view_copies x fos v p"
      using assms e by (cases p) (simp_all add: cleanup_requeue_def)
  qed
  have 2: "brings x 0 v (cleanup_disconnected v)"
    using brings_request [of x "DisconnectedOp (c_self v)" v] by (simp add: cleanup_disconnected_def)
  show ?thesis
    using 0 1 2 drop_writes_brings [of x v] drain_one_brings [of x v] brings_refl [of x v] by (simp add: cleanup_step_def)
qed

subsection \<open>The whole server\<close>

datatype site = InConn conn_ref spot | InReq | InStore string | InOut

fun copies :: "load \<Rightarrow> ('q \<Rightarrow> string \<Rightarrow> Frame list) \<Rightarrow> (conn_ref \<Rightarrow> Frame option list) \<Rightarrow> 'q ServerWorld \<Rightarrow> site \<Rightarrow> nat" where
  "copies x contents fos w (InConn c p) =
     (case sw_conns w c of None \<Rightarrow> 0 | Some k \<Rightarrow> conn_copies x (up_store (sw_upper w)) (fos c) (sw_pend w c) k p)"
| "copies x contents fos w InReq = sum_list (map (req_hit x) (sw_reqCh w))"
| "copies x contents fos w (InStore d) = sum_list (map (hit x) (contents (up_storage (sw_upper w)) d))"
| "copies x contents fos w InOut = sum_list (map (out_hit x (up_store (sw_upper w))) (sw_out w))"

definition accounted :: "load \<Rightarrow> ('q \<Rightarrow> string \<Rightarrow> Frame list) \<Rightarrow> (conn_ref \<Rightarrow> Frame option list) \<Rightarrow> nat \<Rightarrow> 'q ServerWorld \<Rightarrow> bool" where
  "accounted x contents fos n w \<longleftrightarrow>
     fits n (copies x contents fos w) \<and> no_acks (up_store (sw_upper w)) \<and>
     (\<forall>c. sw_conns w c = None \<longrightarrow> sw_pend w c = []) \<and>
     (\<forall>c k. sw_conns w c = Some k \<longrightarrow> c_subList k = [] \<and> wire_is (fos c) (c_writer k))"

lemma accounted_conn:
  "accounted x contents fos n w \<Longrightarrow> sw_conns w c = Some k \<Longrightarrow>
     c_subList k = [] \<and> wire_is (fos c) (c_writer k)"
  by (simp add: accounted_def)

lemma conn_copies_store:
  "(\<And>s. s \<in> set (c_subChannel k) \<Longrightarrow> sub_hit x (st' s) \<le> sub_hit x (st s)) \<Longrightarrow> conn_copies x st' fos rs k p \<le> conn_copies x st fos rs k p"
  by (cases p) (simp_all add: sum_list_mono)

lemma conn_copies_truncate: "conn_copies x st fos rs (Conn.truncate v) p = conn_copies x st fos rs v p"
  by (cases p) simp_all

lemma conn_copies_view: "conn_copies x st fos rs (world_view k w) p = conn_copies x st fos rs k p"
  by (cases p) simp_all

lemma out_hit_le: "(\<And>s. sub_hit x (st' s) \<le> sub_hit x (st s)) \<Longrightarrow> out_hit x st' y \<le> out_hit x st y"
  by (cases y) simp_all

lemma put_view_shifts:
  assumes "sw_conns w c = Some k" and "\<And>s. sub_hit x (v_store v s) \<le> sub_hit x (up_store (sw_upper w) s)"
    and "shifts d (conn_copies x (up_store (sw_upper w)) (fos c) (sw_pend w c) k) (view_copies x fs v)"
  shows "shifts d (copies x contents fos w) (copies x contents (fos(c := fs)) (put_view c v w))"
proof (rule shifts_embed [OF assms(3), where e = "InConn c"])
  show "inj (InConn c)" by (rule injI) simp
  show "copies x contents fos w (InConn c p) = conn_copies x (up_store (sw_upper w)) (fos c) (sw_pend w c) k p" for p
    using assms(1) by simp
  show "copies x contents (fos(c := fs)) (put_view c v w) (InConn c p) = view_copies x fs v p" for p
    by (simp add: conn_copies_truncate)
  fix q assume "q \<notin> range (InConn c)"
  then show "copies x contents (fos(c := fs)) (put_view c v w) q \<le> copies x contents fos w q"
    using assms(2) by (cases q) (auto simp: conn_copies_store sum_list_mono out_hit_le split: option.splits)
qed

lemma shifts_front:
  assumes "shifts d g h" and "\<And>p. p \<noteq> a \<Longrightarrow> g p \<le> f p" and "g a + d \<le> f a"
  shows "shifts 0 f h"
proof -
  obtain P where P: "finite P" "{a} \<subseteq> P" "\<forall>p. p \<notin> P \<longrightarrow> h p \<le> g p" "sum h P \<le> sum g P + d"
    using shifts_on [OF assms(1)] by (metis finite.emptyI finite_insert)
  have "sum g (P - {a}) \<le> sum f (P - {a})" using assms(2) by (intro sum_mono) simp
  then have "sum g P + d \<le> sum f P"
    using assms(3) sum.remove [OF P(1), of a f] sum.remove [OF P(1), of a g] P(2) by simp
  moreover have "\<forall>p. p \<notin> P \<longrightarrow> h p \<le> f p" using P(2,3) assms(2) by (metis insert_subset order.trans)
  ultimately show ?thesis unfolding shifts_def using P(1,4) by (intro exI [of _ P]) simp
qed

lemma take_select_copies:
  assumes "take_select sel k = Some k'"
  obtains a where "\<And>p. p \<noteq> a \<Longrightarrow> conn_copies x st fos rs k' p \<le> conn_copies x st fos rs k p"
    "conn_copies x st fos rs k' a + select_hit x st sel \<le> conn_copies x st fos rs k a"
proof -
  have "(\<exists>f xs. sel = SelWrite (Some f) \<and> c_writeChannel k = f # xs \<and> k' = k\<lparr>c_writeChannel := xs\<rparr>) \<or>
      (\<exists>f xs. sel = SelRead (Some f) \<and> c_readChannel k = f # xs \<and> k' = k\<lparr>c_readChannel := xs\<rparr>) \<or>
      (\<exists>s xs. sel = SelSub (Some s) \<and> c_subChannel k = s # xs \<and> k' = k\<lparr>c_subChannel := xs\<rparr>) \<or> k' = k \<and> select_hit x st sel = 0"
    using assms by (cases "(x, st, sel)" rule: select_hit.cases) (simp_all split: list.splits if_splits)
  then show thesis
  proof (elim disjE exE conjE)
    fix f xs assume s: "sel = SelWrite (Some f)" "c_writeChannel k = f # xs" "k' = k\<lparr>c_writeChannel := xs\<rparr>"
    have "conn_copies x st fos rs k' p \<le> conn_copies x st fos rs k p" if "p \<noteq> Writes" for p using s that by (cases p) simp_all
    then show thesis using s by (intro that [of Writes]) simp_all
  next
    fix f xs assume s: "sel = SelRead (Some f)" "c_readChannel k = f # xs" "k' = k\<lparr>c_readChannel := xs\<rparr>"
    have "conn_copies x st fos rs k' p \<le> conn_copies x st fos rs k p" if "p \<noteq> Reads" for p using s that by (cases p) simp_all
    then show thesis using s by (intro that [of Reads]) simp_all
  next
    fix s xs assume s: "sel = SelSub (Some s)" "c_subChannel k = s # xs" "k' = k\<lparr>c_subChannel := xs\<rparr>"
    have "conn_copies x st fos rs k' p \<le> conn_copies x st fos rs k p" if "p \<noteq> Chan" for p using s that by (cases p) simp_all
    then show thesis using s by (intro that [of Chan]) simp_all
  next
    assume "k' = k" "select_hit x st sel = 0"
    then show thesis using that [of Wire] by simp
  qed
qed

definition meek :: "Frame \<Rightarrow> bool" where
  "meek f \<longleftrightarrow> polite f \<and> plain_subscribe f"

lemma meek_polite: "meek f \<Longrightarrow> polite f"
  by (simp add: meek_def)

lemma accounted_shift:
  assumes "accounted x contents fos n w" and "shifts d (copies x contents fos w) (copies x contents fos' w')"
    and "no_acks (up_store (sw_upper w'))" and "\<And>c. sw_conns w' c = None \<Longrightarrow> sw_pend w' c = []"
    and "\<And>c k. sw_conns w' c = Some k \<Longrightarrow> c_subList k = [] \<and> wire_is (fos' c) (c_writer k)"
  shows "accounted x contents fos' (n + d) w'"
  using assms shifts_fits [OF _ assms(2), of n] unfolding accounted_def by blast

lemma put_view_accounted:
  assumes acc: "accounted x contents fos n w" and k: "sw_conns w c = Some k" and pend: "sw_pend w c = []"
    and v: "brings x d (world_view k' w) v" and k': "c_subList k' = []" "c_writer k' = c_writer k"
    and front: "\<And>p. p \<noteq> a \<Longrightarrow> conn_copies x (up_store (sw_upper w)) (fos c) [] k' p \<le> conn_copies x (up_store (sw_upper w)) (fos c) [] k p"
      "conn_copies x (up_store (sw_upper w)) (fos c) [] k' a + d \<le> conn_copies x (up_store (sw_upper w)) (fos c) [] k a"
  shows "\<exists>fos'. accounted x contents fos' n (put_view c v w)"
proof -
  have "wire_is (fos c) (c_writer (world_view k' w))" using accounted_conn [OF acc k] k'(2) by simp
  with v obtain fs where fs: "wire_is fs (c_writer v)"
    "shifts d (view_copies x (fos c) (world_view k' w)) (view_copies x fs v)" unfolding brings_def by blast
  have "shifts 0 (conn_copies x (up_store (sw_upper w)) (fos c) (sw_pend w c) k) (view_copies x fs v)"
    by (rule shifts_front [OF fs(2), where a = a]) (use front pend in \<open>simp_all add: conn_copies_view\<close>)
  from put_view_shifts [where fos = fos, OF k _ this]
  have "shifts 0 (copies x contents fos w) (copies x contents (fos(c := fs)) (put_view c v w))" using v by (simp add: brings_def)
  then have "accounted x contents (fos(c := fs)) (n + 0) (put_view c v w)"
    by (rule accounted_shift [OF acc]) (use v k'(1) fs(1) acc in \<open>auto simp: brings_def accounted_def split: if_splits\<close>)
  then show ?thesis by auto
qed

lemma select_plain_from:
  assumes "world_from contents started meek w" and "sw_conns w c = Some k" and "take_select sel k = Some k'"
  shows "select_plain sel (up_store (sw_upper w))"
proof -
  have k: "conn_from meek (up_store (sw_upper w)) (sw_fresh w) k" and st: "store_from meek (up_store (sw_upper w)) (sw_fresh w)"
    using assms(1,2) by (auto simp: world_from_def upper_from_def)
  from st have "header_ok (Hdr f)" if "sub_frame (up_store (sw_upper w) s) = Some f" for s f
    using that genuine_ok by (auto simp: store_from_def)
  with assms(3) k genuine_ok [of meek] show ?thesis
    by (cases "(sel, up_store (sw_upper w))" rule: select_plain.cases)
      (auto simp: conn_from_def meek_def split: list.splits if_splits)
qed

lemma turn_accounted:
  assumes acc: "accounted x contents fos n w" and from_: "world_from contents started meek w" and inv: "server_inv contents started loc w"
    and k: "sw_conns w c = Some k" and pend: "sw_pend w c = []" and sel: "take_select sel k = Some k'"
    and turn: "processLoop_turn quote cfg sel (world_view k' w) = Ret (b, v)"
  shows "\<exists>fos'. accounted x contents fos' n (put_view c (if b then v else v\<lparr>c_pc := Cleanup 0\<rparr>) w)"
proof -
  have k': "c_subList k' = []" "c_writer k' = c_writer k"
    using accounted_conn [OF acc k] sel by (cases sel; auto split: option.splits list.splits if_splits)+
  have "brings x (select_hit x (up_store (sw_upper w)) sel) (world_view k' w) v"
    using turn_brings [OF _ turn_select_polite(2) [OF inv k sel] _ _ turn, of x] k'(1) acc select_plain_from [OF from_ k sel]
    by (simp add: accounted_def)
  then have v: "brings x (select_hit x (up_store (sw_upper w)) sel) (world_view k' w) (if b then v else v\<lparr>c_pc := Cleanup 0\<rparr>)" by simp
  show ?thesis
    by (rule take_select_copies [OF sel, of x "up_store (sw_upper w)" "fos c" "[]"]) (rule put_view_accounted [OF acc k pend v k'])
qed

subsection \<open>Serving\<close>

definition queue_load :: "load \<Rightarrow> bool" where
  "queue_load x \<longleftrightarrow> (\<exists>d. map_of (fst x) Destination = Some d \<and> isQueueDestination d)"

lemma payload_destination: "header_ok (Hdr f) \<Longrightarrow> map_of (fst (payload f)) Destination = Header_Contains (Hdr f) Destination"
  using map_of_filter_keys [of "\<lambda>k. k \<notin> set transit_headers" Destination "entries (Hdr f)"] by (simp add: payload_def Contains_entries)

lemma topic_no_hit:
  assumes "queue_load x" and "header_ok (Hdr f)" and "Header_Contains (Hdr f) Destination = Some d" and "\<not> isQueueDestination d"
  shows "hit x f = 0"
  using assms payload_destination [OF assms(2)] by (auto simp: hit_def queue_load_def)

lemma hit_with_sub: "header_ok (Hdr f) \<Longrightarrow> hit x (with_sub st s f) = hit x f"
  by (simp add: with_sub_def hit_Set)

lemma served_conn:
  assumes inv: "server_inv contents started loc w"
    and st: "\<And>s c. loc s = AtChan c \<Longrightarrow> sub_hit x (up_store u s) \<le> sub_hit x (up_store (sw_upper w) s)"
  shows "copies x contents fos (served rs u w) (InConn c p) \<le> copies x contents fos w (InConn c p)"
proof (cases "sw_conns w c")
  case (Some k)
  have "loc s = AtChan c" if "s \<in> set (c_subChannel k)" for s
    using held_conn [OF _ Some, of loc] inv that by (simp add: server_inv_def)
  with Some st show ?thesis by (simp add: conn_copies_store)
qed simp

text \<open>A request that hands no copy on.\<close>

lemma served_less:
  assumes "server_inv contents started loc w" and "sw_reqCh w = r # rs"
    and "\<And>s c. loc s = AtChan c \<Longrightarrow> sub_hit x (up_store u s) \<le> sub_hit x (up_store (sw_upper w) s)"
    and "contents (up_storage u) = contents (up_storage (sw_upper w))" and "\<And>y. y \<in> set (up_out u) \<Longrightarrow> out_hit x (up_store u) y = 0"
  shows "shifts 0 (copies x contents fos w) (copies x contents fos (served rs u w))"
proof (rule shifts_le)
  have z: "sum_list (map (out_hit x (up_store u)) (up_out u)) = 0" using assms(5) by simp
  have c: "copies x contents fos (served rs u w) (InConn c p) \<le> copies x contents fos w (InConn c p)" for c p
    by (rule served_conn [OF assms(1)]) (rule assms(3))
  fix q show "copies x contents fos (served rs u w) q \<le> copies x contents fos w q"
  proof (cases q)
    case InOut
    show ?thesis unfolding InOut copies.simps served_sel z by simp
  qed (use c assms(2,4) in simp_all)
qed

lemma served_moves:
  assumes "server_inv contents started loc w" and "sw_reqCh w = r # rs" and "a \<noteq> b" and "\<And>c p. InConn c p \<notin> {a, b}"
    and "\<And>s c. loc s = AtChan c \<Longrightarrow> sub_hit x (up_store u s) \<le> sub_hit x (up_store (sw_upper w) s)"
    and "\<And>q. q \<notin> {a, b} \<Longrightarrow> \<forall>c p. q \<noteq> InConn c p \<Longrightarrow> copies x contents fos (served rs u w) q \<le> copies x contents fos w q"
    and "copies x contents fos (served rs u w) a + copies x contents fos (served rs u w) b \<le>
      copies x contents fos w a + copies x contents fos w b"
  shows "shifts 0 (copies x contents fos w) (copies x contents fos (served rs u w))"
proof (rule shifts_two [OF assms(3)])
  fix q assume q: "q \<notin> {a, b}"
  show "copies x contents fos (served rs u w) q \<le> copies x contents fos w q"
  proof (cases q)
    case (InConn c p)
    show ?thesis unfolding InConn by (rule served_conn [OF assms(1)]) (rule assms(5))
  qed (use assms(6) [OF q] in auto)
qed (use assms(7) in simp)

text \<open>A subscription that is not in a channel may take a copy.\<close>

lemma serve_subscribe_shifts:
  assumes S: "queue_storage S contents started" and inv: "server_inv contents started loc w" and from_: "world_from contents started meek w"
    and r: "sw_reqCh w = SubscribeOp s # rs" and out: "sw_out w = []" and u: "serve S (SubscribeOp s) ((sw_upper w)\<lparr>up_out := []\<rparr>) = Ret u"
  shows "shifts 0 (copies x contents fos w) (copies x contents fos (served rs u w)) \<and>
    (no_acks (up_store (sw_upper w)) \<longrightarrow> no_acks (up_store u))"
proof -
  let ?u = "(sw_upper w)\<lparr>up_out := []\<rparr>" and ?st = "up_store (sw_upper w)"
  let ?d = "sub_dest (?st s)"
  have up: "upper_inv contents started ?u" using inv by (simp add: server_inv_def upper_ok_def)
  note mine = asking [OF inv r]
  show ?thesis
  proof (cases "isQueueDestination ?d")
    case True
    have e: "up_out u = [] \<and> up_store u = ?st(s := (?st s)\<lparr>sub_subList := Some (QueueList ?d)\<rparr>) \<and>
         contents (up_storage u) = contents (up_storage (sw_upper w)) \<or>
       (\<exists>f l. contents (up_storage (sw_upper w)) ?d = f # l \<and> up_out u = [ToSubChannel (sub_conn (?st s)) s] \<and>
         up_store u = ?st(s := (?st s)\<lparr>sub_frame := Some (with_sub ?st s f)\<rparr>) \<and>
         contents (up_storage u) = (contents (up_storage (sw_upper w)))(?d := l))"
      by (rule subscribe_effect [OF S up, of s]) (use True mine(3,4) u in \<open>auto simp del: fun_upd_apply\<close>)
    then show ?thesis
    proof (elim disjE exE conjE)
      assume e: "up_out u = []" "up_store u = ?st(s := (?st s)\<lparr>sub_subList := Some (QueueList ?d)\<rparr>)"
        "contents (up_storage u) = contents (up_storage (sw_upper w))"
      have "shifts 0 (copies x contents fos w) (copies x contents fos (served rs u w))"
        by (rule served_less [OF inv r]) (use e in \<open>simp_all add: sub_hit_def\<close>)
      with e(2) show ?thesis by (simp add: no_acks_def)
    next
      fix f l assume e: "contents (up_storage (sw_upper w)) ?d = f # l" "up_out u = [ToSubChannel (sub_conn (?st s)) s]"
        "up_store u = ?st(s := (?st s)\<lparr>sub_frame := Some (with_sub ?st s f)\<rparr>)"
        "contents (up_storage u) = (contents (up_storage (sw_upper w)))(?d := l)"
      have "list_all (\<lambda>f. genuine meek f \<and> Header_Contains (Hdr f) Destination = Some ?d) (contents (up_storage (sw_upper w)) ?d)"
        by (rule storedD) (use from_ in \<open>simp add: world_from_def upper_from_def\<close>)
      then have h: "hit x (with_sub ?st s f) = hit x f" using e(1) genuine_ok [of meek f] by (simp add: hit_with_sub)
      have "shifts 0 (copies x contents fos w) (copies x contents fos (served rs u w))"
      proof (rule served_moves [OF inv r, where a = "InStore ?d" and b = InOut])
        show "sub_hit x (up_store u y) \<le> sub_hit x (?st y)" if "loc y = AtChan c" for y c
          using that mine(1) e(3) by (cases "y = s") simp_all
        fix q assume "q \<notin> {InStore ?d, InOut}" "\<forall>c p. q \<noteq> InConn c p"
        then show "copies x contents fos (served rs u w) q \<le> copies x contents fos w q" using e(4) r by (cases q) auto
      qed (use e h in \<open>simp_all add: sub_hit_def\<close>)
      with e(3) show ?thesis by (simp add: no_acks_def)
    qed
  next
    case False
    have e: "up_storage u = up_storage (sw_upper w) \<and> up_store u = ?st \<and> up_out u = []"
      by (rule topic_effect [OF up _ False _ S, of "SubscribeOp s" s "tsubs (sw_upper w) ?d @ [s]" undefined]) (use mine(3) u in simp_all)
    have "shifts 0 (copies x contents fos w) (copies x contents fos (served rs u w))"
      by (rule served_less [OF inv r]) (use e in simp_all)
    with e show ?thesis by simp
  qed
qed

lemma serve_unsubscribe_shifts:
  assumes S: "queue_storage S contents started" and inv: "server_inv contents started loc w"
    and r: "sw_reqCh w = UnsubscribeOp s # rs" and u: "serve S (UnsubscribeOp s) ((sw_upper w)\<lparr>up_out := []\<rparr>) = Ret u"
  shows "shifts 0 (copies x contents fos w) (copies x contents fos (served rs u w)) \<and>
    (no_acks (up_store (sw_upper w)) \<longrightarrow> no_acks (up_store u))"
proof -
  let ?u = "(sw_upper w)\<lparr>up_out := []\<rparr>" and ?st = "up_store (sw_upper w)"
  have up: "upper_inv contents started ?u" using inv by (simp add: server_inv_def upper_ok_def)
  have "up_storage u = up_storage (sw_upper w) \<and> up_out u = [] \<and> (up_store u = ?st \<or> up_store u = ?st(s := (?st s)\<lparr>sub_subList := None\<rparr>))"
  proof (cases "isQueueDestination (sub_dest (?st s))")
    case True
    show ?thesis by (rule unsubscribe_effect [OF S up, of s]) (use True u in \<open>auto simp del: fun_upd_apply\<close>)
  next
    case False
    show ?thesis
      by (rule topic_effect [OF up _ False _ S, of "UnsubscribeOp s" s "remove1 s (tsubs (sw_upper w) (sub_dest (?st s)))" undefined])
        (use u in simp_all)
  qed
  then have e: "up_storage u = up_storage (sw_upper w)" "up_out u = []" "sub_hit x (up_store u y) = sub_hit x (?st y)"
    "sub_ack (up_store u y) = sub_ack (?st y)" for y by (auto simp: sub_hit_def)
  have "shifts 0 (copies x contents fos w) (copies x contents fos (served rs u w))"
    by (rule served_less [OF inv r]) (use e in simp_all)
  with e(4) show ?thesis by (simp add: no_acks_def)
qed

lemma serve_frame_shifts:
  assumes S: "queue_storage S contents started" and inv: "server_inv contents started loc w" and x: "queue_load x"
    and r: "sw_reqCh w = r # rs" "r = EnqueueOp f \<or> r = RequeueOp (Some f)" and f: "addressed f"
    and out: "sw_out w = []" and u: "serve S r ((sw_upper w)\<lparr>up_out := []\<rparr>) = Ret u"
  shows "shifts 0 (copies x contents fos w) (copies x contents fos (served rs u w)) \<and>
    (no_acks (up_store (sw_upper w)) \<longrightarrow> no_acks (up_store u))"
proof -
  let ?u = "(sw_upper w)\<lparr>up_out := []\<rparr>" and ?st = "up_store (sw_upper w)"
  have up: "upper_inv contents started ?u" using inv by (simp add: server_inv_def upper_ok_def)
  from f obtain d where d: "Header_Contains (Hdr f) Destination = Some d" and ok: "header_ok (Hdr f)" by (auto simp: addressed_def)
  have rh: "req_hit x r = hit x f" using r(2) by auto
  show ?thesis
  proof (cases "isQueueDestination d")
    case True
    have "up_out u = [] \<and> up_store u = ?st \<and>
         (\<exists>l. contents (up_storage u) = (contents (up_storage (sw_upper w)))(d := l) \<and>
            l \<in> {contents (up_storage (sw_upper w)) d @ [f], f # contents (up_storage (sw_upper w)) d}) \<or>
       (\<exists>s rest. qsubs (sw_upper w) d = s # rest \<and> up_out u = [ToSubChannel (sub_conn (?st s)) s] \<and>
         up_store u = ?st(s := (?st s)\<lparr>sub_subList := None, sub_frame := Some (with_sub ?st s f)\<rparr>) \<and>
         contents (up_storage u) = contents (up_storage (sw_upper w)))"
      by (rule frame_effect [OF S up _ True d r(2)]) (use u in \<open>auto simp del: fun_upd_apply\<close>)
    then show ?thesis
    proof (elim disjE exE conjE)
      fix l assume e: "up_out u = []" "up_store u = ?st" "contents (up_storage u) = (contents (up_storage (sw_upper w)))(d := l)"
        "l \<in> {contents (up_storage (sw_upper w)) d @ [f], f # contents (up_storage (sw_upper w)) d}"
      have "shifts 0 (copies x contents fos w) (copies x contents fos (served rs u w))"
      proof (rule served_moves [OF inv r(1), where a = "InStore d" and b = InReq])
        fix q assume "q \<notin> {InStore d, InReq}" "\<forall>c p. q \<noteq> InConn c p"
        then show "copies x contents fos (served rs u w) q \<le> copies x contents fos w q" using e(1,3) by (cases q) auto
      qed (use e r(1) rh in auto)
      with e(2) show ?thesis by simp
    next
      fix s rest assume e: "qsubs (sw_upper w) d = s # rest" "up_out u = [ToSubChannel (sub_conn (?st s)) s]"
        "up_store u = ?st(s := (?st s)\<lparr>sub_subList := None, sub_frame := Some (with_sub ?st s f)\<rparr>)"
        "contents (up_storage u) = contents (up_storage (sw_upper w))"
      have s: "loc s = AtQueue d" using inv e(1) unfolding server_inv_def located_def by (auto dest: spec [of _ "AtQueue d"])
      have "shifts 0 (copies x contents fos w) (copies x contents fos (served rs u w))"
      proof (rule served_moves [OF inv r(1), where a = InOut and b = InReq])
        show "sub_hit x (up_store u y) \<le> sub_hit x (?st y)" if "loc y = AtChan c" for y c
          using that s e(3) by (cases "y = s") simp_all
        fix q assume "q \<notin> {InOut, InReq}" "\<forall>c p. q \<noteq> InConn c p"
        then show "copies x contents fos (served rs u w) q \<le> copies x contents fos w q" using e(4) by (cases q) auto
      qed (use e r(1) rh hit_with_sub [OF ok, of x ?st s] in \<open>simp_all add: sub_hit_def\<close>)
      with e(3) show ?thesis by (simp add: no_acks_def)
    qed
  next
    case False
    note none = topic_no_hit [OF x ok d False]
    have e: "up_storage u = up_storage (sw_upper w) \<and> up_store u = ?st \<and> (\<forall>y \<in> set (up_out u). out_hit x ?st y = 0)"
    proof (cases "r = EnqueueOp f")
      case True
      have "hit x (f\<lparr>Hdr := Header_Set (Hdr f) SubscriptionHdr i\<rparr>) = 0" for i using none hit_Set [OF ok] by simp
      then have "out_hit x ?st (topic_delivery (?st, []) s f) = 0" for s by (simp add: topic_delivery_def)
      then show ?thesis
        by (rule_tac topic_effect [OF up _ False _ S, of r undefined "tsubs (sw_upper w) d" f]) (use True d u in simp_all)
    next
      case no: False
      then have "u = ?u" using r(2) d False u by (simp add: serve_def)
      then show ?thesis by simp
    qed
    have "shifts 0 (copies x contents fos w) (copies x contents fos (served rs u w))"
      by (rule served_less [OF inv r(1)]) (use e in simp_all)
    with e show ?thesis by simp
  qed
qed

lemma serve_shifts:
  assumes S: "queue_storage S contents started" and inv: "server_inv contents started loc w" and from_: "world_from contents started meek w"
    and x: "queue_load x" and r: "sw_reqCh w = r # rs" and out: "sw_out w = []" and u: "serve S r ((sw_upper w)\<lparr>up_out := []\<rparr>) = Ret u"
  shows "shifts 0 (copies x contents fos w) (copies x contents fos (served rs u w)) \<and>
    (no_acks (up_store (sw_upper w)) \<longrightarrow> no_acks (up_store u))"
proof -
  have ok: "request_ok r" using inv r by (simp add: server_inv_parts)
  have idle: "shifts 0 (copies x contents fos w) (copies x contents fos (served rs ((sw_upper w)\<lparr>up_out := []\<rparr>) w))"
    by (rule served_less [OF inv r]) simp_all
  show ?thesis
  proof (cases r)
    case (SubscribeOp s)
    with serve_subscribe_shifts [OF S inv from_] r out u show ?thesis by blast
  next
    case (UnsubscribeOp s)
    with serve_unsubscribe_shifts [OF S inv] r u show ?thesis by blast
  next
    case (EnqueueOp f)
    with serve_frame_shifts [OF S inv x r _ _ out u] ok show ?thesis by (simp add: request_ok_def)
  next
    case (RequeueOp fo)
    with serve_frame_shifts [OF S inv x r _ _ out u] ok show ?thesis by (cases fo) (simp_all add: request_ok_def)
  qed (use idle u in \<open>auto simp: serve_def\<close>)
qed

subsection \<open>Steps\<close>

text \<open>Events at one connection that leave everything else alone.\<close>

lemma conn_shifts:
  assumes "sw_conns w c = Some k"
    and "shifts d (conn_copies x (up_store (sw_upper w)) (fos c) (sw_pend w c) k) (conn_copies x (up_store (sw_upper w)) (fos c) (sw_pend w c) k')"
  shows "shifts d (copies x contents fos w) (copies x contents fos (w\<lparr>sw_conns := (sw_conns w)(c \<mapsto> k')\<rparr>))"
proof (rule shifts_embed [OF assms(2), where e = "InConn c"])
  fix q assume "q \<notin> range (InConn c)"
  then show "copies x contents fos (w\<lparr>sw_conns := (sw_conns w)(c \<mapsto> k')\<rparr>) q \<le> copies x contents fos w q"
    by (cases q) (auto split: option.splits)
qed (use assms(1) in \<open>auto intro: injI\<close>)

lemma accept_accounted:
  assumes "accounted x contents fos n w" and "sw_conns w c = None"
  shows "accounted x contents (fos(c := [])) n
    (w\<lparr>sw_conns := (sw_conns w)(c \<mapsto> NewConn c (NewWriter room fault)), sw_pend := (sw_pend w)(c := [])\<rparr>)" (is "accounted _ _ _ _ ?w")
proof -
  have z: "conn_copies x st [] [] (NewConn c wr) p = 0" for st wr p by (cases p) (simp_all add: NewConn_def tx_hit_def)
  have "shifts 0 (copies x contents fos w) (copies x contents (fos(c := [])) ?w)"
  proof (rule shifts_le)
    fix q show "copies x contents (fos(c := [])) ?w q \<le> copies x contents fos w q" by (cases q) (auto simp: z split: option.splits)
  qed
  then have "accounted x contents (fos(c := [])) (n + 0) ?w"
    by (rule accounted_shift [OF assms(1)]) (use assms(1) wrote_New in \<open>auto simp: accounted_def NewConn_def split: if_splits\<close>)
  then show ?thesis by simp
qed

lemma read_accounted:
  assumes "accounted x contents fos n w" and "sw_conns w c = Some k" and "send_hit x f \<le> d"
  shows "accounted x contents fos (n + d) (w\<lparr>sw_conns := (sw_conns w)(c \<mapsto> k\<lparr>c_readChannel := c_readChannel k @ [f]\<rparr>)\<rparr>)"
proof (rule accounted_shift [OF assms(1) conn_shifts [OF assms(2)]])
  let ?k = "k\<lparr>c_readChannel := c_readChannel k @ [f]\<rparr>" and ?st = "up_store (sw_upper w)"
  show "shifts d (conn_copies x ?st (fos c) (sw_pend w c) k) (conn_copies x ?st (fos c) (sw_pend w c) ?k)"
  proof (rule shifts_one [where a = Reads])
    fix p assume "p \<noteq> Reads"
    then show "conn_copies x ?st (fos c) (sw_pend w c) ?k p \<le> conn_copies x ?st (fos c) (sw_pend w c) k p" by (cases p) simp_all
  qed (use assms(3) in simp)
qed (use assms(1,2) in \<open>auto simp: accounted_def split: if_splits\<close>)

lemma read_end_accounted:
  assumes "accounted x contents fos n w" and "sw_conns w c = Some k"
  shows "accounted x contents fos (n + 0) (w\<lparr>sw_conns := (sw_conns w)(c \<mapsto> k\<lparr>c_readClosed := True\<rparr>)\<rparr>)"
proof (rule accounted_shift [OF assms(1) conn_shifts [OF assms(2)]])
  show "shifts 0 (conn_copies x (up_store (sw_upper w)) (fos c) (sw_pend w c) k)
      (conn_copies x (up_store (sw_upper w)) (fos c) (sw_pend w c) (k\<lparr>c_readClosed := True\<rparr>))"
    by (rule shifts_le, rename_tac p, case_tac p) simp_all
qed (use assms in \<open>auto simp: accounted_def split: if_splits\<close>)

lemma post_accounted:
  assumes acc: "accounted x contents fos n w" and r: "sw_pend w c = r # rs"
  shows "accounted x contents fos (n + 0) (w\<lparr>sw_pend := (sw_pend w)(c := rs), sw_reqCh := sw_reqCh w @ [r]\<rparr>)" (is "accounted _ _ _ _ ?w")
proof (rule accounted_shift [OF acc])
  obtain k where k: "sw_conns w c = Some k" using acc r by (cases "sw_conns w c") (auto simp: accounted_def)
  show "shifts 0 (copies x contents fos w) (copies x contents fos ?w)"
  proof (rule shifts_two [where a = "InConn c Pend" and b = InReq])
    fix q assume q: "q \<notin> {InConn c Pend, InReq}"
    show "copies x contents fos ?w q \<le> copies x contents fos w q"
    proof (cases q)
      case (InConn c' p)
      with q k show ?thesis by (cases p) (auto split: option.splits)
    qed (use q in simp_all)
  qed (use k r in simp_all)
qed (use acc r in \<open>auto simp: accounted_def\<close>)

lemma deliver_accounted:
  assumes acc: "accounted x contents fos n w" and out: "sw_out w = y # ds" and k: "sw_conns w c = Some k"
    and y: "y = ToSubChannel c s \<and> k' = k\<lparr>c_subChannel := c_subChannel k @ [s]\<rparr> \<and> p = Chan \<or>
      y = ToWriteChannel c f \<and> k' = k\<lparr>c_writeChannel := c_writeChannel k @ [f]\<rparr> \<and> p = Writes"
  shows "accounted x contents fos (n + 0) (w\<lparr>sw_out := ds, sw_conns := (sw_conns w)(c \<mapsto> k')\<rparr>)" (is "accounted _ _ _ _ ?w")
proof (rule accounted_shift [OF acc])
  show "shifts 0 (copies x contents fos w) (copies x contents fos ?w)"
  proof (rule shifts_two [where a = InOut and b = "InConn c p"])
    fix q assume q: "q \<notin> {InOut, InConn c p}"
    show "copies x contents fos ?w q \<le> copies x contents fos w q"
    proof (cases q)
      case (InConn c' p')
      with q k y show ?thesis by (cases p') (auto split: option.splits)
    qed (use q in simp_all)
  qed (use out k y in auto)
qed (use acc k y in \<open>auto simp: accounted_def split: if_splits\<close>)

lemma step_accounted:
  assumes S: "queue_storage S contents started" and step: "server_step S quote cfg allowed w w'"
    and inv: "server_inv contents started loc w" and from_: "world_from contents started meek w"
    and acc: "accounted x contents fos n w" and x: "queue_load x" and d: "\<And>f. allowed f \<Longrightarrow> send_hit x f \<le> d"
  shows "\<exists>fos'. accounted x contents fos' (n + d) w'"
proof -
  have more: "accounted x contents fos' (n + d) u" if "accounted x contents fos' n u" for fos' u
    using that shifts_fits [of n "copies x contents fos' u" d] shifts_le [of "copies x contents fos' u" "copies x contents fos' u" d]
    by (auto simp: accounted_def)
  have "\<exists>fos'. accounted x contents fos' n w' \<or> accounted x contents fos' (n + d) w'"
    using step
  proof cases
    case (accept c room fault)
    with accept_accounted [OF acc] show ?thesis by blast
  next
    case (read c k f)
    with read_accounted [OF acc read(3) d [OF read(7)]] show ?thesis by blast
  next
    case (read_end c k)
    with read_end_accounted [OF acc read_end(3)] show ?thesis by auto
  next
    case (turn c k sel k' continue v)
    with turn_accounted [OF acc from_ inv turn(3,5,6,7)] show ?thesis by blast
  next
    case (turn_panic c k sel k' m)
    with turn_no_panic [OF inv turn_panic(3,6)] show ?thesis by blast
  next
    case (cleanup c k m order)
    have "brings x 0 (world_view k w) (cleanup_step order m (world_view k w))"
      by (rule cleanup_brings) (use accounted_conn [OF acc cleanup(3)] in simp)
    from put_view_accounted [OF acc cleanup(3,5) this] accounted_conn [OF acc cleanup(3)] cleanup(1) show ?thesis by auto
  next
    case (post c r rs)
    with post_accounted [OF acc post(3)] show ?thesis by auto
  next
    case (serve r rs u)
    have s: "shifts 0 (copies x contents fos w) (copies x contents fos (served rs u w)) \<and>
        (no_acks (up_store (sw_upper w)) \<longrightarrow> no_acks (up_store u))"
      by (rule serve_shifts [OF S inv from_ x serve(4,3,5)])
    have "accounted x contents fos (n + 0) (served rs u w)"
      by (rule accounted_shift [OF acc s [THEN conjunct1]]) (use s acc in \<open>auto simp: accounted_def\<close>)
    with serve(1) show ?thesis by (auto simp: served_def)
  next
    case (serve_panic r rs m)
    with serve_server_inv [OF S inv serve_panic(4,3)] show ?thesis by auto
  next
    case (deliver_sub c s ds k)
    with deliver_accounted [OF acc deliver_sub(3,4), of s _ Chan] show ?thesis by auto
  next
    case (deliver_write c f ds k)
    with deliver_accounted [OF acc deliver_write(3,4), of _ _ Writes f] show ?thesis by auto
  qed
  with more show ?thesis by blast
qed

subsection \<open>At most once\<close>

text \<open>
  A run of the server with clients that are polite and subscribe without acknowledgements. The number is that of the steps in
  which the message may have arrived from a client.
\<close>

inductive server_history :: "'q Storage \<Rightarrow> (string \<Rightarrow> string) \<Rightarrow> Config \<Rightarrow> 'q \<Rightarrow> load \<Rightarrow> nat \<Rightarrow> 'q ServerWorld \<Rightarrow> bool"
  for S quote cfg storage x where
  begins: "server_history S quote cfg storage x 0 (start_server storage)"
| other: "server_history S quote cfg storage x n w \<Longrightarrow>
    server_step S quote cfg (\<lambda>f. meek f \<and> \<not> (Command f = SEND \<and> payload f = x)) w w' \<Longrightarrow> server_history S quote cfg storage x n w'"
| arrival: "server_history S quote cfg storage x n w \<Longrightarrow> server_step S quote cfg meek w w' \<Longrightarrow>
    server_history S quote cfg storage x (Suc n) w'"

lemma server_step_mono:
  assumes "server_step S quote cfg allowed w w'" and "\<And>f. allowed f \<Longrightarrow> allowed' f"
  shows "server_step S quote cfg allowed' w w'"
  using assms(1)
proof cases
  case (turn c k sel k' continue v)
  with server_step.turn [OF turn(2-7)] show ?thesis by blast
qed (auto intro: server_step.intros simp: assms(2))

lemma history_accounted:
  assumes S: "queue_storage S contents started" and "started storage" and "contents storage = (\<lambda>d. [])"
    and x: "queue_load x" and h: "server_history S quote cfg storage x n w"
  shows "(\<exists>loc. server_inv contents started loc w) \<and> world_from contents started meek w \<and> (\<exists>fos. accounted x contents fos n w)"
  using h
proof induction
  case begins
  have "copies x contents fos (start_server storage) q = 0" for fos q
    using assms(3) by (cases q) (simp_all add: start_server_def newRequestProcessor_def)
  then have "accounted x contents (\<lambda>c. []) 0 (start_server storage)"
    by (simp add: accounted_def fits_def start_server_def newRequestProcessor_def no_acks_def no_subs_def newSubscription_def)
  then show ?case using start_inv [OF S assms(2,3)] start_from [of started storage contents meek] assms(2,3) by blast
next
  case (other n w w')
  have step: "server_step S quote cfg meek w w'" by (rule server_step_mono [OF other.hyps(2)]) simp
  have "\<exists>fos. accounted x contents fos (n + 0) w'"
    using other.IH step_accounted [OF S other.hyps(2) _ _ _ x, where d = 0] by (fastforce simp: send_hit_def hit_def)
  then show ?case
    using other.IH step_from [OF S _ step] step_server_inv [OF S server_step_mono [of S quote cfg meek w w' polite, OF step meek_polite]] by auto
next
  case (arrival n w w')
  have "\<exists>fos. accounted x contents fos (n + 1) w'"
    using arrival.IH step_accounted [OF S arrival.hyps(2) _ _ _ x, where d = 1] by (fastforce simp: send_hit_def hit_def)
  then show ?case
    using arrival.IH step_from [OF S _ arrival.hyps(2)] 
      step_server_inv [OF S server_step_mono [of S quote cfg meek w w' polite, OF arrival.hyps(2) meek_polite]] by auto
qed

definition deliveries :: "load \<Rightarrow> Frame option list \<Rightarrow> nat" where
  "deliveries x fos = length (filter (\<lambda>fo. case fo of None \<Rightarrow> False | Some f \<Rightarrow> Command f = MESSAGE \<and> payload f = x) fos)"

lemma deliveries_hits: "deliveries x fos = sum_list (map (wire_hit x) fos)"
  by (induction fos) (auto simp: deliveries_def wire_hit_def hit_def split: option.splits)



end
