(* ===== verification/Server_Main.thy ===== *)
theory Server_Main
  imports Server_Safe
begin

section \<open>Starting a server: server/server.go, processor.go, stompd/main.go\<close>

text \<open>
  How a server comes into being: the address it listens on, the storage and the configuration it runs with. The network is an
  argument, \<open>net.Listen\<close>, which gives a listener or an error. What a running server does is in theory \<open>Server_World\<close>.
\<close>

subsection \<open>The storage\<close>

text \<open>
  The storage of the user, or the one in memory if there is none: \<open>newRequestProcessor\<close> chooses. An operation on the chosen storage
  is the operation of the one that it is.
\<close>

definition lift_left :: "('a \<Rightarrow> ('r \<times> 'a) go) \<Rightarrow> 'a \<Rightarrow> ('r \<times> ('a + 'b)) go" where
  "lift_left oper q = go_bind (oper q) (\<lambda>(r, q'). Ret (r, Inl q'))"

definition lift_right :: "('b \<Rightarrow> ('r \<times> 'b) go) \<Rightarrow> 'b \<Rightarrow> ('r \<times> ('a + 'b)) go" where
  "lift_right oper q = go_bind (oper q) (\<lambda>(r, q'). Ret (r, Inr q'))"

definition chosen_storage :: "'q Storage \<Rightarrow> (MemoryQueueStorage + 'q) Storage" where
  "chosen_storage S =
     \<lparr>st_Enqueue = (\<lambda>d f. case_sum (lift_left (mem_Enqueue d f)) (lift_right (st_Enqueue S d f))),
      st_Requeue = (\<lambda>d f. case_sum (lift_left (mem_Requeue d f)) (lift_right (st_Requeue S d f))),
      st_Dequeue = (\<lambda>d. case_sum (lift_left (mem_Dequeue d)) (lift_right (st_Dequeue S d))),
      st_Start = map_sum mem_Start (st_Start S), st_Stop = map_sum mem_Stop (st_Stop S)\<rparr>"

definition choose_storage :: "'q option \<Rightarrow> MemoryQueueStorage + 'q" where
  "choose_storage queueStorage =
     (case queueStorage of None \<Rightarrow> Inl NewMemoryQueueStorage | Some q \<Rightarrow> Inr q)"

definition chosen_contents :: "('q \<Rightarrow> string \<Rightarrow> Frame list) \<Rightarrow> MemoryQueueStorage + 'q \<Rightarrow> string \<Rightarrow> Frame list" where
  "chosen_contents contents = case_sum mem_contents contents"

definition chosen_started :: "('q \<Rightarrow> bool) \<Rightarrow> MemoryQueueStorage + 'q \<Rightarrow> bool" where
  "chosen_started started = case_sum mem_started started"

text \<open>So the chosen storage keeps the contract if the user's does, and always if there is none.\<close>

lemma chosen_storage_contract:
  assumes "queue_storage S contents started"
  shows "queue_storage (chosen_storage S) (chosen_contents contents) (chosen_started started)"
proof
  fix q d f
  assume q: "chosen_started started q"
  show "\<exists>q'. st_Enqueue (chosen_storage S) d f q = Ret (None, q') \<and> chosen_started started q' \<and>
      chosen_contents contents q' = (chosen_contents contents q)(d := chosen_contents contents q d @ [f])"
  proof (cases q)
    case (Inl m)
    with q mem.enqueue [of m d f] show ?thesis
      by (auto simp: chosen_storage_def chosen_contents_def chosen_started_def lift_left_def memory_storage_def)
  next
    case (Inr p)
    with q queue_storage.enqueue [OF assms, of p d f] show ?thesis
      by (auto simp: chosen_storage_def chosen_contents_def chosen_started_def lift_right_def)
  qed
  show "\<exists>q'. st_Requeue (chosen_storage S) d f q = Ret (None, q') \<and> chosen_started started q' \<and>
      chosen_contents contents q' = (chosen_contents contents q)(d := f # chosen_contents contents q d)"
  proof (cases q)
    case (Inl m)
    with q mem.requeue [of m d f] show ?thesis
      by (auto simp: chosen_storage_def chosen_contents_def chosen_started_def lift_left_def memory_storage_def)
  next
    case (Inr p)
    with q queue_storage.requeue [OF assms, of p d f] show ?thesis
      by (auto simp: chosen_storage_def chosen_contents_def chosen_started_def lift_right_def)
  qed
  show "\<exists>q'. st_Dequeue (chosen_storage S) d q =
      Ret (Inr (case chosen_contents contents q d of [] \<Rightarrow> None | f # l \<Rightarrow> Some f), q') \<and> chosen_started started q' \<and>
      chosen_contents contents q' = (chosen_contents contents q)(d := tl (chosen_contents contents q d))"
  proof (cases q)
    case (Inl m)
    with q mem.dequeue [of m d] show ?thesis
      by (auto simp: chosen_storage_def chosen_contents_def chosen_started_def lift_left_def memory_storage_def)
  next
    case (Inr p)
    with q queue_storage.dequeue [OF assms, of p d] show ?thesis
      by (auto simp: chosen_storage_def chosen_contents_def chosen_started_def lift_right_def)
  qed
qed

subsection \<open>Serving\<close>

text \<open>What \<open>Serve\<close> runs with: the configuration of the connections and the state of the goroutines. It returns only when the process ends.\<close>

definition Server_Serve :: "Server \<Rightarrow> 'q option \<Rightarrow> Config \<times> (MemoryQueueStorage + 'q) ServerWorld" where
  "Server_Serve s queueStorage =
     (let s' = (if srv_Log s = None then s\<lparr>srv_Log := Some StdLogger\<rparr> else s)
      in (newConfig s', start_server (choose_storage queueStorage)))"

definition Server_ListenAndServe ::
    "(string \<Rightarrow> string \<Rightarrow> go_error option) \<Rightarrow> Server \<Rightarrow> 'q option \<Rightarrow> go_error + (Config \<times> (MemoryQueueStorage + 'q) ServerWorld)" where
  "Server_ListenAndServe net_Listen s queueStorage =
     (case net_Listen ''tcp'' (listen_address s) of
        Some err \<Rightarrow> Inl err
      | None \<Rightarrow> Inr (Server_Serve s queueStorage))"

text \<open>The functions of the package make a server with nothing but an address; the storage of the user is absent.\<close>

definition package_Serve :: "Config \<times> (MemoryQueueStorage + unit) ServerWorld" where
  "package_Serve = Server_Serve (default_server []) None"

definition package_ListenAndServe ::
    "(string \<Rightarrow> string \<Rightarrow> go_error option) \<Rightarrow> string \<Rightarrow> go_error + (Config \<times> (MemoryQueueStorage + unit) ServerWorld)" where
  "package_ListenAndServe net_Listen addr = Server_ListenAndServe net_Listen (default_server addr) None"

subsection \<open>The command line server\<close>

text \<open>\<open>main\<close> after the flags have been parsed: it exits, or it serves.\<close>

datatype 'w main_result = ExitUsage nat | FatalExit string | Serves 'w

definition stompd_main ::
    "(string \<Rightarrow> string) \<Rightarrow> (string \<Rightarrow> string \<Rightarrow> go_error option) \<Rightarrow> bool \<Rightarrow> string \<Rightarrow>
      (Config \<times> (MemoryQueueStorage + unit) ServerWorld) main_result" where
  "stompd_main quote net_Listen helpFlag listenAddr =
     (if helpFlag then ExitUsage 1
      else case net_Listen ''tcp'' listenAddr of
             Some err \<Rightarrow> FatalExit (''failed to listen: '' @ Error_text quote err)
           | None \<Rightarrow> Serves package_Serve)"

subsection \<open>A started server is safe\<close>

text \<open>
  Property C13. Every server that the package starts is safe. \<open>ListenAndServe\<close> returns an error exactly when the network refuses the
  address, which is the one of the server, or \<open>:61613\<close> if it has none. Otherwise the connections get a configuration with a logger,
  with the heart-beat and the authentication of the server, or one minute and none at all; and whether the server has a storage of its
  own that keeps the contract and is empty, or none, no state of it that polite clients can bring about is a crash.
\<close>

theorem listen_and_serve:
  assumes "queue_storage S contents started" and "pred_option (\<lambda>q. started q \<and> contents q = (\<lambda>d. [])) queueStorage"
  shows "case Server_ListenAndServe net_Listen s queueStorage of
      Inl err \<Rightarrow> net_Listen ''tcp'' (if srv_Addr s = [] then '':61613'' else srv_Addr s) = Some err
    | Inr (cfg, w0) \<Rightarrow> net_Listen ''tcp'' (if srv_Addr s = [] then '':61613'' else srv_Addr s) = None \<and>
        cfg_Logger cfg \<noteq> None \<and> cfg_HeartBeat cfg = (if srv_HeartBeat s = 0 then Minute else srv_HeartBeat s) \<and>
        Authenticate cfg = (case srv_Authenticator s of None \<Rightarrow> (\<lambda>login passcode. True) | Some auth \<Rightarrow> auth) \<and>
        w0 = start_server (choose_storage queueStorage) \<and>
        {w. server_reachable (chosen_storage S) quote cfg polite (choose_storage queueStorage) w} \<subseteq> {w. sw_crash w = None}"
proof (cases "net_Listen ''tcp'' (if srv_Addr s = [] then '':61613'' else srv_Addr s)")
  case None
  have "chosen_started started (choose_storage queueStorage)" "chosen_contents contents (choose_storage queueStorage) = (\<lambda>d. [])"
    using assms(2) empty_storage by (auto simp: chosen_started_def chosen_contents_def choose_storage_def split: option.splits)
  then have "sw_crash w = None"
    if "server_reachable (chosen_storage S) quote cfg polite (choose_storage queueStorage) w" for cfg w
    using reachable_server_inv [OF that chosen_storage_contract [OF assms(1)]] by (auto simp: server_inv_def)
  with None show ?thesis
    by (auto simp: Server_ListenAndServe_def Server_Serve_def Let_def listen_address_def DefaultAddr_def newConfig_def config_HeartBeat_def DefaultHeartBeat_def
        config_Authenticate_def fun_eq_iff split: option.splits)
next
  case (Some err)
  then have "Server_ListenAndServe net_Listen s queueStorage = Inl err"
    by (cases "srv_Addr s = []") (simp_all add: Server_ListenAndServe_def listen_address_def DefaultAddr_def)
  with Some show ?thesis by simp
qed

theorem listen_and_serve_witness:
  "Server_ListenAndServe (\<lambda>network addr. if addr = '':61613'' then None else Some ErrEOF) (default_server []) (None :: MemoryQueueStorage option)
     = Inr (\<lparr>Authenticate = (\<lambda>login passcode. True), cfg_HeartBeat = Minute, cfg_Logger = Some StdLogger\<rparr>, start_server (Inl NewMemoryQueueStorage)) \<and>
   {w. server_reachable (chosen_storage memory_storage) id
       \<lparr>Authenticate = (\<lambda>login passcode. True), cfg_HeartBeat = Minute, cfg_Logger = Some StdLogger\<rparr> polite (Inl NewMemoryQueueStorage) w} \<subseteq>
     {w. sw_crash w = None}"
proof -
  let ?net = "\<lambda>network addr. if addr = '':61613'' then None else Some ErrEOF"
  have e: "Server_ListenAndServe ?net (default_server []) (None :: MemoryQueueStorage option) =
      Inr (\<lparr>Authenticate = (\<lambda>login passcode. True), cfg_HeartBeat = Minute, cfg_Logger = Some StdLogger\<rparr>, start_server (Inl NewMemoryQueueStorage))"
    by (simp add: Server_ListenAndServe_def Server_Serve_def default_server_def listen_address_def DefaultAddr_def newConfig_def config_HeartBeat_def
        DefaultHeartBeat_def config_Authenticate_def choose_storage_def fun_eq_iff)
  from listen_and_serve [OF mem.queue_storage_axioms, of None ?net "default_server []" id] show ?thesis
    unfolding e by (simp add: choose_storage_def)
qed

text \<open>The command line server differs in one thing: an empty address is passed to the network as it is.\<close>

lemma stompd_serves:
  "stompd_main quote net_Listen False addr =
     (case net_Listen ''tcp'' addr of Some err \<Rightarrow> FatalExit (''failed to listen: '' @ Error_text quote err) | None \<Rightarrow> Serves package_Serve)"
  "net_Listen ''tcp'' addr = None \<Longrightarrow> addr \<noteq> [] \<Longrightarrow> package_ListenAndServe net_Listen addr = Inr package_Serve"
  by (auto simp: stompd_main_def package_ListenAndServe_def package_Serve_def Server_ListenAndServe_def listen_address_def Server_Serve_def default_server_def
      newConfig_def config_HeartBeat_def config_Authenticate_def fun_eq_iff split: option.splits)

end
