(* ===== verification/Spec2Isabelle.thy ===== *)
theory Spec2Isabelle
  imports Client_Dial Server_Once Server_Main
begin

text \<open>
  A verification development of go-stomp, a client library and a server for the STOMP messaging
  protocol, written in Go. Definitions are translated from the files under \<open>src/\<close>; where it is possible they
  keep the names of the functions and types they translate.

  \<^bold>\<open>The program.\<close> Frames (a command, a header, a body) are read from and written to byte streams
  (package \<open>frame\<close>). The server (packages \<open>server\<close>, \<open>server/client\<close>, \<open>server/queue\<close>, \<open>server/topic\<close>) has
  two goroutines per connection, \<open>readLoop\<close>, which reads frames, and \<open>processLoop\<close>, which owns the state of the
  connection, and one goroutine for the upper layer, \<open>requestProcessor.Serve\<close>, which owns queues and topics. They exchange
  requests, subscriptions and frames over channels. The client (package \<open>stomp\<close>) has the same two loops per connection and a
  goroutine per subscription; its operations run in the goroutines of the caller and meet the loops
  at a mutex, channels and a condition variable.

  \<^bold>\<open>Theories, frames.\<close>
  \<^item> \<open>Stomp_Prelude\<close>: the result type \<open>go\<close> (a panic or a value), Go's integers and durations, strings and
    numbers of the standard library, shared lemmas and collections.
  \<^item> \<open>Frame_Header\<close> (\<open>frame/header.go\<close>): the header as a flat slice of names and values; the locale of
    an association list, interpreted on it.
  \<^item> \<open>Frame_Codec\<close> (\<open>frame/frame.go\<close>, \<open>encode.go\<close>, \<open>writer.go\<close>, \<open>reader.go\<close>): writer over a buffered connection that may
    fail at any byte, reader over a stream in any segmentation; the locale of a stream codec, interpreted on
    them: the round trips.
  \<^item> \<open>Frame_Heartbeat\<close> (\<open>frame/heartbeat.go\<close>), \<open>Stomp_Core\<close> (\<open>version.go\<close>, \<open>ack.go\<close>, \<open>errors.go\<close>, \<open>id.go\<close>,
    \<open>validator.go\<close>).

  \<^bold>\<open>Theories, server.\<close>
  \<^item> \<open>Server_Negotiation\<close> (\<open>server/client/frame.go\<close>, \<open>util.go\<close>, \<open>errors.go\<close>), \<open>Server_Subscription\<close> (\<open>subscription.go\<close>,
    \<open>subscription_list.go\<close>, \<open>request.go\<close>; subscriptions are objects in an explicit store, since a
    connection, the lists and the upper layer share them), \<open>Server_TxStore\<close> (\<open>tx_store.go\<close>).
  \<^item> \<open>Server_Conn\<close> (\<open>server/client/conn.go\<close>): a \<open>View\<close> is the connection with the store and the requests it has sent;
    one definition per handler, the state functions, every branch of \<open>processLoop\<close>, \<open>readLoop\<close> and \<open>cleanupConn\<close>.
  \<^item> \<open>Server_Session\<close> and \<open>Server_Delivery\<close>: what these do over sequences of events: transactions, handshake, login,
    receipts, acknowledgements, the invariant of a connection, numbering of messages, cleanup.
  \<^item> \<open>Server_Queue\<close> (\<open>server/queue\<close>; the locale \<open>queue_storage\<close> is the contract of \<open>storage.go\<close>, interpreted on the
    in-memory storage), \<open>Server_Topic\<close> (\<open>server/topic\<close>), \<open>Server_Processor\<close> (\<open>server/processor.go\<close>, \<open>server.go\<close>).

  \<^item> \<open>Server_World\<close>: the whole server as a step relation: any number of connections and the processor over channels with their
    capacities; a goroutine that cannot send waits, a panic ends the process. \<open>Server_Polite\<close>: what the handlers do with the frames of clients that avoid the
    three known ways to take the server down. \<open>Server_Safe\<close>: the invariant of the whole server, by rule induction: where each
    subscription object is and what it carries there; no panic. \<open>Server_Origin\<close>: where every message comes from, for
    clients that may send anything. \<open>Server_Once\<close>: the copies of a message, counted over all places of the server. \<open>Server_Deadlock\<close> and \<open>Server_Loss\<close>: two reachable
    states in which it goes wrong for good.
  \<^item> \<open>Server_Main\<close> (\<open>server/server.go\<close>, \<open>processor.go\<close>, \<open>stompd/main.go\<close>): how a server is started; the contract of the storage for
    the one that it chooses.

  \<^bold>\<open>Theories, client.\<close>
  \<^item> \<open>Client_Prog\<close>: an operation is a value of type \<open>prog\<close>, the sequence of its visible actions; \<open>fire\<close>
    says what an action does to the shared state and when it blocks.
  \<^item> \<open>Client_Options\<close> (\<open>conn_options.go\<close>, \<open>send_options.go\<close>, \<open>subscribe_options.go\<close>), \<open>Client_Conn\<close> (\<open>conn.go\<close>, \<open>message.go\<close>),
    \<open>Client_Subscription\<close> (\<open>subscription.go\<close>), \<open>Client_Transaction\<close> (\<open>transaction.go\<close>): one program per operation and one
    per turn of a loop.
  \<^item> \<open>Client_World\<close>: the step relation that interleaves any number of goroutines, its reachable states and two
    invariants by rule induction. \<open>Client_Schedules\<close>: executable schedules, and the properties over all
    reachable states. \<open>Client_Calls\<close>: what single calls and loops do. \<open>Client_Dial\<close>: dialling, accessors, statistics.
  \<^item> \<open>Client_Server\<close> and this theory: both sides together: the handshake, acknowledgements, transactions, a message
    from one client to another.

  \<^bold>\<open>What is shown.\<close> Whatever is written is read back, in any segmentation. A queue delivers each message once and in order and
  loses none; a topic delivers to each subscriber. Transactions are atomic, from the client's calls to the
  requests of the server. The handshake agrees on version and heart-beats for all options. Every
  turn of a server connection keeps its invariant; a connection that is closed gives everything back.
  In every interleaving the client uses its write channel and mutex correctly. The requests that take the server
  down are characterised, and a server whose clients avoid them never panics, in any interleaving of its goroutines; its subscription objects
  have one owner at a time. Whatever the clients send, a \<open>MESSAGE\<close> that a connection receives is one that a client has sent, on a
  subscription that this connection asked for; and without acknowledgements a message to a queue is delivered at most as often as it
  was sent. Some properties state defects as the code has them: an acknowledgement
  takes the server down or has no effect, depending on the mode; a receipt for a subscription, a late receipt and a
  lost wake-up crash or block a client; a refused dial keeps its connection open; a commit can stop the server, and a closing connection can keep a message.

  \<^bold>\<open>Bounds.\<close> \<open>run_state\<close> nests the state function at most twice, which is proved to be the deepest possible
  (\<open>commit_recursion_bounded\<close>). The wait of \<open>Unsubscribe\<close> has two rounds, and no execution starts a third
  (\<open>unsubscribe_wait_bounded\<close>). \<open>finish\<close> runs the actions of one turn of a subscription's reader, seven at most. Loops over
  streams and lists are total functions. Counters and identifiers are 64-bit words, durations are \<open>int64\<close> with the wrap-around
  written out. Timers are not measured: whatever has a timeout may expire at any time.

  \<^bold>\<open>Not modelled.\<close> What a logger prints; the flags and the signals of \<open>stompd\<close> (nothing calls the functions for signals); the
  product of a duration and a floating-point number that the client passes to a timer; test helpers and examples. The network is an
  argument: what \<open>net.Listen\<close> and \<open>net.Dial\<close> answer, what a connection delivers and where it fails. The calls that set deadlines are
  listed by \<open>connect_deadlines\<close>; a deadline that expires is an error of the read. In \<open>Server_World\<close>
  a turn of a connection is one step: its requests are sent after it, one by one, and senders that wait for the same channel
  are let in in any order. The storage of queues and the quoting of strings in error messages are parameters.
\<close>

section \<open>A message from one client to another\<close>

text \<open>
  The frame that a connection writes for a message handed to one of its subscriptions, with the
  number \<open>n\<close> that it allocates.
\<close>

definition delivered_frame :: "string \<times> string \<times> bytes \<Rightarrow> Subscription \<Rightarrow> 64 word \<Rightarrow> Frame" where
  "delivered_frame m sub n =
     (case m of (dest, ctype, body) \<Rightarrow>
       (mk_frame MESSAGE ([(ContentLength, FormatUint (length body)), (Destination, dest)] @
          (if ctype = [] then [] else [(ContentType, ctype)]) @
          [(SubscriptionHdr, sub_id sub), (MessageId, FormatUint (unat n)), (IdHdr, FormatUint (unat n))] @
          (if sub_ack sub = AckAuto then [] else [(AckHdr, FormatUint (unat n))])))\<lparr>Body := body\<rparr>)"

lemma message_frame_writable:
  assumes "length body < 2 ^ 32"
  shows "writable (Some (message_frame SEND (dest, ctype, body)))"
  using assms by (simp add: writable_def message_frame_def valid_command_def Header_ContentLength_def)

lemma delivered_frame_writable:
  assumes "length body < 2 ^ 32"
  shows "writable (Some (delivered_frame (dest, ctype, body) sub n))"
  using assms by (simp add: writable_def delivered_frame_def valid_command_def Header_ContentLength_def)

lemma numbered_message:
  assumes "f = (message_frame MESSAGE m)\<lparr>Hdr := Header_Set (Hdr (message_frame MESSAGE m)) SubscriptionHdr (sub_id sub)\<rparr>"
  shows "allocateMessageId f (Some sub) v = (delivered_frame m sub (c_lastMsgId v + 1), v\<lparr>c_lastMsgId := c_lastMsgId v + 1\<rparr>)"
proof -
  obtain dest ctype body where m: "m = (dest, ctype, body)" using prod_cases3 by blast
  show ?thesis unfolding assms
    by (simp add: m allocateMessageId_def Let_def message_frame_def delivered_frame_def mk_frame_def Header_Set_unpairs
        Header_Del_def del_loop_unpairs del: unpairs.simps unpairs_append)
qed

lemma serve_to_waiting:
  assumes "upper_inv contents started p" and "up_qm p d = Some q" and "q_subs q = s # rest"
    and "Header_Contains (Hdr f) Destination = Some d"
  obtains p' where "serve S (EnqueueOp f) p = Ret p'" "up_out p' = up_out p @ [ToSubChannel (sub_conn (up_store p s)) s]"
    "up_store p' = (up_store p)(s := (up_store p s)\<lparr>sub_subList := None, sub_frame := Some (with_sub (up_store p) s f)\<rparr>)"
proof -
  have d: "isQueueDestination d" and none: "sub_frame (up_store p s) = None"
    using assms(1-3) by (auto simp: upper_inv_def queue_inv_def queue_view_def)
  have "serve S (EnqueueOp f) p = on_queue d (Queue_Enqueue S f) p"
    using assms(4) d by (simp add: serve_def)
  with assms(2,3) none that show thesis
    by (simp add: on_queue_def qm_Find_def Queue_Enqueue_def SL_Get_def queue_send_Ret with_sub_def)
qed

lemma on_sub_writes:
  assumes "ready (c_writer v)" and "c_subs v (sub_id (v_store v s)) = Some s'" and "sub_frame (v_store v s) = Some f"
    and "allocateMessageId f (Some (v_store v s)) (v\<lparr>c_timer := False\<rparr>) = (g, v\<lparr>c_timer := False, c_lastMsgId := n\<rparr>)"
  obtains w v3 where "ready w" "w_out w = w_out (c_writer v) @ frame_bytes (Some g)"
    "v3 = v\<lparr>c_timer := False, c_lastMsgId := n, v_store := (v_store v)(s := (v_store v s)\<lparr>sub_frame := Some g\<rparr>), c_writer := w\<rparr>"
    "on_sub s v =
      (if sub_ack (v_store v s) = AckAuto
       then Ret (True, send_request (SubscribeOp s) (v3\<lparr>v_store := (v_store v)(s := (v_store v s)\<lparr>sub_frame := None\<rparr>)\<rparr>))
       else go_bind (SL_Add (ConnList (c_self v)) s (c_subList v) (v_store v3)) (\<lambda>(sl, st). Ret (True, v3\<lparr>c_subList := sl, v_store := st\<rparr>)))"
proof -
  let ?v2 = "v\<lparr>c_timer := False, c_lastMsgId := n, v_store := (v_store v)(s := (v_store v s)\<lparr>sub_frame := Some g\<rparr>)\<rparr>"
  obtain w where w: "sendImmediately (Some g) ?v2 = (None, ?v2\<lparr>c_writer := w\<rparr>)" "ready w"
    "w_out w = w_out (c_writer v) @ frame_bytes (Some g)"
    using sendImmediately_ready [of ?v2 "Some g"] assms(1) by auto
  show thesis
    using that [OF w(2,3) refl] assms(2-4) w(1) by (simp add: on_sub_def Let_def)
qed

lemma on_sub_delivers:
  assumes "ready (c_writer v)" and "c_subs v (sub_id (v_store v s)) = Some s'" and "sub_frame (v_store v s) = Some f"
    and "allocateMessageId f (Some (v_store v s)) (v\<lparr>c_timer := False\<rparr>) = (g, v\<lparr>c_timer := False, c_lastMsgId := n\<rparr>)"
    and "sub_subList (v_store v s) = None"
  shows "\<exists>v'. on_sub s v = Ret (True, v') \<and> wire v' = wire v @ frame_bytes (Some g)"
proof -
  obtain w v3 where w: "w_out w = w_out (c_writer v) @ frame_bytes (Some g)"
    "v3 = v\<lparr>c_timer := False, c_lastMsgId := n, v_store := (v_store v)(s := (v_store v s)\<lparr>sub_frame := Some g\<rparr>), c_writer := w\<rparr>"
    "on_sub s v =
      (if sub_ack (v_store v s) = AckAuto
       then Ret (True, send_request (SubscribeOp s) (v3\<lparr>v_store := (v_store v)(s := (v_store v s)\<lparr>sub_frame := None\<rparr>)\<rparr>))
       else go_bind (SL_Add (ConnList (c_self v)) s (c_subList v) (v_store v3)) (\<lambda>(sl, st). Ret (True, v3\<lparr>c_subList := sl, v_store := st\<rparr>)))"
    using on_sub_writes [OF assms(1-4)] by blast
  then show ?thesis using assms(5) by (simp add: SL_Add_def wire_def send_request_def)
qed

lemma handleSend_turn:
  assumes "c_state v = Connected" and "Command f = SEND"
    and "Header_Contains (Hdr f) Receipt = None" and "Header_Contains (Hdr f) Transaction = None"
  shows "\<exists>v'. processLoop quote cfg [SelRead (Some f)] v = Ret (True, v') \<and> v_req v' = v_req v @ [EnqueueOp (f\<lparr>Command := MESSAGE\<rparr>)]"
proof -
  have "\<exists>v'. processLoop_turn quote cfg (SelRead (Some f)) v = Ret (True, v') \<and> v_req v' = v_req v @ [EnqueueOp (f\<lparr>Command := MESSAGE\<rparr>)]"
    by (rule turn_read) (use assms in \<open>simp add: stateFunc_def numeral_2_eq_2 run_state_send send_request_def del: run_state.simps\<close>)
  then show ?thesis by auto
qed

lemma runs_Send_plain:
  assumes "idle S"
  shows "runs t (Send c dest ctype body []) S (Return None)
    (queued \<lparr>req_Frame = message_frame SEND (dest, ctype, body), req_C = None\<rparr> (counted S))"
proof -
  from assms have i: "sh_lock S = None" "\<not> sh_closed S" "\<not> sh_writeClosed S" "length (sh_writeCh S) < sh_writeCap S"
    by (simp_all add: idle_def)
  let ?f = "message_frame SEND (dest, ctype, body)"
  let ?S = "queued \<lparr>req_Frame = ?f, req_C = None\<rparr> (counted S)"
  have "?S\<lparr>sh_lock := None\<rparr> = ?S" by (rule relock(2)) (simp add: i queued_def counted_def)
  with runs_post_plain [OF message_frame_lookup(3) [of SEND "(dest, ctype, body)"] i(3,4), of t c "sh_lastId S"] show ?thesis
    by (intro runs_Send [OF i(1,2), where n = "sh_lastId S" and r = "Inr ?f"]) (simp_all add: createSendFrame_plain)
qed

text \<open>
  Property C3. A message from end to end. One client sends a message to a queue on which a subscription of another
  client waits. The call succeeds and puts one request on the write channel; the server reads exactly
  that frame from the wire, gives one message to the upper layer, the upper layer hands it to the
  waiting subscription, its connection writes one frame, and the other client reads exactly this frame and
  passes it to the channel of its subscription as a message with the destination, the content
  type and the body that were sent.
\<close>

theorem message_end_to_end:
  assumes "idle S" and "length body < 2 ^ 32"
    and "c_state va = Connected" and "ready (c_writer va)"
    and "upper_inv contents started p" and "up_qm p dest = Some q" and "q_subs q = s # rest"
    and "ready (c_writer vb)" and "c_subs vb (sub_id (up_store p s)) = Some s"
    and "ls_channels l (sub_id (up_store p s)) = Some ch"
  shows "\<exists>f va' p' vb' g.
    runs t (Send c dest ctype body []) S (Return None) (queued \<lparr>req_Frame = f, req_C = None\<rparr> (counted S)) \<and>
    flat (Reader_Read e [frame_bytes (Some f)]) = Inr (Some f, []) \<and>
    processLoop quote cfg [SelRead (Some f)] va = Ret (True, va') \<and>
    v_req va' = v_req va @ [EnqueueOp (f\<lparr>Command := MESSAGE\<rparr>)] \<and>
    serve St (EnqueueOp (f\<lparr>Command := MESSAGE\<rparr>)) p = Ret p' \<and>
    up_out p' = up_out p @ [ToSubChannel (sub_conn (up_store p s)) s] \<and>
    on_sub s (vb\<lparr>v_store := up_store p'\<rparr>) = Ret (True, vb') \<and> wire vb' = wire vb @ frame_bytes (Some g) \<and>
    flat (Reader_Read e [frame_bytes (Some g)]) = Inr (Some g, []) \<and>
    on_frame quote order g l = PutFrame ch g (Return (LoopAt l)) \<and>
    msg_Destination (frame_message cs g) = dest \<and> msg_ContentType (frame_message cs g) = ctype \<and>
    msg_Body (frame_message cs g) = body"
proof -
  let ?m = "(dest, ctype, body)"
  let ?f = "message_frame SEND ?m" and ?sub = "up_store p s"
  let ?g = "delivered_frame ?m ?sub (c_lastMsgId vb + 1)"
  have f': "?f\<lparr>Command := MESSAGE\<rparr> = message_frame MESSAGE ?m" by (simp add: message_frame_def mk_frame_def)
  have reads: "flat (Reader_Read e [frame_bytes (Some h)]) = Inr (Some h, [])" if "writable (Some h)" for h
    by (rule Read_written [OF that]) simp
  obtain va' where va': "processLoop quote cfg [SelRead (Some ?f)] va = Ret (True, va')"
    "v_req va' = v_req va @ [EnqueueOp (?f\<lparr>Command := MESSAGE\<rparr>)]"
    using handleSend_turn [OF assms(3), of ?f quote cfg] by (auto simp: message_frame_lookup)
  have "Header_Contains (Hdr (message_frame MESSAGE ?m)) Destination = Some dest" by (simp add: message_frame_def)
  from serve_to_waiting [OF assms(5-7) this, of St] obtain p' where p': "serve St (EnqueueOp (message_frame MESSAGE ?m)) p = Ret p'"
    "up_out p' = up_out p @ [ToSubChannel (sub_conn ?sub) s]"
    "up_store p' = (up_store p)(s := ?sub\<lparr>sub_subList := None, sub_frame := Some (with_sub (up_store p) s (message_frame MESSAGE ?m))\<rparr>)"
    by blast
  let ?v = "vb\<lparr>v_store := up_store p'\<rparr>"
  have sub: "up_store p' s = ?sub\<lparr>sub_subList := None, sub_frame := Some (with_sub (up_store p) s (message_frame MESSAGE ?m))\<rparr>"
    using p'(3) by simp
  have "?g = delivered_frame ?m (v_store ?v s) (c_lastMsgId vb + 1)" by (simp add: sub delivered_frame_def)
  then have al: "allocateMessageId (with_sub (up_store p) s (message_frame MESSAGE ?m)) (Some (v_store ?v s)) (?v\<lparr>c_timer := False\<rparr>) =
      (?g, ?v\<lparr>c_timer := False, c_lastMsgId := c_lastMsgId vb + 1\<rparr>)"
    by (subst numbered_message [where m = ?m]) (simp_all add: with_sub_def sub)
  obtain vb' where vb': "on_sub s ?v = Ret (True, vb')" "wire vb' = wire vb @ frame_bytes (Some ?g)"
    using on_sub_delivers [OF _ _ _ al] assms(8,9) by (auto simp: sub wire_def)
  have "on_frame quote order ?g l = PutFrame ch ?g (Return (LoopAt l))"
    using assms(10) by (simp add: on_frame_def delivered_frame_def)
  moreover have "msg_Destination (frame_message cs ?g) = dest" "msg_ContentType (frame_message cs ?g) = ctype"
    "msg_Body (frame_message cs ?g) = body"
    by (simp_all add: frame_message_def delivered_frame_def Header_Get_def)
  ultimately show ?thesis
    using runs_Send_plain [OF assms(1), of t c dest ctype body] reads [OF message_frame_writable [OF assms(2)]]
      reads [OF delivered_frame_writable [OF assms(2)]] va' p'(1,2) vb' f' by metis
qed

text \<open>An upper layer with a subscription that waits on a queue.\<close>

definition waiting_upper :: "MemoryQueueStorage Upper" where
  "waiting_upper =
     (newRequestProcessor NewMemoryQueueStorage
        (\<lambda>s. (newSubscription 1 ''/queue/a'' ''sub-0'' AckClient)\<lparr>sub_subList := Some (QueueList ''/queue/a'')\<rparr>))
     \<lparr>up_qm := [''/queue/a'' \<mapsto> \<lparr>q_destination = ''/queue/a'', q_subs = [0]\<rparr>]\<rparr>"

lemma waiting_upper_inv: "upper_inv mem_contents mem_started waiting_upper"
  by (simp add: waiting_upper_def newRequestProcessor_def upper_inv_def NewMemoryQueueStorage_def mem_started_def queue_inv_def
      queue_view_def list_inv_def newSubscription_def isQueueDestination_def QueuePrefix_def mem_contents_def
      lists_get_def)

theorem message_end_to_end_witness:
  "\<exists>f va' p' vb' g. let S = start_shared sample_client (NewWriter None ErrEOF) 0 in
     runs 1 (Send sample_client ''/queue/a'' ''text/plain'' ''hello'' []) S (Return None) (queued \<lparr>req_Frame = f, req_C = None\<rparr> (counted S)) \<and>
     processLoop id sample_cfg [SelRead (Some f)] connected_view = Ret (True, va') \<and>
     serve memory_storage (EnqueueOp (f\<lparr>Command := MESSAGE\<rparr>)) waiting_upper = Ret p' \<and> up_out p' = [ToSubChannel 1 0] \<and>
     on_sub 0 ((connected_view\<lparr>c_subs := [''sub-0'' \<mapsto> 0]\<rparr>)\<lparr>v_store := up_store p'\<rparr>) = Ret (True, vb') \<and>
     msg_Body (frame_message sample_sub g) = ''hello''"
proof -
  let ?S = "start_shared sample_client (NewWriter None ErrEOF) 0"
  let ?m = "(''/queue/a'', ''text/plain'', ''hello'')"
  let ?l = "start_loop\<lparr>ls_channels := [''sub-0'' \<mapsto> Some 0]\<rparr>"
  let ?vb = "connected_view\<lparr>c_subs := [''sub-0'' \<mapsto> 0]\<rparr>"
  have hyps: "idle ?S" "length ''hello'' < 2 ^ 32" "c_state connected_view = Connected" "ready (c_writer connected_view)"
    "up_qm waiting_upper ''/queue/a'' = Some \<lparr>q_destination = ''/queue/a'', q_subs = [0]\<rparr>"
    "ready (c_writer ?vb)" "c_subs ?vb (sub_id (up_store waiting_upper 0)) = Some 0"
    "ls_channels ?l (sub_id (up_store waiting_upper 0)) = Some (Some 0)"
    by (simp_all add: idle_def start_shared_def sample_client_def connected_view_def waiting_upper_def newRequestProcessor_def
        newSubscription_def)
  have out: "up_out waiting_upper = []" "sub_conn (up_store waiting_upper 0) = 1"
    by (simp_all add: waiting_upper_def newRequestProcessor_def newSubscription_def)
  have subs: "q_subs \<lparr>q_destination = ''/queue/a'', q_subs = [0]\<rparr> = 0 # []" by simp
  obtain f va' p' vb' g where run:
    "runs 1 (Send sample_client ''/queue/a'' ''text/plain'' ''hello'' []) ?S (Return None) (queued \<lparr>req_Frame = f, req_C = None\<rparr> (counted ?S))"
    "processLoop id sample_cfg [SelRead (Some f)] connected_view = Ret (True, va')"
    "serve memory_storage (EnqueueOp (f\<lparr>Command := MESSAGE\<rparr>)) waiting_upper = Ret p'"
    "up_out p' = up_out waiting_upper @ [ToSubChannel (sub_conn (up_store waiting_upper 0)) 0]"
    "on_sub 0 (?vb\<lparr>v_store := up_store p'\<rparr>) = Ret (True, vb')"
    "msg_Body (frame_message sample_sub g) = ''hello''"
    using message_end_to_end [OF hyps(1-4) waiting_upper_inv hyps(5) subs hyps(6,7,8), of 1 sample_client "''text/plain''" ErrEOF id
        sample_cfg memory_storage "\<lambda>_. []" sample_sub] by blast
  then show ?thesis using out by (intro exI [of _ f] exI [of _ va'] exI [of _ p'] exI [of _ vb'] exI [of _ g]) (simp add: Let_def del: processLoop.simps)
qed

section \<open>An acknowledgement takes the server down\<close>

lemma allocateMessageId_shape: "\<exists>g n. allocateMessageId f so v = (g, v\<lparr>c_lastMsgId := n\<rparr>)"
  by (auto simp: allocateMessageId_def Let_def intro: exI [of _ "c_lastMsgId v"])

lemma on_sub_marked_panics:
  assumes "ready (c_writer v)" and "c_subs v (sub_id (v_store v s)) = Some s'" and "sub_frame (v_store v s) = Some f"
    and "sub_subList (v_store v s) \<noteq> None" and "sub_ack (v_store v s) \<noteq> AckAuto"
  shows "panics (on_sub s v)"
proof -
  obtain g n where al: "allocateMessageId f (Some (v_store v s)) (v\<lparr>c_timer := False\<rparr>) = (g, v\<lparr>c_timer := False, c_lastMsgId := n\<rparr>)"
    using allocateMessageId_shape [of f "Some (v_store v s)" "v\<lparr>c_timer := False\<rparr>"] by auto
  show ?thesis
    by (rule on_sub_writes [OF assms(1-3) al]) (use assms(4,5) in \<open>simp add: SL_Add_def\<close>)
qed

lemma stale_mark_panics:
  assumes "queue_storage St contents started" and "started (up_storage p)"
    and "sub_frame (v_store u s) = None" and "sub_subList (v_store u s) \<noteq> None" and "sub_ack (v_store u s) \<noteq> AckAuto"
    and "sub_dest (v_store u s) = d" and "isQueueDestination d"
    and "ready (c_writer u)" and "c_subs u (sub_id (v_store u s)) = Some s"
  shows "if contents (up_storage p) d = []
     then panics (serve St (SubscribeOp s) (p\<lparr>up_store := v_store u\<rparr>))
     else \<exists>p'. serve St (SubscribeOp s) (p\<lparr>up_store := v_store u\<rparr>) = Ret p' \<and> panics (on_sub s (u\<lparr>v_store := up_store p'\<rparr>))"
proof -
  obtain q qm where q: "qm_Find d (up_qm p) = (q, qm)" by fastforce
  obtain st' where st': "st_Dequeue St d (up_storage p) = Ret (Inr (case contents (up_storage p) d of [] \<Rightarrow> None | f # l \<Rightarrow> Some f), st')"
    using queue_storage.dequeue [OF assms(1,2), of d] by blast
  show ?thesis
  proof (cases "contents (up_storage p) d")
    case Nil
    with st' q assms(4,6,7) show ?thesis by (simp add: serve_def on_queue_def Queue_Subscribe_def SL_Add_def)
  next
    case (Cons f fs)
    let ?store = "(v_store u)(s := (v_store u s)\<lparr>sub_frame := Some (with_sub (v_store u) s f)\<rparr>)"
    obtain p' where p': "serve St (SubscribeOp s) (p\<lparr>up_store := v_store u\<rparr>) = Ret p'" "up_store p' = ?store"
      using Cons st' q assms(3,6,7) by (simp add: serve_def on_queue_def Queue_Subscribe_def queue_send_Ret)
    have "panics (on_sub s (u\<lparr>v_store := ?store\<rparr>))"
      by (rule on_sub_marked_panics) (use assms(4,5,8,9) in simp_all)
    with p' Cons show ?thesis by simp
  qed
qed



end
